(* ===== verification/SW_Prelude.thy ===== *)
theory SW_Prelude
  imports Main "HOL-Library.Word"
begin

text \<open>
  Shared vocabulary of the development: the type of C++ member functions as state
  transformers that may throw, the unsigned size arithmetic of \<open>size_t\<close>, the two C memory
  operations the sources use (\<open>memmove\<close> and writing through a \<open>char *\<close>), and the generic
  facts about lists that the component theories rely on.
\<close>

section \<open>Hint collections\<close>

named_theorems action_simps \<open>unfolding of the sequencing combinators\<close>
named_theorems kernel_simps \<open>effect of one system call on the process state\<close>
named_theorems memory_simps \<open>contents of a byte block after a C memory operation\<close>

section \<open>Actions\<close>

text \<open>
  A member function is a function of the state it may change; it returns either an exception
  (\<open>Inl\<close>) or a value (\<open>Inr\<close>), and always the state, since what was changed before a
  \<open>throw\<close> stays changed.
\<close>

type_synonym ('s, 'e, 'a) action = "'s \<Rightarrow> ('e + 'a) \<times> 's"

definition ret :: "'a \<Rightarrow> ('s, 'e, 'a) action" where
  "ret x s = (Inr x, s)"

definition throw :: "'e \<Rightarrow> ('s, 'e, 'a) action" where
  "throw e s = (Inl e, s)"

definition bindA :: "('s, 'e, 'a) action \<Rightarrow> ('a \<Rightarrow> ('s, 'e, 'b) action) \<Rightarrow> ('s, 'e, 'b) action"
where
  "bindA m f s = (case m s of (Inl e, t) \<Rightarrow> (Inl e, t) | (Inr x, t) \<Rightarrow> f x t)"

lemma ret_apply [simp, action_simps]: "ret x s = (Inr x, s)"
  by (simp add: ret_def)

lemma throw_apply [simp, action_simps]: "throw e s = (Inl e, s)"
  by (simp add: throw_def)

lemma bindA_Inr [simp]: "m s = (Inr x, t) \<Longrightarrow> bindA m f s = f x t"
  by (simp add: bindA_def)

lemma bindA_Inl [simp]: "m s = (Inl e, t) \<Longrightarrow> bindA m f s = (Inl e, t)"
  by (simp add: bindA_def)

lemma bindA_ret_left [simp]: "bindA (ret x) f = f x"
  by (rule ext) (simp add: bindA_def)

lemma bindA_InrE:
  assumes "bindA m f s = (Inr y, u)"
  obtains x t where "m s = (Inr x, t)" and "f x t = (Inr y, u)"
  using assms by (auto simp: bindA_def split: prod.splits sum.splits)

lemma bindA_InlE:
  assumes "bindA m f s = (Inl e, u)"
  obtains (first) "m s = (Inl e, u)"
    | (second) x t where "m s = (Inr x, t)" and "f x t = (Inl e, u)"
  using assms by (auto simp: bindA_def split: prod.splits sum.splits)

lemma bindA_cong [fundef_cong]:
  assumes "m s = m' s'" and "\<And>x t. m' s' = (Inr x, t) \<Longrightarrow> f x t = f' x t"
  shows "bindA m f s = bindA m' f' s'"
  using assms by (auto simp: bindA_def split: prod.splits sum.splits)

lemma pair_of_fst: "fst r = x \<Longrightarrow> r = (x, snd r)"
  by (cases r) simp

section \<open>The first occurrence in a list\<close>

text \<open>\<open>std::find\<close> returns the position \<open>length (takeWhile (\<lambda>c. c \<noteq> d) xs)\<close>.\<close>

definition find_index :: "'a \<Rightarrow> 'a list \<Rightarrow> nat" where
  "find_index d xs = length (takeWhile (\<lambda>c. c \<noteq> d) xs)"

lemma find_index_le: "find_index d xs \<le> length xs"
  by (simp add: find_index_def length_takeWhile_le)

lemma find_index_less_iff: "find_index d xs < length xs \<longleftrightarrow> d \<in> set xs"
  by (induction xs) (auto simp: find_index_def)

lemma find_index_absent: "d \<notin> set xs \<Longrightarrow> find_index d xs = length xs"
  using find_index_less_iff [of d xs] find_index_le [of d xs] by simp

lemma find_index_before: "d \<notin> set (take (find_index d xs) xs)"
  by (induction xs) (auto simp: find_index_def)

lemma find_index_split:
  "find_index d xs < length xs \<Longrightarrow>
     xs = take (find_index d xs) xs @ d # drop (Suc (find_index d xs)) xs"
  by (induction xs) (auto simp: find_index_def)

section \<open>Arithmetic of \<open>size_t\<close>\<close>

text \<open>
  \<open>size_t\<close> values are natural numbers below \<open>2 ^ 64\<close>. Only subtraction can leave the range
  in this code, and then it wraps around.
\<close>

definition size_minus :: "nat \<Rightarrow> nat \<Rightarrow> nat" where
  "size_minus a b = (if b \<le> a then a - b else 2 ^ 64 + a - b)"

lemma size_minus_le [simp]: "b \<le> a \<Longrightarrow> size_minus a b = a - b"
  by (simp add: size_minus_def)

text \<open>\<open>std::to_string\<close> of an unsigned and of a signed number.\<close>

fun to_string :: "nat \<Rightarrow> string" where
  "to_string n =
     (if n < 10 then [char_of (48 + n)] else to_string (n div 10) @ [char_of (48 + n mod 10)])"

declare to_string.simps [simp del]

definition to_string_int :: "int \<Rightarrow> string" where
  "to_string_int i = (if i < 0 then ''-'' @ to_string (nat (- i)) else to_string (nat i))"

section \<open>Blocks of memory\<close>

text \<open>\<open>block_write m off bs\<close>: the block \<open>m\<close> after \<open>bs\<close> was stored from offset \<open>off\<close> on.\<close>

definition block_write :: "'a list \<Rightarrow> nat \<Rightarrow> 'a list \<Rightarrow> 'a list" where
  "block_write m off bs = take off m @ bs @ drop (off + length bs) m"

text \<open>\<open>memmove(m, m + off, n)\<close> within one block.\<close>

definition block_move_down :: "'a list \<Rightarrow> nat \<Rightarrow> nat \<Rightarrow> 'a list" where
  "block_move_down m off n = block_write m 0 (take n (drop off m))"

lemma length_block_write [simp]:
  "off + length bs \<le> length m \<Longrightarrow> length (block_write m off bs) = length m"
  by (simp add: block_write_def)

lemma take_block_write [memory_simps]:
  "off \<le> length m \<Longrightarrow> take (off + length bs) (block_write m off bs) = take off m @ bs"
  by (simp add: block_write_def)

lemma block_write_Nil [simp]: "block_write m off [] = m"
  by (simp add: block_write_def)

lemma block_write_append [memory_simps]:
  "off + length xs + length ys \<le> length m \<Longrightarrow>
     block_write (block_write m off xs) (off + length xs) ys = block_write m off (xs @ ys)"
  by (simp add: block_write_def ac_simps)

lemma length_block_move_down [simp]:
  "n \<le> length m \<Longrightarrow> length (block_move_down m off n) = length m"
  by (simp add: block_move_down_def)

lemma take_block_move_down [memory_simps]:
  "off + n \<le> length m \<Longrightarrow> take n (block_move_down m off n) = take n (drop off m)"
  by (simp add: block_move_down_def block_write_def)

end
