(* ===== verification/Base_Types.thy ===== *)
theory Base_Types
  imports SW_Prelude
begin

text \<open>
  The value types every component shares: \<open>include/socket_wrapper/BaseTypes.h\<close> with
  \<open>src/BaseTypes.cpp\<close> (the IP version and its names, the description of a network interface)
  and \<open>SocketException.h\<close> with \<open>SocketException.cpp\<close> (the exception type, its name table and
  \<open>what()\<close>).
\<close>

section \<open>IP versions\<close>

datatype IP_VERSION = IPv4 | IPv6

text \<open>
  The \<open>std::map\<close> objects are association lists in the order of their initialisers;
  \<open>at\<close> throws \<open>std::out_of_range\<close> for a missing key.
\<close>

definition getName :: "(IP_VERSION \<times> string) list" where
  "getName = [(IPv6, ''IPv6''), (IPv4, ''IPv4'')]"

record NetworkInterface =
  name :: string
  ip_address :: string
  netmask :: string
  broadcast_address :: string

section \<open>Socket exceptions\<close>

datatype socket_exception_type =
    SOCKET_INVALID_CONDITION
  | SOCKET_OK
  | SOCKET_SOCKET
  | SOCKET_BIND
  | SOCKET_LISTEN
  | SOCKET_ACCEPT
  | SOCKET_WRITE
  | SOCKET_WRITE_PARTIAL
  | SOCKET_READ
  | SOCKET_CLOSE
  | SOCKET_CONNECT
  | SOCKET_PAIR
  | SOCKET_TERMINATION_REQUEST
  | SOCKET_CLOSED
  | SOCKET_READ_TIMEOUT
  | SOCKET_POLL
  | SOCKET_RECEIVE_BUFFER_TOO_SMALL
  | SOCKET_JOIN_MULTICAST
  | SOCKET_SET_OPTION

record SocketException =
  processed_bytes :: int
  c_error :: int
  exception_type :: socket_exception_type

text \<open>
  The exceptions the code throws: its own class and those of the standard library. The last
  two are not exceptions but ways in which the program ends or loses its meaning:
  \<open>std::terminate\<close> and undefined behaviour. Nothing in the code catches them.
\<close>

datatype error =
    Socket_Exception SocketException
  | Logic_Error string
  | Out_Of_Range string
  | Runtime_Error string
  | Invalid_Argument string
  | Length_Error
  | Terminate
  | Undefined_Behaviour

text \<open>The constructor \<open>SocketException(t, c_error = -1, processed_bytes = -1)\<close>.\<close>

definition socket_exception :: "socket_exception_type \<Rightarrow> int \<Rightarrow> int \<Rightarrow> error" where
  "socket_exception t err processed =
     Socket_Exception \<lparr>processed_bytes = processed, c_error = err, exception_type = t\<rparr>"

definition IpVersionfromString :: "string \<Rightarrow> error + IP_VERSION" where
  "IpVersionfromString v =
     (if v = ''IPv4'' then Inr IPv4
      else if v = ''IPv6'' then Inr IPv6
      else Inl (Invalid_Argument
        (''only supported ip versions are IPv6 and IPv4, not ['' @ v @ '']'')))"

definition SocketExceptionTypeName :: "(socket_exception_type \<times> string) list" where
  "SocketExceptionTypeName =
    [(SOCKET_INVALID_CONDITION, ''SOCKET_INVALID_CONDITION''),
     (SOCKET_OK, ''SOCKET_OK''),
     (SOCKET_SOCKET, ''SOCKET_SOCKET''),
     (SOCKET_BIND, ''SOCKET_BIND''),
     (SOCKET_LISTEN, ''SOCKET_LISTEN''),
     (SOCKET_ACCEPT, ''SOCKET_ACCEPT''),
     (SOCKET_WRITE, ''SOCKET_WRITE''),
     (SOCKET_WRITE_PARTIAL, ''SOCKET_WRITE_PARTIAL''),
     (SOCKET_READ, ''SOCKET_READ''),
     (SOCKET_CLOSE, ''SOCKET_CLOSE''),
     (SOCKET_CONNECT, ''SOCKET_CONNECT''),
     (SOCKET_PAIR, ''SOCKET_PAIR''),
     (SOCKET_TERMINATION_REQUEST, ''SOCKET_TERMINATION_REQUEST''),
     (SOCKET_CLOSED, ''SOCKET_CLOSED''),
     (SOCKET_READ_TIMEOUT, ''SOCKET_READ_TIMEOUT''),
     (SOCKET_POLL, ''SOCKET_POLL''),
     (SOCKET_RECEIVE_BUFFER_TOO_SMALL, ''SOCKET_RECEIVE_BUFFER_TOO_SMALL''),
     (SOCKET_JOIN_MULTICAST, ''SOCKET_JOIN_MULTICAST''),
     (SOCKET_SET_OPTION, ''SOCKET_SET_OPTION'')]"

definition map_at :: "('k \<times> 'v) list \<Rightarrow> 'k \<Rightarrow> error + 'v" where
  "map_at m k = (case map_of m k of None \<Rightarrow> Inl (Out_Of_Range ''map::at'') | Some v \<Rightarrow> Inr v)"

text \<open>
  \<open>what()\<close> is \<open>noexcept\<close>: an exception that leaves it ends the program. \<open>strerror\<close> is the
  C library's.
\<close>

definition what :: "(int \<Rightarrow> string) \<Rightarrow> SocketException \<Rightarrow> error + string" where
  "what strerror ex =
     (case map_at SocketExceptionTypeName (exception_type ex) of
        Inl _ \<Rightarrow> Inl Terminate
      | Inr n \<Rightarrow> Inr (n @ '':'' @ strerror (c_error ex)))"

text \<open>
  The enumeration is ordered by its underlying \<open>uint8_t\<close> value, which is what the
  \<open>std::map\<close> of names is sorted by.
\<close>

definition type_code :: "socket_exception_type \<Rightarrow> nat" where
  "type_code t = (case t of
      SOCKET_INVALID_CONDITION \<Rightarrow> 0 | SOCKET_OK \<Rightarrow> 1 | SOCKET_SOCKET \<Rightarrow> 2 | SOCKET_BIND \<Rightarrow> 3
    | SOCKET_LISTEN \<Rightarrow> 4 | SOCKET_ACCEPT \<Rightarrow> 5 | SOCKET_WRITE \<Rightarrow> 6 | SOCKET_WRITE_PARTIAL \<Rightarrow> 7
    | SOCKET_READ \<Rightarrow> 8 | SOCKET_CLOSE \<Rightarrow> 9 | SOCKET_CONNECT \<Rightarrow> 10 | SOCKET_PAIR \<Rightarrow> 11
    | SOCKET_TERMINATION_REQUEST \<Rightarrow> 12 | SOCKET_CLOSED \<Rightarrow> 13 | SOCKET_READ_TIMEOUT \<Rightarrow> 14
    | SOCKET_POLL \<Rightarrow> 15 | SOCKET_RECEIVE_BUFFER_TOO_SMALL \<Rightarrow> 16 | SOCKET_JOIN_MULTICAST \<Rightarrow> 17
    | SOCKET_SET_OPTION \<Rightarrow> 18)"

lemma type_code_inject: "type_code s = type_code t \<longleftrightarrow> s = t"
  by (cases s; cases t; simp add: type_code_def)

instantiation socket_exception_type :: linorder
begin
definition less_eq_socket_exception_type ::
    "socket_exception_type \<Rightarrow> socket_exception_type \<Rightarrow> bool" where
  "less_eq_socket_exception_type s t = (type_code s \<le> type_code t)"
definition less_socket_exception_type ::
    "socket_exception_type \<Rightarrow> socket_exception_type \<Rightarrow> bool" where
  "less_socket_exception_type s t = (type_code s < type_code t)"
instance
  by standard
    (auto simp: less_eq_socket_exception_type_def less_socket_exception_type_def type_code_inject)
end

section \<open>Properties\<close>

lemma getName_at [simp]:
  "map_at getName IPv4 = Inr ''IPv4''" "map_at getName IPv6 = Inr ''IPv6''"
  by (simp_all add: map_at_def getName_def)

text \<open>
  The name table and the parser of IP versions are inverse to each other: a text is parsed
  to a version exactly when it is that version's name, and every other text is
  \<open>std::invalid_argument\<close>.
\<close>

theorem IpVersionfromString_inverse:
  "(\<forall>x. IpVersionfromString v = Inr x \<longleftrightarrow> map_at getName x = Inr v) \<and>
   ((\<exists>x. map_at getName x = Inr v) \<or> (\<exists>text. IpVersionfromString v = Inl (Invalid_Argument text)))"
proof
  show "\<forall>x. IpVersionfromString v = Inr x \<longleftrightarrow> map_at getName x = Inr v"
  proof
    fix x
    show "IpVersionfromString v = Inr x \<longleftrightarrow> map_at getName x = Inr v"
      by (cases x) (auto simp: IpVersionfromString_def)
  qed
  show "(\<exists>x. map_at getName x = Inr v) \<or> (\<exists>text. IpVersionfromString v = Inl (Invalid_Argument text))"
    by (cases "v = ''IPv4''"; cases "v = ''IPv6''")
      (auto simp: IpVersionfromString_def intro: exI [of _ IPv4] exI [of _ IPv6])
qed

text \<open>Every type has a name, the names differ, and none contains the separator of \<open>what()\<close>.\<close>

lemma type_name_exists: "\<exists>n. map_at SocketExceptionTypeName t = Inr n \<and> CHR '':'' \<notin> set n"
  by (cases t) (simp_all add: map_at_def SocketExceptionTypeName_def)

lemma type_name:
  obtains n where "map_at SocketExceptionTypeName t = Inr n" and "CHR '':'' \<notin> set n"
  using type_name_exists by blast

lemma type_name_inject:
  assumes "map_at SocketExceptionTypeName s = Inr n" and "map_at SocketExceptionTypeName t = Inr n"
  shows "s = t"
proof -
  have "distinct (map snd SocketExceptionTypeName)"
    by (simp add: SocketExceptionTypeName_def)
  moreover have "(s, n) \<in> set SocketExceptionTypeName" "(t, n) \<in> set SocketExceptionTypeName"
    using assms by (auto simp: map_at_def dest: map_of_SomeD split: option.splits)
  ultimately show ?thesis
    by (metis eq_key_imp_eq_value distinct_map inj_onD prod.inject snd_conv)
qed

text \<open>
  \<open>what()\<close> never ends the program although it is \<open>noexcept\<close> and looks its name up with
  \<open>at\<close>: every type has a name in the table. Its text identifies the type: two exceptions with the
  same text have the same type, whatever \<open>strerror\<close> says.
\<close>

theorem what_identifies_type:
  "\<exists>text. what strerror ex = Inr text \<and>
    (\<forall>strerror' ex'. what strerror' ex' = Inr text \<longrightarrow> exception_type ex' = exception_type ex)"
proof -
  obtain n where n: "map_at SocketExceptionTypeName (exception_type ex) = Inr n" "CHR '':'' \<notin> set n"
    by (rule type_name)
  have "exception_type ex' = exception_type ex"
    if "what strerror' ex' = Inr (n @ '':'' @ strerror (c_error ex))" for strerror' ex'
  proof -
    obtain m where m: "map_at SocketExceptionTypeName (exception_type ex') = Inr m" "CHR '':'' \<notin> set m"
      by (rule type_name)
    with that have eq: "m @ '':'' @ strerror' (c_error ex') = n @ '':'' @ strerror (c_error ex)"
      by (simp add: what_def)
    have cut: "takeWhile (\<lambda>c. c \<noteq> CHR '':'') (w @ '':'' @ z) = w" if "CHR '':'' \<notin> set w" for w z :: string
      using that by (induction w) auto
    from arg_cong [OF eq, of "takeWhile (\<lambda>c. c \<noteq> CHR '':'')"] have "m = n"
      using cut m(2) n(2) by simp
    with m(1) n(1) show ?thesis by (auto intro: type_name_inject)
  qed
  with n(1) show ?thesis by (auto simp: what_def)
qed

theorem what_identifies_type_witness:
  "what (\<lambda>_. ''denied'') \<lparr>processed_bytes = -1, c_error = 13, exception_type = SOCKET_BIND\<rparr> \<noteq>
   what (\<lambda>_. ''denied'') \<lparr>processed_bytes = -1, c_error = 13, exception_type = SOCKET_READ\<rparr>"
proof -
  obtain t where "what (\<lambda>_. ''denied'') \<lparr>processed_bytes = -1, c_error = 13,
      exception_type = SOCKET_BIND\<rparr> = Inr t"
    and "\<forall>strerror' ex'. what strerror' ex' = Inr t \<longrightarrow> exception_type ex' = SOCKET_BIND"
    using what_identifies_type [of "\<lambda>_. ''denied''" "\<lparr>processed_bytes = -1, c_error = 13,
      exception_type = SOCKET_BIND\<rparr>"] by auto
  then show ?thesis by fastforce
qed

end
