(* ===== verification/Byte_Fifo.thy ===== *)
theory Byte_Fifo
  imports Base_Types
begin

text \<open>
  The interface between a byte buffer and the code that takes frames out of it, as two locales.
  \<open>byte_fifo\<close> is what \<open>PopFromBuffer\<close> promises its callers; \<open>byte_fifo_source\<close> adds what
  refilling from the network promises. The client lemmas are about sequences of pops and about
  the ledger: everything that ever arrived is what was popped, in order, followed by what the
  buffer still holds. The provider is \<open>BufferedStream\<close>.
\<close>

text \<open>Popping a list of sizes, stopping at the first exception.\<close>

fun pop_all :: "(nat \<Rightarrow> ('s, error, char list) action) \<Rightarrow> nat list \<Rightarrow> ('s, error, char list list) action"
where
  "pop_all pop [] s = (Inr [], s)"
| "pop_all pop (n # ns) s =
     (case pop n s of
        (Inl e, t) \<Rightarrow> (Inl e, t)
      | (Inr x, t) \<Rightarrow>
          (case pop_all pop ns t of
             (Inl e, u) \<Rightarrow> (Inl e, u)
           | (Inr xs, u) \<Rightarrow> (Inr (x # xs), u)))"

locale byte_fifo =
  fixes invar :: "'s \<Rightarrow> bool"
    and contents :: "'s \<Rightarrow> char list"
    and pop :: "nat \<Rightarrow> ('s, error, char list) action"
  assumes pop_value: "invar s \<Longrightarrow> n \<le> length (contents s) \<Longrightarrow>
      fst (pop n s) = Inr (take n (contents s))"
    and pop_contents: "invar s \<Longrightarrow> n \<le> length (contents s) \<Longrightarrow>
      contents (snd (pop n s)) = drop n (contents s)"
    and pop_invar: "invar s \<Longrightarrow> n \<le> length (contents s) \<Longrightarrow> invar (snd (pop n s))"
    and pop_short: "invar s \<Longrightarrow> length (contents s) < n \<Longrightarrow>
      \<exists>msg. pop n s = (Inl (Out_Of_Range msg), s)"
begin

lemma pop_ok:
  assumes "invar s" and "n \<le> length (contents s)"
  obtains t where "pop n s = (Inr (take n (contents s)), t)" and "invar t"
    and "contents t = drop n (contents s)"
  using pop_value [OF assms] pop_contents [OF assms] pop_invar [OF assms]
  by (intro that [of "snd (pop n s)"]) (simp_all add: prod_eq_iff)

lemma pop_split:
  assumes "invar s" and "pop n s = (Inr x, t)"
  shows "contents s = x @ contents t" and "length x = n" and "invar t"
proof -
  have "n \<le> length (contents s)"
    using pop_short [OF assms(1), of n] assms(2) by (cases "n \<le> length (contents s)") auto
  moreover from this obtain u where "pop n s = (Inr (take n (contents s)), u)" and "invar u"
      and "contents u = drop n (contents s)"
    using pop_ok [OF assms(1)] by blast
  ultimately show "contents s = x @ contents t" and "length x = n" and "invar t"
    using assms(2) by simp_all
qed

lemma pop_all_split:
  assumes "invar s" and "pop_all pop ns s = (Inr xs, t)"
  shows "contents s = concat xs @ contents t \<and> map length xs = ns \<and> invar t"
  using assms
proof (induction ns arbitrary: s xs)
  case (Cons n ns)
  then obtain x u ys where "pop n s = (Inr x, u)" "pop_all pop ns u = (Inr ys, t)" "xs = x # ys"
    by (auto split: prod.splits sum.splits)
  with Cons.IH [of u ys] pop_split [OF Cons.prems(1)] show ?case by auto
qed auto

lemma pop_all_total:
  assumes "invar s" and "sum_list ns \<le> length (contents s)"
  shows "\<exists>xs t. pop_all pop ns s = (Inr xs, t)"
  using assms
proof (induction ns arbitrary: s)
  case (Cons n ns)
  then have "n \<le> length (contents s)" by simp
  with Cons.prems obtain t where t: "pop n s = (Inr (take n (contents s)), t)" "invar t"
      "contents t = drop n (contents s)"
    using pop_ok by blast
  moreover from this Cons.prems have "\<exists>xs u. pop_all pop ns t = (Inr xs, u)"
    by (intro Cons.IH) simp_all
  ultimately show ?case by auto
qed simp

end

locale byte_fifo_source = byte_fifo invar contents pop
  for invar :: "'s \<Rightarrow> bool" and contents :: "'s \<Rightarrow> char list"
    and pop :: "nat \<Rightarrow> ('s, error, char list) action" +
  fixes arrived :: "'s \<Rightarrow> char list"
    and refill :: "int \<Rightarrow> ('s, error, nat) action"
  assumes pop_arrived: "invar s \<Longrightarrow> arrived (snd (pop n s)) = arrived s"
    and refill_ok: "invar s \<Longrightarrow> refill t s = (Inr n, u) \<Longrightarrow>
      invar u \<and> (\<exists>new. length new = n \<and> 0 < n \<and> contents u = contents s @ new \<and>
        arrived u = arrived s @ new)"
    and refill_error: "invar s \<Longrightarrow> refill t s = (Inl e, u) \<Longrightarrow>
      invar u \<and> contents u = contents s \<and> arrived u = arrived s"
begin

text \<open>\<open>ledger out s\<close>: \<open>out\<close> is what was taken out since the start of the stream.\<close>

definition ledger :: "char list \<Rightarrow> 's \<Rightarrow> bool" where
  "ledger out s \<longleftrightarrow> invar s \<and> arrived s = out @ contents s"

lemma ledger_refill: "ledger out s \<Longrightarrow> refill t s = (r, u) \<Longrightarrow> ledger out u"
  using refill_ok [of s t] refill_error [of s t] unfolding ledger_def
  by (cases r) fastforce+

lemma ledger_pop: "ledger out s \<Longrightarrow> pop n s = (Inr x, u) \<Longrightarrow> ledger (out @ x) u"
  using pop_split [of s n x u] pop_arrived [of s n] unfolding ledger_def by auto

lemma ledger_pop_error: "ledger out s \<Longrightarrow> pop n s = (Inl e, u) \<Longrightarrow> ledger out u"
  using pop_short [of s n] pop_value [of s n] unfolding ledger_def
  by (cases "n \<le> length (contents s)") auto

lemma refill_grows:
  "invar s \<Longrightarrow> refill t s = (Inr n, u) \<Longrightarrow> length (contents s) < length (contents u)"
  using refill_ok [of s t n u] by auto

end

end
