(* ===== verification/Kernel.thy ===== *)
theory Kernel
  imports Base_Types
begin

text \<open>
  The operating system as the sources see it. The system calls and the C library's address
  functions are code outside the repository, so they are parameters: a \<open>kernel\<close> answers each
  call from the history of all calls made so far, a \<open>libc\<close> converts addresses. Nothing here
  says what a kernel does; the documented behaviour that a property relies on is one of the
  predicates of the last section, and the property names it as a hypothesis.

  A process is the history of its calls with the answers it got, and \<open>errno\<close>. Reading the
  history gives everything the properties speak about: the bytes received on a descriptor, the
  descriptors that are open, the value of an \<open>eventfd\<close> counter.
\<close>

unbundle bit_operations_syntax

section \<open>Descriptors, addresses and answers\<close>

type_synonym fd = int
type_synonym errno = int
type_synonym 'a answer = "errno + 'a"

datatype address_family = AF_INET | AF_INET6 | AF_LOCAL | AF_other nat

text \<open>
  Addresses and ports are in network byte order, as in the C structures. The type and protocol
  arguments of \<open>socket\<close> are the numbers of the Linux headers.
\<close>

datatype sockaddr =
    Sockaddr_In (sin_addr: "32 word") (sin_port: "16 word")
  | Sockaddr_In6 (sin6_addr: "128 word") (sin6_port: "16 word")
  | Sockaddr_Other nat

datatype sockopt =
    SO_REUSEADDR int
  | SO_REUSEPORT int
  | IP_ADD_MEMBERSHIP (imr_multiaddr: "32 word") (imr_interface: "32 word")

definition SOCK_STREAM :: "32 word" where "SOCK_STREAM = 1"
definition SOCK_DGRAM :: "32 word" where "SOCK_DGRAM = 2"
definition SOCK_NONBLOCK :: "32 word" where "SOCK_NONBLOCK = 2048"
definition SO_REUSEADDR_value :: "32 word" where "SO_REUSEADDR_value = 2"
definition IPPROTO_IP :: nat where "IPPROTO_IP = 0"
definition IPPROTO_TCP :: nat where "IPPROTO_TCP = 6"
definition IPPROTO_UDP :: nat where "IPPROTO_UDP = 17"

definition POLLIN :: "16 word" where "POLLIN = 1"

section \<open>Events\<close>

text \<open>
  One constructor per system call, with its arguments and its answer (\<open>Inl\<close> is a result of
  \<open>-1\<close> with the new \<open>errno\<close>). Writing or reading the eight bytes of an \<open>uint64_t\<close> on an
  \<open>eventfd\<close> is kept apart from reading and writing byte buffers.
\<close>

datatype event =
    Ev_Eventfd "fd answer"
  | Ev_Eventfd_Write fd "64 word" "unit answer"
  | Ev_Eventfd_Read fd "64 word answer"
  | Ev_Poll "fd list" int "16 word list answer"
  | Ev_Read fd nat "char list answer"
  | Ev_Write fd "char list" "nat answer"
  | Ev_Close fd "unit answer"
  | Ev_Sleep int
  | Ev_Socket address_family "32 word" nat "fd answer"
  | Ev_Socketpair address_family "32 word" nat "(fd \<times> fd) answer"
  | Ev_Setsockopt fd sockopt "unit answer"
  | Ev_Bind fd sockaddr "unit answer"
  | Ev_Listen fd int "unit answer"
  | Ev_Accept fd "fd answer"
  | Ev_Connect fd sockaddr "unit answer"
  | Ev_Recvmsg fd nat "(char list \<times> bool) answer"
  | Ev_Sendto fd "char list" sockaddr "nat answer"
  | Ev_Free

type_synonym history = "event list"

record kernel =
  k_eventfd :: "history \<Rightarrow> fd answer"
  k_eventfd_write :: "history \<Rightarrow> fd \<Rightarrow> 64 word \<Rightarrow> unit answer"
  k_eventfd_read :: "history \<Rightarrow> fd \<Rightarrow> 64 word answer"
  k_poll :: "history \<Rightarrow> fd list \<Rightarrow> int \<Rightarrow> 16 word list answer"
  k_read :: "history \<Rightarrow> fd \<Rightarrow> nat \<Rightarrow> char list answer"
  k_write :: "history \<Rightarrow> fd \<Rightarrow> char list \<Rightarrow> nat answer"
  k_close :: "history \<Rightarrow> fd \<Rightarrow> unit answer"
  k_socket :: "history \<Rightarrow> address_family \<Rightarrow> 32 word \<Rightarrow> nat \<Rightarrow> fd answer"
  k_socketpair :: "history \<Rightarrow> address_family \<Rightarrow> 32 word \<Rightarrow> nat \<Rightarrow> (fd \<times> fd) answer"
  k_setsockopt :: "history \<Rightarrow> fd \<Rightarrow> sockopt \<Rightarrow> unit answer"
  k_bind :: "history \<Rightarrow> fd \<Rightarrow> sockaddr \<Rightarrow> unit answer"
  k_listen :: "history \<Rightarrow> fd \<Rightarrow> int \<Rightarrow> unit answer"
  k_accept :: "history \<Rightarrow> fd \<Rightarrow> fd answer"
  k_connect :: "history \<Rightarrow> fd \<Rightarrow> sockaddr \<Rightarrow> unit answer"
  k_recvmsg :: "history \<Rightarrow> fd \<Rightarrow> nat \<Rightarrow> (char list \<times> bool) answer"
  k_sendto :: "history \<Rightarrow> fd \<Rightarrow> char list \<Rightarrow> sockaddr \<Rightarrow> nat answer"

text \<open>
  The C library: address conversions, byte order, and whether the system headers define
  \<open>SO_REUSEPORT\<close> (an \<open>#ifdef\<close> of the sources).
\<close>

record libc =
  inet_addr :: "string \<Rightarrow> 32 word"
  inet_pton6 :: "string \<Rightarrow> 128 word option"
  inet_ntop4 :: "32 word \<Rightarrow> string"
  inet_ntop6 :: "128 word \<Rightarrow> string"
  htons :: "16 word \<Rightarrow> 16 word"
  htonl :: "32 word \<Rightarrow> 32 word"
  ntohl :: "32 word \<Rightarrow> 32 word"
  strerror :: "errno \<Rightarrow> string"
  SO_REUSEPORT_defined :: bool

section \<open>System calls\<close>

record process =
  history :: history
  errno :: errno

text \<open>
  A call appends its event; a failed call returns \<open>None\<close> (the \<open>-1\<close> of C) and sets
  \<open>errno\<close>, a successful one leaves \<open>errno\<close> alone.
\<close>

definition syscall :: "('a answer \<Rightarrow> event) \<Rightarrow> 'a answer \<Rightarrow> process \<Rightarrow> 'a option \<times> process" where
  "syscall ev a p =
     (case a of
        Inl e \<Rightarrow> (None, p\<lparr>history := history p @ [ev a], errno := e\<rparr>)
      | Inr x \<Rightarrow> (Some x, p\<lparr>history := history p @ [ev a]\<rparr>))"

definition sys_eventfd :: "kernel \<Rightarrow> process \<Rightarrow> fd option \<times> process" where
  "sys_eventfd k p = syscall Ev_Eventfd (k_eventfd k (history p)) p"

definition sys_eventfd_write :: "kernel \<Rightarrow> fd \<Rightarrow> 64 word \<Rightarrow> process \<Rightarrow> unit option \<times> process" where
  "sys_eventfd_write k d v p =
     syscall (Ev_Eventfd_Write d v) (k_eventfd_write k (history p) d v) p"

definition sys_eventfd_read :: "kernel \<Rightarrow> fd \<Rightarrow> process \<Rightarrow> 64 word option \<times> process" where
  "sys_eventfd_read k d p = syscall (Ev_Eventfd_Read d) (k_eventfd_read k (history p) d) p"

definition sys_poll :: "kernel \<Rightarrow> fd list \<Rightarrow> int \<Rightarrow> process \<Rightarrow> 16 word list option \<times> process" where
  "sys_poll k ds t p = syscall (Ev_Poll ds t) (k_poll k (history p) ds t) p"

definition sys_read :: "kernel \<Rightarrow> fd \<Rightarrow> nat \<Rightarrow> process \<Rightarrow> char list option \<times> process" where
  "sys_read k d n p = syscall (Ev_Read d n) (k_read k (history p) d n) p"

definition sys_write :: "kernel \<Rightarrow> fd \<Rightarrow> char list \<Rightarrow> process \<Rightarrow> nat option \<times> process" where
  "sys_write k d bs p = syscall (Ev_Write d bs) (k_write k (history p) d bs) p"

definition sys_close :: "kernel \<Rightarrow> fd \<Rightarrow> process \<Rightarrow> unit option \<times> process" where
  "sys_close k d p = syscall (Ev_Close d) (k_close k (history p) d) p"

definition sys_sleep :: "int \<Rightarrow> process \<Rightarrow> process" where
  "sys_sleep ms p = p\<lparr>history := history p @ [Ev_Sleep ms]\<rparr>"

definition sys_free :: "process \<Rightarrow> process" where
  "sys_free p = p\<lparr>history := history p @ [Ev_Free]\<rparr>"

definition sys_socket ::
    "kernel \<Rightarrow> address_family \<Rightarrow> 32 word \<Rightarrow> nat \<Rightarrow> process \<Rightarrow> fd option \<times> process" where
  "sys_socket k f t pr p = syscall (Ev_Socket f t pr) (k_socket k (history p) f t pr) p"

definition sys_socketpair ::
    "kernel \<Rightarrow> address_family \<Rightarrow> 32 word \<Rightarrow> nat \<Rightarrow> process \<Rightarrow> (fd \<times> fd) option \<times> process" where
  "sys_socketpair k f t pr p = syscall (Ev_Socketpair f t pr) (k_socketpair k (history p) f t pr) p"

definition sys_setsockopt :: "kernel \<Rightarrow> fd \<Rightarrow> sockopt \<Rightarrow> process \<Rightarrow> unit option \<times> process" where
  "sys_setsockopt k d opt p = syscall (Ev_Setsockopt d opt) (k_setsockopt k (history p) d opt) p"

definition sys_bind :: "kernel \<Rightarrow> fd \<Rightarrow> sockaddr \<Rightarrow> process \<Rightarrow> unit option \<times> process" where
  "sys_bind k d a p = syscall (Ev_Bind d a) (k_bind k (history p) d a) p"

definition sys_listen :: "kernel \<Rightarrow> fd \<Rightarrow> int \<Rightarrow> process \<Rightarrow> unit option \<times> process" where
  "sys_listen k d n p = syscall (Ev_Listen d n) (k_listen k (history p) d n) p"

definition sys_accept :: "kernel \<Rightarrow> fd \<Rightarrow> process \<Rightarrow> fd option \<times> process" where
  "sys_accept k d p = syscall (Ev_Accept d) (k_accept k (history p) d) p"

definition sys_connect :: "kernel \<Rightarrow> fd \<Rightarrow> sockaddr \<Rightarrow> process \<Rightarrow> unit option \<times> process" where
  "sys_connect k d a p = syscall (Ev_Connect d a) (k_connect k (history p) d a) p"

definition sys_recvmsg ::
    "kernel \<Rightarrow> fd \<Rightarrow> nat \<Rightarrow> process \<Rightarrow> (char list \<times> bool) option \<times> process" where
  "sys_recvmsg k d n p = syscall (Ev_Recvmsg d n) (k_recvmsg k (history p) d n) p"

definition sys_sendto ::
    "kernel \<Rightarrow> fd \<Rightarrow> char list \<Rightarrow> sockaddr \<Rightarrow> process \<Rightarrow> nat option \<times> process" where
  "sys_sendto k d bs a p = syscall (Ev_Sendto d bs a) (k_sendto k (history p) d bs a) p"

text \<open>
  The idiom \<open>if (call(...) < 0) throw SocketException(t, errno);\<close>
\<close>

definition throw_errno ::
    "socket_exception_type \<Rightarrow> (process \<Rightarrow> 'a option \<times> process) \<Rightarrow> (process, error, 'a) action" where
  "throw_errno t c p =
     (case c p of
        (None, q) \<Rightarrow> (Inl (socket_exception t (errno q) (-1)), q)
      | (Some x, q) \<Rightarrow> (Inr x, q))"

text \<open>A call whose result the code ignores.\<close>

definition ignore_result :: "(process \<Rightarrow> 'a option \<times> process) \<Rightarrow> (process, error, unit) action" where
  "ignore_result c p = (Inr (), snd (c p))"

text \<open>The \<open>revents\<close> field of entry \<open>i\<close> after a poll; it was initialised to 0.\<close>

definition revents :: "16 word list \<Rightarrow> nat \<Rightarrow> 16 word" where
  "revents rs i = (if i < length rs then rs ! i else 0)"

text \<open>The number \<open>poll\<close> returns: how many entries have a non-zero \<open>revents\<close>.\<close>

definition poll_count :: "16 word list \<Rightarrow> int" where
  "poll_count rs = int (length (filter (\<lambda>r. r \<noteq> 0) rs))"

lemmas syscall_defs =
  sys_eventfd_def sys_eventfd_write_def sys_eventfd_read_def sys_poll_def sys_read_def
  sys_write_def sys_close_def sys_socket_def sys_socketpair_def sys_setsockopt_def sys_bind_def
  sys_listen_def sys_accept_def sys_connect_def sys_recvmsg_def sys_sendto_def

lemma syscall_Inl [simp, kernel_simps]:
  "syscall ev (Inl e) p = (None, p\<lparr>history := history p @ [ev (Inl e)], errno := e\<rparr>)"
  by (simp add: syscall_def)

lemma syscall_Inr [simp, kernel_simps]:
  "syscall ev (Inr x) p = (Some x, p\<lparr>history := history p @ [ev (Inr x)]\<rparr>)"
  by (simp add: syscall_def)

lemma syscall_history: "history (snd (syscall ev a p)) = history p @ [ev a]"
  by (cases a) simp_all

lemma syscall_cases:
  assumes "syscall ev a p = (r, q)"
  obtains (failed) e where "a = Inl e" "r = None"
      "q = p\<lparr>history := history p @ [ev (Inl e)], errno := e\<rparr>"
    | (success) x where "a = Inr x" "r = Some x" "q = p\<lparr>history := history p @ [ev (Inr x)]\<rparr>"
  using assms by (cases a) simp_all

section \<open>What a history says\<close>

text \<open>The bytes that \<open>read\<close> delivered on a descriptor, and those \<open>write\<close> accepted.\<close>

fun event_received :: "fd \<Rightarrow> event \<Rightarrow> char list" where
  "event_received d (Ev_Read d' n (Inr bs)) = (if d' = d then bs else [])"
| "event_received d _ = []"

fun event_sent :: "fd \<Rightarrow> event \<Rightarrow> char list" where
  "event_sent d (Ev_Write d' bs (Inr n)) = (if d' = d then take n bs else [])"
| "event_sent d _ = []"

definition received :: "fd \<Rightarrow> history \<Rightarrow> char list" where
  "received d h = concat (map (event_received d) h)"

definition sent :: "fd \<Rightarrow> history \<Rightarrow> char list" where
  "sent d h = concat (map (event_sent d) h)"

text \<open>
  The counter of an \<open>eventfd\<close> with \<open>EFD_SEMAPHORE\<close>: created at 0, a write adds its value, a
  read takes off the value it returned (1 in semaphore mode). \<open>None\<close> for a descriptor that is
  not an open \<open>eventfd\<close>.
\<close>

fun efd_step :: "fd \<Rightarrow> int option \<Rightarrow> event \<Rightarrow> int option" where
  "efd_step d c (Ev_Eventfd (Inr d')) = (if d' = d then Some 0 else c)"
| "efd_step d c (Ev_Eventfd_Write d' v (Inr _)) =
     (if d' = d then map_option (\<lambda>n. n + uint v) c else c)"
| "efd_step d c (Ev_Eventfd_Read d' (Inr v)) =
     (if d' = d then map_option (\<lambda>n. n - uint v) c else c)"
| "efd_step d c (Ev_Close d' (Inr _)) = (if d' = d then None else c)"
| "efd_step d c _ = c"

definition efd_count :: "fd \<Rightarrow> history \<Rightarrow> int option" where
  "efd_count d h = foldl (efd_step d) None h"

text \<open>The descriptors the process holds.\<close>

fun open_step :: "fd set \<Rightarrow> event \<Rightarrow> fd set" where
  "open_step D (Ev_Eventfd (Inr d)) = insert d D"
| "open_step D (Ev_Socket _ _ _ (Inr d)) = insert d D"
| "open_step D (Ev_Socketpair _ _ _ (Inr ds)) = insert (fst ds) (insert (snd ds) D)"
| "open_step D (Ev_Accept _ (Inr d)) = insert d D"
| "open_step D (Ev_Close d (Inr _)) = D - {d}"
| "open_step D _ = D"

definition open_fds :: "history \<Rightarrow> fd set" where
  "open_fds h = foldl open_step {} h"

lemma received_Nil [simp]: "received d [] = []"
  by (simp add: received_def)

lemma received_append [simp]: "received d (h @ h') = received d h @ received d h'"
  by (simp add: received_def)

lemma received_Cons [simp]: "received d (e # h) = event_received d e @ received d h"
  by (simp add: received_def)

lemma sent_Nil [simp]: "sent d [] = []"
  by (simp add: sent_def)

lemma sent_append [simp]: "sent d (h @ h') = sent d h @ sent d h'"
  by (simp add: sent_def)

lemma sent_Cons [simp]: "sent d (e # h) = event_sent d e @ sent d h"
  by (simp add: sent_def)

lemma efd_count_Nil [simp]: "efd_count d [] = None"
  by (simp add: efd_count_def)

lemma efd_count_snoc [simp]: "efd_count d (h @ [e]) = efd_step d (efd_count d h) e"
  by (simp add: efd_count_def)

lemma open_fds_Nil [simp]: "open_fds [] = {}"
  by (simp add: open_fds_def)

lemma open_fds_snoc [simp]: "open_fds (h @ [e]) = open_step (open_fds h) e"
  by (simp add: open_fds_def)

text \<open>
  Two events appended at once, as the straight-line code of constructors leaves them.
\<close>

lemma open_fds_Cons_append [simp]:
  "open_fds (h @ e # es) = foldl open_step (open_step (open_fds h) e) es"
  by (simp add: open_fds_def)

lemma efd_count_Cons_append [simp]:
  "efd_count d (h @ e # es) = foldl (efd_step d) (efd_step d (efd_count d h) e) es"
  by (simp add: efd_count_def)

lemma open_fds_Cons [simp]: "open_fds (e # es) = foldl open_step (open_step {} e) es"
  by (simp add: open_fds_def)

lemma efd_count_Cons [simp]: "efd_count d (e # es) = foldl (efd_step d) (efd_step d None e) es"
  by (simp add: efd_count_def)

section \<open>Documented behaviour\<close>

text \<open>
  What the manual pages promise, each as a predicate on the kernel. \<open>read(2)\<close> returns at most
  the number of bytes asked for, \<open>write(2)\<close> accepts at most the bytes it is given.
\<close>

definition read_bounded :: "kernel \<Rightarrow> bool" where
  "read_bounded k = (\<forall>h d n bs. k_read k h d n = Inr bs \<longrightarrow> length bs \<le> n)"

definition write_bounded :: "kernel \<Rightarrow> bool" where
  "write_bounded k = (\<forall>h d bs n. k_write k h d bs = Inr n \<longrightarrow> n \<le> length bs)"

text \<open>
  \<open>poll(2)\<close> fills one \<open>revents\<close> per entry; an entry with a negative descriptor is ignored;
  with a negative timeout it only returns when some entry is ready.
\<close>

definition poll_reports :: "kernel \<Rightarrow> bool" where
  "poll_reports k =
     (\<forall>h ds t rs. k_poll k h ds t = Inr rs \<longrightarrow>
        length rs = length ds \<and>
        (\<forall>i < length ds. ds ! i < 0 \<longrightarrow> rs ! i = 0) \<and>
        (t < 0 \<longrightarrow> (\<exists>i < length ds. rs ! i \<noteq> 0)))"

text \<open>
  \<open>eventfd(2)\<close>: the descriptor is readable exactly when the counter is above zero; a new
  descriptor is none the process already holds.
\<close>

definition poll_eventfd :: "kernel \<Rightarrow> bool" where
  "poll_eventfd k =
     (\<forall>h ds t rs i c. k_poll k h ds t = Inr rs \<longrightarrow> i < length ds \<longrightarrow> 0 \<le> ds ! i \<longrightarrow>
        efd_count (ds ! i) h = Some c \<longrightarrow>
        (if 0 < c then rs ! i AND POLLIN \<noteq> 0 else rs ! i = 0))"

definition fresh_fds :: "kernel \<Rightarrow> bool" where
  "fresh_fds k =
     ((\<forall>h d. k_eventfd k h = Inr d \<longrightarrow> 0 \<le> d \<and> d \<notin> open_fds h) \<and>
      (\<forall>h f t pr d. k_socket k h f t pr = Inr d \<longrightarrow> 0 \<le> d \<and> d \<notin> open_fds h) \<and>
      (\<forall>h l d. k_accept k h l = Inr d \<longrightarrow> 0 \<le> d \<and> d \<notin> open_fds h) \<and>
      (\<forall>h f t pr d e. k_socketpair k h f t pr = Inr (d, e) \<longrightarrow>
         0 \<le> d \<and> 0 \<le> e \<and> d \<noteq> e \<and> d \<notin> open_fds h \<and> e \<notin> open_fds h))"

text \<open>
  A write on an \<open>eventfd\<close> succeeds unless the counter would pass \<open>2 ^ 64 - 2\<close>; closing a
  descriptor the process holds succeeds.
\<close>

definition eventfd_writable :: "kernel \<Rightarrow> bool" where
  "eventfd_writable k =
     (\<forall>h d v c. efd_count d h = Some c \<longrightarrow> c + uint v < 2 ^ 64 - 1 \<longrightarrow>
        k_eventfd_write k h d v = Inr ())"

definition close_succeeds :: "kernel \<Rightarrow> bool" where
  "close_succeeds k = (\<forall>h d. d \<in> open_fds h \<longrightarrow> k_close k h d = Inr ())"

lemma read_boundedD: "read_bounded k \<Longrightarrow> k_read k h d n = Inr bs \<Longrightarrow> length bs \<le> n"
  by (simp add: read_bounded_def)

lemma write_boundedD: "write_bounded k \<Longrightarrow> k_write k h d bs = Inr n \<Longrightarrow> n \<le> length bs"
  by (simp add: write_bounded_def)

lemma poll_reportsD:
  assumes "poll_reports k" and "k_poll k h ds t = Inr rs"
  shows "length rs = length ds" and "i < length ds \<Longrightarrow> ds ! i < 0 \<Longrightarrow> rs ! i = 0"
    and "t < 0 \<Longrightarrow> \<exists>i < length ds. rs ! i \<noteq> 0"
  using assms by (auto simp: poll_reports_def)

lemma poll_eventfdD:
  assumes "poll_eventfd k" and "k_poll k h ds t = Inr rs" and "i < length ds" and "0 \<le> ds ! i"
    and "efd_count (ds ! i) h = Some c"
  shows "0 < c \<Longrightarrow> rs ! i AND POLLIN \<noteq> 0" and "c \<le> 0 \<Longrightarrow> rs ! i = 0"
  using assms unfolding poll_eventfd_def by (fastforce split: if_splits)+

lemma poll_eventfd_positive:
  assumes "poll_eventfd k" and "k_poll k h ds t = Inr rs" and "i < length ds" and "0 \<le> ds ! i"
    and "efd_count (ds ! i) h = Some c" and "0 < c"
  shows "rs ! i \<noteq> 0"
  using poll_eventfdD(1) [OF assms] by auto

lemma revents_simps [simp]:
  "revents [] i = 0" "revents (r # rs) 0 = r" "revents (r # rs) (Suc i) = revents rs i"
  by (simp_all add: revents_def)

lemma revents_nth: "i < length rs \<Longrightarrow> revents rs i = rs ! i"
  by (simp add: revents_def)

text \<open>Calls on sockets and sleeping leave every \<open>eventfd\<close> counter alone.\<close>

lemma efd_step_other [simp]:
  "efd_step d c (Ev_Poll ds t a) = c" "efd_step d c (Ev_Read e n b) = c"
  "efd_step d c (Ev_Write e bs w) = c" "efd_step d c (Ev_Sleep ms) = c"
  by simp_all

text \<open>A process after one more call.\<close>

abbreviation log_event :: "event \<Rightarrow> process \<Rightarrow> process" where
  "log_event ev p \<equiv> p\<lparr>history := history p @ [ev]\<rparr>"

abbreviation log_failure :: "event \<Rightarrow> errno \<Rightarrow> process \<Rightarrow> process" where
  "log_failure ev e p \<equiv> p\<lparr>history := history p @ [ev], errno := e\<rparr>"

end
