(* ===== verification/Reference_Kernel.thy ===== *)
theory Reference_Kernel
  imports Kernel
begin

text \<open>
  An executable kernel that satisfies all of the documented behaviour at once. It shows that the
  hypotheses of the properties can hold together, and the witnesses run the code on it.

  It is driven by a script: the bytes the peer sends on each descriptor and whether the peer
  then closes the connection, the most a single \<open>read\<close> or \<open>write\<close> moves, the connections that
  wait on a listener, the datagrams that wait on a datagram socket. Everything else follows
  from the history: a read continues where the last one stopped, an \<open>eventfd\<close> is readable when
  its counter is above zero, a new descriptor is above all earlier ones.
\<close>

record script =
  input :: "fd \<Rightarrow> char list"
  closing :: "fd \<Rightarrow> bool"
  chunk :: nat
  clients :: nat
  datagrams :: "char list list"

definition EINTR :: errno where "EINTR = 4"
definition EBADF :: errno where "EBADF = 9"
definition EAGAIN :: errno where "EAGAIN = 11"

fun event_fds :: "event \<Rightarrow> fd list" where
  "event_fds (Ev_Eventfd (Inr d)) = [d]"
| "event_fds (Ev_Socket _ _ _ (Inr d)) = [d]"
| "event_fds (Ev_Socketpair _ _ _ (Inr ds)) = [fst ds, snd ds]"
| "event_fds (Ev_Accept _ (Inr d)) = [d]"
| "event_fds _ = []"

definition fresh_fd :: "history \<Rightarrow> fd" where
  "fresh_fd h = 1 + foldl max 2 (concat (map event_fds h))"

definition accepted_count :: "history \<Rightarrow> nat" where
  "accepted_count h = length (filter (\<lambda>e. case e of Ev_Accept _ (Inr _) \<Rightarrow> True | _ \<Rightarrow> False) h)"

definition datagram_count :: "history \<Rightarrow> nat" where
  "datagram_count h = length (filter (\<lambda>e. case e of Ev_Recvmsg _ _ (Inr _) \<Rightarrow> True | _ \<Rightarrow> False) h)"

fun is_listening :: "fd \<Rightarrow> event \<Rightarrow> bool" where
  "is_listening d (Ev_Listen d' _ (Inr _)) = (d' = d)"
| "is_listening d _ = False"

definition socket_ready :: "script \<Rightarrow> history \<Rightarrow> fd \<Rightarrow> bool" where
  "socket_ready sc h d =
     (if list_ex (is_listening d) h then accepted_count h < clients sc
      else length (received d h) < length (input sc d) \<or> closing sc d \<or>
        datagram_count h < length (datagrams sc))"

definition entry_revents :: "script \<Rightarrow> history \<Rightarrow> fd \<Rightarrow> 16 word" where
  "entry_revents sc h d =
     (if d < 0 then 0
      else case efd_count d h of
        Some c \<Rightarrow> if 0 < c then 1 else 0
      | None \<Rightarrow> if socket_ready sc h d then 1 else 0)"

definition reference_poll :: "script \<Rightarrow> history \<Rightarrow> fd list \<Rightarrow> int \<Rightarrow> 16 word list answer" where
  "reference_poll sc h ds t =
     (let rs = map (entry_revents sc h) ds
      in if t < 0 \<and> list_all (\<lambda>r. r = 0) rs then Inl EINTR else Inr rs)"

definition reference_read :: "script \<Rightarrow> history \<Rightarrow> fd \<Rightarrow> nat \<Rightarrow> char list answer" where
  "reference_read sc h d n =
     (let rest = drop (length (received d h)) (input sc d)
      in if rest = [] \<and> \<not> closing sc d then Inl EAGAIN
         else Inr (take (min n (chunk sc)) rest))"

definition reference_efd_write :: "history \<Rightarrow> fd \<Rightarrow> 64 word \<Rightarrow> unit answer" where
  "reference_efd_write h d v =
     (case efd_count d h of
        None \<Rightarrow> Inl EBADF
      | Some c \<Rightarrow> if c + uint v < 2 ^ 64 - 1 then Inr () else Inl EAGAIN)"

definition reference_efd_read :: "history \<Rightarrow> fd \<Rightarrow> 64 word answer" where
  "reference_efd_read h d =
     (case efd_count d h of
        None \<Rightarrow> Inl EBADF
      | Some c \<Rightarrow> if 0 < c then Inr 1 else Inl EAGAIN)"

definition reference_recvmsg ::
    "script \<Rightarrow> history \<Rightarrow> fd \<Rightarrow> nat \<Rightarrow> (char list \<times> bool) answer" where
  "reference_recvmsg sc h d n =
     (case drop (datagram_count h) (datagrams sc) of
        [] \<Rightarrow> Inl EAGAIN
      | dg # _ \<Rightarrow> Inr (take n dg, n < length dg))"

definition reference_kernel :: "script \<Rightarrow> kernel" where
  "reference_kernel sc =
     \<lparr>k_eventfd = (\<lambda>h. Inr (fresh_fd h)),
      k_eventfd_write = reference_efd_write,
      k_eventfd_read = reference_efd_read,
      k_poll = reference_poll sc,
      k_read = reference_read sc,
      k_write = (\<lambda>h d bs. Inr (min (length bs) (chunk sc))),
      k_close = (\<lambda>h d. Inr ()),
      k_socket = (\<lambda>h f t pr. Inr (fresh_fd h)),
      k_socketpair = (\<lambda>h f t pr. Inr (fresh_fd h, fresh_fd h + 1)),
      k_setsockopt = (\<lambda>h d opt. Inr ()),
      k_bind = (\<lambda>h d a. Inr ()),
      k_listen = (\<lambda>h d n. Inr ()),
      k_accept = (\<lambda>h d. if accepted_count h < clients sc then Inr (fresh_fd h) else Inl EAGAIN),
      k_connect = (\<lambda>h d a. Inr ()),
      k_recvmsg = reference_recvmsg sc,
      k_sendto = (\<lambda>h d bs a. Inr (length bs))\<rparr>"

section \<open>It behaves as documented\<close>

lemma foldl_max_ge: "x \<in> set xs \<or> x = a \<Longrightarrow> x \<le> foldl max a (xs :: int list)"
proof -
  show "x \<in> set xs \<or> x = a \<Longrightarrow> x \<le> foldl max a xs"
  proof (induction xs rule: rev_induct)
    case Nil
    then show ?case by simp
  next
    case (snoc y ys)
    then show ?case by (auto simp: le_max_iff_disj)
  qed
qed

lemma open_fds_below: "d \<in> open_fds h \<Longrightarrow> d \<in> set (concat (map event_fds h))"
proof (induction h rule: rev_induct)
  case (snoc e h)
  then show ?case by (cases "(open_fds h, e)" rule: open_step.cases) auto
qed simp

lemma fresh_fd_new: "2 < fresh_fd h" "d \<in> open_fds h \<Longrightarrow> d < fresh_fd h"
  using foldl_max_ge [of _ "concat (map event_fds h)" 2] open_fds_below [of d h]
  by (force simp: fresh_fd_def)+

lemma reference_fresh [simp]: "fresh_fds (reference_kernel sc)"
proof -
  have "0 \<le> fresh_fd h \<and> fresh_fd h \<notin> open_fds h \<and> fresh_fd h + 1 \<notin> open_fds h" for h
    using fresh_fd_new(1) [of h] fresh_fd_new(2) [of "fresh_fd h" h]
      fresh_fd_new(2) [of "fresh_fd h + 1" h] by auto
  then show ?thesis
    by (auto simp: fresh_fds_def reference_kernel_def split: if_splits)
qed

lemma reference_read_bounded [simp]: "read_bounded (reference_kernel sc)"
  by (auto simp: read_bounded_def reference_kernel_def reference_read_def Let_def split: if_splits)

lemma reference_write_bounded [simp]: "write_bounded (reference_kernel sc)"
  by (auto simp: write_bounded_def reference_kernel_def)

lemma reference_poll_reports [simp]: "poll_reports (reference_kernel sc)"
  by (auto simp: poll_reports_def reference_kernel_def reference_poll_def Let_def
        entry_revents_def list_all_length split: if_splits)

lemma reference_poll_eventfd [simp]: "poll_eventfd (reference_kernel sc)"
  by (auto simp: poll_eventfd_def reference_kernel_def reference_poll_def Let_def
        entry_revents_def POLLIN_def split: if_splits)

lemma reference_eventfd_writable [simp]: "eventfd_writable (reference_kernel sc)"
  by (auto simp: eventfd_writable_def reference_kernel_def reference_efd_write_def)

lemma reference_close_succeeds [simp]: "close_succeeds (reference_kernel sc)"
  by (auto simp: close_succeeds_def reference_kernel_def)

section \<open>A C library\<close>

text \<open>
  For a little-endian machine: conversions between byte orders swap the bytes, and the address
  functions know the addresses of the witnesses. \<open>inet_addr\<close> returns \<open>INADDR_NONE\<close> for a text
  that is no address.
\<close>

definition swap16 :: "16 word \<Rightarrow> 16 word" where
  "swap16 x = word_of_int (uint x mod 256 * 256 + uint x div 256)"

definition swap32 :: "32 word \<Rightarrow> 32 word" where
  "swap32 x = (let i = uint x in word_of_int (i mod 256 * 16777216 + i div 256 mod 256 * 65536 +
     i div 65536 mod 256 * 256 + i div 16777216))"

definition reference_inet_addr :: "string \<Rightarrow> 32 word" where
  "reference_inet_addr s =
     (if s = ''224.0.0.0'' then 224
      else if s = ''240.0.0.0'' then 240
      else if s = ''224.0.0.7'' then 117440736
      else if s = ''10.0.0.1'' then 16777226
      else 4294967295)"

definition reference_libc :: libc where
  "reference_libc =
     \<lparr>inet_addr = reference_inet_addr, inet_pton6 = (\<lambda>s. if s = ''::1'' then Some 1 else None),
      inet_ntop4 = (\<lambda>a. if a = 16777226 then ''10.0.0.1'' else ''0.0.0.0''),
      inet_ntop6 = (\<lambda>a. if a = 1 then ''::1'' else ''::''),
      htons = swap16, htonl = swap32, ntohl = swap32, strerror = (\<lambda>e. ''error ''),
      SO_REUSEPORT_defined = True\<rparr>"

section \<open>A script for the witnesses\<close>

text \<open>The peer of descriptor 5 sends five bytes, in pieces of two.\<close>

definition demo_script :: script where
  "demo_script = \<lparr>input = (\<lambda>d. if d = 5 then ''hello'' else []), closing = (\<lambda>_. False),
     chunk = 2, clients = 0, datagrams = []\<rparr>"

definition demo_process :: process where
  "demo_process = \<lparr>history = [Ev_Eventfd (Inr 6)], errno = 0\<rparr>"

end
