(* ===== verification/Stream_Model.thy ===== *)
theory Stream_Model
  imports Reference_Kernel
begin

text \<open>
  \<open>class Stream\<close> (\<open>include/socket_wrapper/Stream.h\<close>, \<open>src/Stream.cpp\<close>): a connected socket
  together with the \<open>eventfd\<close> that aborts its reads. The object is the record \<open>Stream\<close> with
  the two descriptors; its mutexes only serialise the calls and have no value of their own.
  Each member function is a definition of the same name with the class as prefix.
\<close>

section \<open>The object\<close>

record Stream =
  stream_file_descriptor :: fd
  stop_all_operations_event_fd :: fd

definition kInvalidSocketFdMarker :: fd where
  "kInvalidSocketFdMarker = -1"

definition kSocketRetryIntervallMs :: int where
  "kSocketRetryIntervallMs = 50"

text \<open>\<open>std::numeric_limits<uint16_t>::max()\<close>, the value posted on the stop descriptor.\<close>

definition stop_semaphore_value :: "64 word" where
  "stop_semaphore_value = 65535"

section \<open>Construction, move and destruction\<close>

definition Stream_construct :: "kernel \<Rightarrow> fd \<Rightarrow> (process, error, Stream) action" where
  "Stream_construct k socket_fd p =
     (case sys_eventfd k p of
        (None, q) \<Rightarrow> (Inl (Runtime_Error ''Failed to create event_fd''), q)
      | (Some e, q) \<Rightarrow>
          (Inr \<lparr>stream_file_descriptor = socket_fd, stop_all_operations_event_fd = e\<rparr>, q))"

text \<open>The move constructor: the new object, and what is left of the source.\<close>

definition Stream_move :: "Stream \<Rightarrow> Stream \<times> Stream" where
  "Stream_move src =
     (\<lparr>stream_file_descriptor = stream_file_descriptor src,
       stop_all_operations_event_fd = stop_all_operations_event_fd src\<rparr>,
      src\<lparr>stream_file_descriptor := kInvalidSocketFdMarker\<rparr>)"

text \<open>Move assignment to another object: the target and the source afterwards.\<close>

definition Stream_assign :: "Stream \<Rightarrow> Stream \<Rightarrow> Stream \<times> Stream" where
  "Stream_assign target src =
     (target\<lparr>stream_file_descriptor := stream_file_descriptor src,
       stop_all_operations_event_fd := stop_all_operations_event_fd src\<rparr>,
      src\<lparr>stream_file_descriptor := kInvalidSocketFdMarker\<rparr>)"

definition Stream_stopReads :: "kernel \<Rightarrow> Stream \<Rightarrow> (process, error, unit) action" where
  "Stream_stopReads k s =
     ignore_result (sys_eventfd_write k (stop_all_operations_event_fd s) stop_semaphore_value)"

definition Stream_destroy :: "kernel \<Rightarrow> Stream \<Rightarrow> (process, error, unit) action" where
  "Stream_destroy k s p =
     (if stream_file_descriptor s < 0 then (Inr (), p)
      else bindA
        (ignore_result
          (sys_eventfd_write k (stop_all_operations_event_fd s) stop_semaphore_value))
        (\<lambda>_ q. case sys_close k (stream_file_descriptor s) q of
           (None, r) \<Rightarrow> (Inl Terminate, r)
         | (Some _, r) \<Rightarrow> (Inr (), r)) p)"

section \<open>Reading\<close>

text \<open>
  \<open>read(buffer, max, min, timeout)\<close>: the caller's \<open>char *\<close> is the block \<open>m\<close> with the
  offset \<open>off\<close> the pointer has in it; the state is that block and the process. One round of
  the loop polls both descriptors, the socket before the stop descriptor.
\<close>

function Stream_read_loop ::
    "kernel \<Rightarrow> Stream \<Rightarrow> nat \<Rightarrow> nat \<Rightarrow> nat \<Rightarrow> int \<Rightarrow> nat \<Rightarrow> (char list \<times> process, error, nat) action"
where
  "Stream_read_loop k s off max_bytes min_bytes timeout_ms read_bytes (m, p) =
     (if read_bytes < min_bytes then
        (case sys_poll k [stream_file_descriptor s, stop_all_operations_event_fd s] timeout_ms p of
           (None, q) \<Rightarrow> (Inl (socket_exception SOCKET_POLL (errno q) (-1)), (m, q))
         | (Some rs, q) \<Rightarrow>
             if revents rs 0 \<noteq> 0 then
               (case sys_read k (stream_file_descriptor s) (size_minus max_bytes read_bytes) q of
                  (None, r) \<Rightarrow> (Inl (socket_exception SOCKET_READ (errno r) (-1)), (m, r))
                | (Some bs, r) \<Rightarrow>
                    if bs = [] then (Inl (socket_exception SOCKET_CLOSED 0 (-1)), (m, r))
                    else Stream_read_loop k s off max_bytes min_bytes timeout_ms
                           (read_bytes + length bs) (block_write m (off + read_bytes) bs, r))
             else if revents rs 1 \<noteq> 0 then
               (Inl (socket_exception SOCKET_TERMINATION_REQUEST 0 (-1)), (m, q))
             else (Inl (socket_exception SOCKET_READ_TIMEOUT 0 (-1)), (m, q)))
      else (Inr read_bytes, (m, p)))"
  by pat_completeness auto
termination
  by (relation "measure (\<lambda>(k, s, off, max_bytes, min_bytes, t, read_bytes, mp).
        min_bytes - read_bytes)")
    (auto simp: neq_Nil_conv)

declare Stream_read_loop.simps [simp del]

definition Stream_read ::
    "kernel \<Rightarrow> Stream \<Rightarrow> nat \<Rightarrow> nat \<Rightarrow> nat \<Rightarrow> int \<Rightarrow> (char list \<times> process, error, nat) action"
where
  "Stream_read k s off max_bytes min_bytes timeout_ms =
     Stream_read_loop k s off max_bytes min_bytes timeout_ms 0"

section \<open>Writing\<close>

text \<open>
  \<open>write(buffer, size, attempts)\<close>: \<open>bs\<close> is the \<open>size\<close> bytes at \<open>buffer\<close>. \<open>attempts\<close> is
  an \<open>int\<close> counted down to 0 by \<open>while (attempts--)\<close>, so it is kept as its 32 bits. The
  first component of the result of the loop is \<open>total_written_bytes\<close>.
\<close>

function Stream_write_loop ::
    "kernel \<Rightarrow> Stream \<Rightarrow> char list \<Rightarrow> 32 word \<Rightarrow> nat \<Rightarrow> (process, error, nat) action"
where
  "Stream_write_loop k s bs attempts written p =
     (if attempts \<noteq> 0 then
        (case sys_write k (stream_file_descriptor s) (drop written bs) p of
           (None, q) \<Rightarrow> (Inl (socket_exception SOCKET_WRITE (errno q) (-1)), q)
         | (Some n, q) \<Rightarrow>
             if written + n = length bs then (Inr (written + n), q)
             else Stream_write_loop k s bs (attempts - 1) (written + n)
                    (sys_sleep kSocketRetryIntervallMs q))
      else (Inr written, p))"
  by pat_completeness auto
termination
  by (relation "measure (\<lambda>(k, s, bs, attempts, written, p). unat attempts)")
    (auto simp: unat_minus_one unat_gt_0)

declare Stream_write_loop.simps [simp del]

definition Stream_write ::
    "kernel \<Rightarrow> Stream \<Rightarrow> char list \<Rightarrow> 32 word \<Rightarrow> (process, error, unit) action"
where
  "Stream_write k s bs attempts =
     bindA (Stream_write_loop k s bs attempts 0)
       (\<lambda>written p. if written \<noteq> length bs
          then (Inl (socket_exception SOCKET_WRITE_PARTIAL (errno p) (int written)), p)
          else (Inr (), p))"


section \<open>Facts about reading\<close>

text \<open>The two descriptors a read polls.\<close>

abbreviation read_fds :: "Stream \<Rightarrow> fd list" where
  "read_fds s \<equiv> [stream_file_descriptor s, stop_all_operations_event_fd s]"

text \<open>One round of the loop, branch by branch.\<close>

lemma Stream_read_loop_cases:
  assumes "Stream_read_loop k s off max_bytes min_bytes t read_bytes (m, p) = (r, mp')"
  obtains
    (finished) "min_bytes \<le> read_bytes" "r = Inr read_bytes" "mp' = (m, p)"
  | (poll_failed) e where "read_bytes < min_bytes"
      "k_poll k (history p) (read_fds s) t = Inl e"
      "r = Inl (socket_exception SOCKET_POLL e (-1))"
      "mp' = (m, log_failure (Ev_Poll (read_fds s) t (Inl e)) e p)"
  | (stopped) rs where "read_bytes < min_bytes"
      "k_poll k (history p) (read_fds s) t = Inr rs" "revents rs 0 = 0" "revents rs 1 \<noteq> 0"
      "r = Inl (socket_exception SOCKET_TERMINATION_REQUEST 0 (-1))"
      "mp' = (m, log_event (Ev_Poll (read_fds s) t (Inr rs)) p)"
  | (timed_out) rs where "read_bytes < min_bytes"
      "k_poll k (history p) (read_fds s) t = Inr rs" "revents rs 0 = 0" "revents rs 1 = 0"
      "r = Inl (socket_exception SOCKET_READ_TIMEOUT 0 (-1))"
      "mp' = (m, log_event (Ev_Poll (read_fds s) t (Inr rs)) p)"
  | (read_failed) rs e where "read_bytes < min_bytes"
      "k_poll k (history p) (read_fds s) t = Inr rs" "revents rs 0 \<noteq> 0"
      "k_read k (history p @ [Ev_Poll (read_fds s) t (Inr rs)]) (stream_file_descriptor s)
        (size_minus max_bytes read_bytes) = Inl e"
      "r = Inl (socket_exception SOCKET_READ e (-1))"
      "mp' = (m, log_failure (Ev_Read (stream_file_descriptor s)
        (size_minus max_bytes read_bytes) (Inl e)) e
        (log_event (Ev_Poll (read_fds s) t (Inr rs)) p))"
  | (closed) rs where "read_bytes < min_bytes"
      "k_poll k (history p) (read_fds s) t = Inr rs" "revents rs 0 \<noteq> 0"
      "k_read k (history p @ [Ev_Poll (read_fds s) t (Inr rs)]) (stream_file_descriptor s)
        (size_minus max_bytes read_bytes) = Inr []"
      "r = Inl (socket_exception SOCKET_CLOSED 0 (-1))"
      "mp' = (m, log_event (Ev_Read (stream_file_descriptor s)
        (size_minus max_bytes read_bytes) (Inr []))
        (log_event (Ev_Poll (read_fds s) t (Inr rs)) p))"
  | (more) rs bs where "read_bytes < min_bytes"
      "k_poll k (history p) (read_fds s) t = Inr rs" "revents rs 0 \<noteq> 0" "bs \<noteq> []"
      "k_read k (history p @ [Ev_Poll (read_fds s) t (Inr rs)]) (stream_file_descriptor s)
        (size_minus max_bytes read_bytes) = Inr bs"
      "Stream_read_loop k s off max_bytes min_bytes t (read_bytes + length bs)
        (block_write m (off + read_bytes) bs,
         log_event (Ev_Read (stream_file_descriptor s) (size_minus max_bytes read_bytes) (Inr bs))
          (log_event (Ev_Poll (read_fds s) t (Inr rs)) p)) = (r, mp')"
proof (cases "read_bytes < min_bytes")
  case False
  with assms show ?thesis
    by (intro finished) (auto simp: Stream_read_loop.simps)
next
  case unfinished: True
  note unfolded = assms [unfolded Stream_read_loop.simps [of k s off max_bytes min_bytes t read_bytes]]
  show ?thesis
  proof (cases "k_poll k (history p) (read_fds s) t")
    case (Inl e)
    with unfolded unfinished show ?thesis
      by (intro poll_failed) (auto simp: sys_poll_def)
  next
    case (Inr rs)
    show ?thesis
    proof (cases "revents rs 0 = 0")
      case True
      with unfolded unfinished Inr show ?thesis
        by (cases "revents rs 1 = 0") (auto simp: sys_poll_def intro: stopped timed_out)
    next
      case False
      with unfolded unfinished Inr show ?thesis
        by (cases "k_read k (history p @ [Ev_Poll (read_fds s) t (Inr rs)])
              (stream_file_descriptor s) (size_minus max_bytes read_bytes)")
          (auto simp: sys_poll_def sys_read_def split: if_splits
            intro: read_failed [OF unfinished Inr False] closed [OF unfinished Inr False]
              more [OF unfinished Inr False])
    qed
  qed
qed

text \<open>
  The induction that goes with it: a fact about whole runs of the loop holds if it holds for
  the rounds that end it and passes from the rest of a run to the run.
\<close>

lemma Stream_read_loop_run [consumes 1, case_names last more]:
  assumes "Stream_read_loop k s off max_bytes min_bytes t read_bytes (m, p) = (r, mp')"
    and last: "\<And>read_bytes m p.
      Stream_read_loop k s off max_bytes min_bytes t read_bytes (m, p) = (r, mp') \<Longrightarrow>
      fst mp' = m \<Longrightarrow> received (stream_file_descriptor s) (history (snd mp')) =
        received (stream_file_descriptor s) (history p) \<Longrightarrow>
      (\<And>d. efd_count d (history (snd mp')) = efd_count d (history p)) \<Longrightarrow>
      (case r of Inr n \<Rightarrow> n = read_bytes \<and> min_bytes \<le> n | Inl e \<Rightarrow> read_bytes < min_bytes) \<Longrightarrow>
      (r = Inl (socket_exception SOCKET_READ_TIMEOUT 0 (-1)) \<Longrightarrow>
        \<exists>rs. k_poll k (history p) (read_fds s) t = Inr rs \<and> revents rs 0 = 0 \<and> revents rs 1 = 0) \<Longrightarrow>
      P read_bytes m p"
    and more: "\<And>read_bytes m p bs q.
      read_bytes < min_bytes \<Longrightarrow> bs \<noteq> [] \<Longrightarrow>
      (\<exists>h. k_read k h (stream_file_descriptor s) (size_minus max_bytes read_bytes) = Inr bs) \<Longrightarrow>
      received (stream_file_descriptor s) (history q) =
        received (stream_file_descriptor s) (history p) @ bs \<Longrightarrow>
      (\<And>d. efd_count d (history q) = efd_count d (history p)) \<Longrightarrow>
      P (read_bytes + length bs) (block_write m (off + read_bytes) bs) q \<Longrightarrow>
      P read_bytes m p"
  shows "P read_bytes m p"
  using assms(1)
proof (induction "min_bytes - read_bytes" arbitrary: read_bytes m p rule: less_induct)
  case less
  from less.prems show ?case
  proof (cases rule: Stream_read_loop_cases)
    case (more rs bs)
    have "min_bytes - (read_bytes + length bs) < min_bytes - read_bytes"
      using more(1,4) by (simp add: diff_less_mono2)
    from less.hyps [OF this more(6)] more(1,4,5) show ?thesis
      by (intro assms(3) [of read_bytes bs "log_event (Ev_Read (stream_file_descriptor s)
            (size_minus max_bytes read_bytes) (Inr bs))
            (log_event (Ev_Poll (read_fds s) t (Inr rs)) p)"]) auto
  qed ((rule last [OF less.prems]; auto simp: socket_exception_def)+)
qed

text \<open>The one fact about reading that the rest follows from: what arrived is what is in the block.\<close>

lemma Stream_read_loop_received:
  assumes "read_bounded k"
    and "Stream_read_loop k s off max_bytes min_bytes t read_bytes (m, p) = (r, (m', p'))"
    and "off + max_bytes \<le> length m" and "read_bytes \<le> max_bytes"
  shows "\<exists>new. received (stream_file_descriptor s) (history p') =
            received (stream_file_descriptor s) (history p) @ new \<and>
          m' = block_write m (off + read_bytes) new \<and> read_bytes + length new \<le> max_bytes \<and>
          (case r of Inr n \<Rightarrow> n = read_bytes + length new \<and> min_bytes \<le> n
             | Inl e \<Rightarrow> read_bytes + length new < min_bytes)"
  using assms(2-)
proof (induction rule: Stream_read_loop_run)
  case (last read_bytes m p)
  then show ?case
    by (intro exI [of _ "[]"]) (auto split: sum.splits)
next
  case (more read_bytes m p bs q)
  then have bound: "length bs \<le> max_bytes - read_bytes"
    using read_boundedD [OF assms(1)] by fastforce
  with more obtain new where
    "received (stream_file_descriptor s) (history p') =
       received (stream_file_descriptor s) (history p) @ bs @ new"
    "m' = block_write (block_write m (off + read_bytes) bs) (off + read_bytes + length bs) new"
    "read_bytes + length bs + length new \<le> max_bytes"
    "case r of Inr n \<Rightarrow> n = read_bytes + length bs + length new \<and> min_bytes \<le> n
       | Inl e \<Rightarrow> read_bytes + length bs + length new < min_bytes"
    by (fastforce simp: add.assoc)
  with more.prems block_write_append [of "off + read_bytes" bs new m] show ?case
    by (intro exI [of _ "bs @ new"]) (cases r; simp add: add.assoc)
qed

subsection \<open>Properties of reading\<close>

definition demo_stream :: Stream where
  "demo_stream = \<lparr>stream_file_descriptor = 5, stop_all_operations_event_fd = 6\<rparr>"

lemma read_block_facts:
  assumes "off + length new \<le> length m"
  shows "take off (block_write m off new) = take off m"
    and "take (length new) (drop off (block_write m off new)) = new"
    and "drop (off + length new) (block_write m off new) = drop (off + length new) m"
    and "length (block_write m off new) = length m"
  using assms by (simp_all add: block_write_def)

text \<open>
  C17: a \<open>Stream::read\<close> that returns \<open>n\<close> delivers between \<open>min\<close> and \<open>max\<close> bytes; they are
  exactly the bytes that arrived on the socket during the call, in order, stored from the
  caller's pointer on; no other byte of the caller's block changes.
\<close>

theorem Stream_read_delivers:
  assumes "read_bounded k" and "off + max_bytes \<le> length m"
    and "Stream_read k s off max_bytes min_bytes t (m, p) = (Inr n, (m', p'))"
  shows "\<exists>new. received (stream_file_descriptor s) (history p') =
            received (stream_file_descriptor s) (history p) @ new \<and>
          length new = n \<and> min_bytes \<le> n \<and> n \<le> max_bytes \<and>
          take n (drop off m') = new \<and> take off m' = take off m \<and>
          drop (off + n) m' = drop (off + n) m \<and> length m' = length m"
proof -
  obtain new where new: "received (stream_file_descriptor s) (history p') =
      received (stream_file_descriptor s) (history p) @ new"
      "m' = block_write m off new" "length new \<le> max_bytes" "n = length new" "min_bytes \<le> n"
    using Stream_read_loop_received [OF assms(1) assms(3) [unfolded Stream_read_def] assms(2)]
    by auto
  then show ?thesis
    using read_block_facts [of off new m] assms(2) by auto
qed

theorem Stream_read_delivers_witness:
  "\<exists>new. received 5 (history (snd (snd (Stream_read (reference_kernel demo_script) demo_stream
      1 6 3 100 (''........'', demo_process))))) = received 5 (history demo_process) @ new \<and>
     length new = 4 \<and> 3 \<le> (4::nat) \<and> (4::nat) \<le> 6 \<and>
     take 4 (drop 1 ''.hell...'') = new \<and> take 1 ''.hell...'' = take 1 ''........'' \<and>
     drop (1 + 4) ''.hell...'' = drop (1 + 4) ''........'' \<and>
     length ''.hell...'' = length ''........''"
proof -
  let ?r = "Stream_read (reference_kernel demo_script) demo_stream 1 6 3 100
    (''........'', demo_process)"
  have "fst ?r = Inr 4" and "fst (snd ?r) = ''.hell...''" by code_simp+
  then have "?r = (Inr 4, (''.hell...'', snd (snd ?r)))" by (simp add: prod_eq_iff)
  then show ?thesis
    using Stream_read_delivers [of "reference_kernel demo_script" 1 6 "''........''" demo_stream
        3 100 demo_process 4 "''.hell...''"]
    by (simp add: demo_stream_def)
qed

text \<open>
  A read of at least one byte that throws has taken nothing from the socket and has left
  the caller's block as it was, so no input is lost by the exception.
\<close>

theorem Stream_read_error_loses_nothing:
  assumes "read_bounded k" and "off + max_bytes \<le> length m"
    and "Stream_read k s off max_bytes 1 t (m, p) = (Inl e, (m', p'))"
  shows "received (stream_file_descriptor s) (history p') =
           received (stream_file_descriptor s) (history p) \<and> m' = m"
  using Stream_read_loop_received [OF assms(1) assms(3) [unfolded Stream_read_def] assms(2)]
  by auto

theorem Stream_read_error_loses_nothing_witness:
  "received 7 (history (snd (snd (Stream_read (reference_kernel demo_script)
       \<lparr>stream_file_descriptor = 7, stop_all_operations_event_fd = 6\<rparr> 0 4 1 100
       (''....'', demo_process))))) = received 7 (history demo_process) \<and> ''....'' = ''....''"
proof -
  let ?s = "\<lparr>stream_file_descriptor = 7, stop_all_operations_event_fd = 6\<rparr>"
  let ?r = "Stream_read (reference_kernel demo_script) ?s 0 4 1 100 (''....'', demo_process)"
  have "fst ?r = Inl (socket_exception SOCKET_READ_TIMEOUT 0 (-1))"
    and "fst (snd ?r) = ''....''" by code_simp+
  then have "?r = (Inl (socket_exception SOCKET_READ_TIMEOUT 0 (-1)), (''....'', snd (snd ?r)))"
    by (simp add: prod_eq_iff)
  then show ?thesis
    using Stream_read_error_loses_nothing [of "reference_kernel demo_script" 0 4 "''....''" ?s 100
        demo_process _ "''....''"] by simp
qed

text \<open>
  That guarantee is special to a minimum of one byte. With a larger minimum, the bytes that
  arrived before a timeout are taken from the socket and the exception does not report them:
  some conforming kernel delivers two bytes, then the read ends in \<open>SOCKET_READ_TIMEOUT\<close> with
  \<open>processed_bytes = -1\<close>.
\<close>

theorem Stream_read_timeout_drops_bytes:
  "\<exists>k s m p m' p' n. read_bounded k \<and> poll_reports k \<and> poll_eventfd k \<and>
     Stream_read k s 0 8 n 100 (m, p) =
       (Inl (socket_exception SOCKET_READ_TIMEOUT 0 (-1)), (m', p')) \<and>
     length m = 8 \<and> n \<le> 8 \<and>
     received (stream_file_descriptor s) (history p) = [] \<and>
     received (stream_file_descriptor s) (history p') = ''hello''"
proof -
  let ?r = "Stream_read (reference_kernel demo_script) demo_stream 0 8 6 100
    (''........'', demo_process)"
  have "fst ?r = Inl (socket_exception SOCKET_READ_TIMEOUT 0 (-1))"
    and "received 5 (history (snd (snd ?r))) = ''hello''" by code_simp+
  moreover have "received 5 (history demo_process) = []" by code_simp
  ultimately show ?thesis
    by (intro exI [of _ "reference_kernel demo_script"] exI [of _ demo_stream]
        exI [of _ "''........''"] exI [of _ demo_process] exI [of _ "fst (snd ?r)"]
        exI [of _ "snd (snd ?r)"] exI [of _ 6])
      (simp add: demo_stream_def prod_eq_iff)
qed

lemma Stream_read_zero_room:
  assumes "read_bounded k" and "0 < min_bytes"
    and "k_poll k (history p) (read_fds s) t = Inr rs" and "revents rs 0 \<noteq> 0"
    and "k_read k (history p @ [Ev_Poll (read_fds s) t (Inr rs)]) (stream_file_descriptor s) 0
           = Inr bs"
  shows "Stream_read k s off 0 min_bytes t (m, p) =
           (Inl (socket_exception SOCKET_CLOSED 0 (-1)),
            (m, log_event (Ev_Read (stream_file_descriptor s) 0 (Inr []))
              (log_event (Ev_Poll (read_fds s) t (Inr rs)) p)))"
proof -
  have "bs = []"
    using read_boundedD [OF assms(1) assms(5)] by simp
  with assms(2-) show ?thesis
    by (simp add: Stream_read_def Stream_read_loop.simps sys_poll_def sys_read_def)
qed

text \<open>
  Asked for at least one byte with no room left, \<open>Stream::read\<close> never returns; if the socket
  is readable and \<open>read(2)\<close> does not fail, it reports \<open>SOCKET_CLOSED\<close> although the peer has
  closed nothing.
\<close>

theorem Stream_read_no_room:
  assumes "read_bounded k" and "0 < min_bytes"
    and "k_poll k (history p) (read_fds s) t = Inr rs" and "revents rs 0 \<noteq> 0"
    and "k_read k (history p @ [Ev_Poll (read_fds s) t (Inr rs)]) (stream_file_descriptor s) 0
           = Inr bs"
  shows "fst (Stream_read k s off 0 min_bytes t (m, p)) =
           Inl (socket_exception SOCKET_CLOSED 0 (-1))"
  by (simp add: Stream_read_zero_room [OF assms])

theorem Stream_read_no_room_witness:
  "fst (Stream_read (reference_kernel demo_script) demo_stream 3 0 1 (-1) (''...'', demo_process)) =
     Inl (socket_exception SOCKET_CLOSED 0 (-1))"
proof -
  have "k_poll (reference_kernel demo_script) (history demo_process) (read_fds demo_stream) (-1)
      = Inr [1, 0]" by code_simp
  moreover have "k_read (reference_kernel demo_script)
      (history demo_process @ [Ev_Poll (read_fds demo_stream) (-1) (Inr [1, 0])])
      (stream_file_descriptor demo_stream) 0 = Inr []" by code_simp
  ultimately show ?thesis
    using Stream_read_no_room [of "reference_kernel demo_script" 1 demo_process demo_stream "-1"
        "[1, 0]"] by simp
qed

subsection \<open>Aborting reads\<close>

text \<open>
  The stop descriptor is an \<open>eventfd\<close> nobody reads, so once posted it stays readable: polling
  and reading the socket leave its counter alone.
\<close>

definition stop_requested :: "Stream \<Rightarrow> process \<Rightarrow> bool" where
  "stop_requested s p = (0 \<le> stop_all_operations_event_fd s \<and>
     (\<exists>c > 0. efd_count (stop_all_operations_event_fd s) (history p) = Some c))"

lemma stop_requested_log [simp]:
  "stop_requested s (log_event (Ev_Poll ds t a) p) = stop_requested s p"
  "stop_requested s (log_event (Ev_Read e n b) p) = stop_requested s p"
  "stop_requested s (log_failure (Ev_Read e n b) err p) = stop_requested s p"
  "stop_requested s (log_failure (Ev_Poll ds t a) err p) = stop_requested s p"
  by (simp_all add: stop_requested_def)

lemma stop_requested_ready:
  assumes "stop_requested s p" and "poll_eventfd k" and "poll_reports k"
    and "k_poll k (history p) (read_fds s) t = Inr rs"
  shows "revents rs 1 \<noteq> 0"
  using assms poll_eventfd_positive [OF assms(2,4), of 1] poll_reportsD(1) [OF assms(3,4)]
  by (auto simp: stop_requested_def revents_nth)

lemma stop_requested_Stream_read_loop:
  assumes "poll_eventfd k" and "poll_reports k"
    and "Stream_read_loop k s off max_bytes min_bytes t read_bytes (m, p) = (r, mp')"
    and "stop_requested s p"
  shows "r \<noteq> Inl (socket_exception SOCKET_READ_TIMEOUT 0 (-1)) \<and> stop_requested s (snd mp')"
  using assms(3,4)
proof (induction rule: Stream_read_loop_run)
  case (last read_bytes m p)
  then show ?case
    using stop_requested_ready [OF last.prems assms(1,2)] by (auto simp: stop_requested_def)
next
  case (more read_bytes m p bs q)
  then show ?case by (simp add: stop_requested_def)
qed

lemma stopReads_requests_stop:
  assumes "eventfd_writable k" and "0 \<le> stop_all_operations_event_fd s"
    and "efd_count (stop_all_operations_event_fd s) (history p) = Some c"
    and "0 \<le> c" and "c < 2 ^ 64 - 2 ^ 16"
    and "Stream_stopReads k s p = (r, q)"
  shows "r = Inr () \<and> stop_requested s q \<and>
    received (stream_file_descriptor s) (history q) =
      received (stream_file_descriptor s) (history p)"
proof -
  have "k_eventfd_write k (history p) (stop_all_operations_event_fd s) 65535 = Inr ()"
    using assms(1,3,5) by (auto simp: eventfd_writable_def)
  with assms show ?thesis
    by (auto simp: Stream_stopReads_def ignore_result_def sys_eventfd_write_def
        stop_semaphore_value_def stop_requested_def)
qed

text \<open>
  C26: after \<open>stopReads\<close> no read ends in a timeout any more, and the request stays in force for
  every later read. A read that finds the socket without data ends at once in
  \<open>SOCKET_TERMINATION_REQUEST\<close>, with the buffer unchanged and nothing taken from the socket. (A
  read that does find data goes on: the socket is looked at first.)
\<close>

theorem stopReads_aborts_reads:
  assumes "poll_reports k" and "poll_eventfd k" and "eventfd_writable k"
    and "0 \<le> stop_all_operations_event_fd s"
    and "efd_count (stop_all_operations_event_fd s) (history p) = Some c"
    and "0 \<le> c" and "c < 2 ^ 64 - 2 ^ 16"
    and "Stream_stopReads k s p = (x, q)"
    and "Stream_read k s off max_bytes min_bytes t (m, q) = (r, (m', q'))"
  shows "r \<noteq> Inl (socket_exception SOCKET_READ_TIMEOUT 0 (-1)) \<and> stop_requested s q' \<and>
    (\<forall>rs. 0 < min_bytes \<longrightarrow> k_poll k (history q) (read_fds s) t = Inr rs \<longrightarrow> revents rs 0 = 0 \<longrightarrow>
       r = Inl (socket_exception SOCKET_TERMINATION_REQUEST 0 (-1)) \<and> m' = m \<and>
       received (stream_file_descriptor s) (history q') =
         received (stream_file_descriptor s) (history p))"
proof -
  note stop = stopReads_requests_stop [OF assms(3-8)]
  note read = assms(9) [unfolded Stream_read_def]
  have "stop_requested s q" using stop by blast
  note later = stop_requested_Stream_read_loop [OF assms(2,1) read this]
  have quiet: "r = Inl (socket_exception SOCKET_TERMINATION_REQUEST 0 (-1)) \<and> m' = m \<and>
      received (stream_file_descriptor s) (history q') =
        received (stream_file_descriptor s) (history p)"
    if "0 < min_bytes" "k_poll k (history q) (read_fds s) t = Inr rs" "revents rs 0 = 0" for rs
    using read
  proof (cases rule: Stream_read_loop_cases)
    case (timed_out rs')
    with later show ?thesis by blast
  qed (use that stop in auto)
  with later show ?thesis by auto
qed

theorem stopReads_aborts_reads_witness:
  "fst (Stream_read (reference_kernel demo_script)
      \<lparr>stream_file_descriptor = 7, stop_all_operations_event_fd = 6\<rparr> 0 4 1 (-1)
      (''....'', snd (Stream_stopReads (reference_kernel demo_script)
        \<lparr>stream_file_descriptor = 7, stop_all_operations_event_fd = 6\<rparr> demo_process))) =
   Inl (socket_exception SOCKET_TERMINATION_REQUEST 0 (-1))"
proof -
  let ?k = "reference_kernel demo_script"
  let ?s = "\<lparr>stream_file_descriptor = 7, stop_all_operations_event_fd = 6\<rparr>"
  let ?q = "snd (Stream_stopReads ?k ?s demo_process)"
  let ?r = "Stream_read ?k ?s 0 4 1 (-1) (''....'', ?q)"
  have "efd_count 6 (history demo_process) = Some 0"
    and "k_poll ?k (history ?q) (read_fds ?s) (-1) = Inr [0, 1]" by code_simp+
  then show ?thesis
    using stopReads_aborts_reads [of ?k ?s demo_process 0 "fst (Stream_stopReads ?k ?s demo_process)"
        ?q 0 4 1 "-1" "''....''" "fst ?r" "fst (snd ?r)" "snd (snd ?r)"]
    by simp
qed

section \<open>Facts about writing\<close>

fun is_write :: "fd \<Rightarrow> event \<Rightarrow> bool" where
  "is_write d (Ev_Write d' _ _) = (d' = d)"
| "is_write d _ = False"

definition write_calls :: "fd \<Rightarrow> history \<Rightarrow> nat" where
  "write_calls d h = length (filter (is_write d) h)"

lemma write_calls_append [simp]: "write_calls d (h @ h') = write_calls d h + write_calls d h'"
  by (simp add: write_calls_def)

lemma write_calls_Cons [simp]:
  "write_calls d [] = 0"
  "write_calls d (e # h) = (if is_write d e then Suc (write_calls d h) else write_calls d h)"
  by (simp_all add: write_calls_def)

lemma Stream_write_loop_sent:
  assumes "write_bounded k" and "written \<le> length bs"
    and "Stream_write_loop k s bs attempts written p = (r, q)"
  shows "\<exists>n. written + n \<le> length bs \<and>
    sent (stream_file_descriptor s) (history q) =
      sent (stream_file_descriptor s) (history p) @ take n (drop written bs) \<and>
    write_calls (stream_file_descriptor s) (history q)
      \<le> write_calls (stream_file_descriptor s) (history p) + unat attempts \<and>
    (case r of Inr v \<Rightarrow> v = written + n | Inl e \<Rightarrow> \<exists>err. e = socket_exception SOCKET_WRITE err (-1))"
  using assms(2,3)
proof (induction "unat attempts" arbitrary: attempts written p rule: less_induct)
  case less
  note unfolded = less.prems(2) [unfolded Stream_write_loop.simps [of k s bs attempts written p]]
  show ?case
  proof (cases "attempts = 0")
    case True
    with unfolded less.prems show ?thesis by (intro exI [of _ 0]) auto
  next
    case trying: False
    show ?thesis
    proof (cases "k_write k (history p) (stream_file_descriptor s) (drop written bs)")
      case (Inl e)
      with unfolded less.prems trying show ?thesis
        by (intro exI [of _ 0]) (auto simp: sys_write_def unat_gt_0 Suc_le_eq)
    next
      case (Inr n)
      with write_boundedD [OF assms(1) Inr] less.prems have n: "written + n \<le> length bs" by simp
      have fewer: "unat (attempts - 1) < unat attempts" and step: "Suc (unat (attempts - 1)) = unat attempts"
        using trying by (simp_all add: unat_minus_one unat_gt_0)
      show ?thesis
      proof (cases "written + n = length bs")
        case True
        with unfolded Inr trying n show ?thesis
          by (intro exI [of _ n]) (auto simp: sys_write_def unat_gt_0 Suc_le_eq)
      next
        case False
        with unfolded Inr trying have "Stream_write_loop k s bs (attempts - 1) (written + n)
            (log_event (Ev_Sleep kSocketRetryIntervallMs)
              (log_event (Ev_Write (stream_file_descriptor s) (drop written bs) (Inr n)) p)) = (r, q)"
          by (simp add: sys_write_def sys_sleep_def)
        from less.hyps [OF fewer n this] n step show ?thesis
          by (elim exE, intro exI [of _ "n + x" for x])
            (auto simp: take_add add.commute add.left_commute split: sum.splits)
      qed
    qed
  qed
qed

text \<open>
  C18: \<open>Stream::write\<close> sends a prefix of the buffer, in order, with at most \<open>attempts\<close> calls of
  \<open>write(2)\<close>. It returns only when the whole buffer was sent; \<open>SOCKET_WRITE_PARTIAL\<close> carries the
  number of bytes that were sent, which is then less than the size; the only other exception is
  \<open>SOCKET_WRITE\<close>.
\<close>

theorem Stream_write_outcome:
  assumes "write_bounded k" and "Stream_write k s bs attempts p = (r, q)"
  shows "\<exists>n \<le> length bs.
    sent (stream_file_descriptor s) (history q) =
      sent (stream_file_descriptor s) (history p) @ take n bs \<and>
    write_calls (stream_file_descriptor s) (history q)
      \<le> write_calls (stream_file_descriptor s) (history p) + unat attempts \<and>
    (case r of Inr _ \<Rightarrow> n = length bs
     | Inl e \<Rightarrow> (\<exists>err. e = socket_exception SOCKET_WRITE err (-1)) \<or>
         (n < length bs \<and> (\<exists>err. e = socket_exception SOCKET_WRITE_PARTIAL err (int n))))"
proof -
  obtain v u where loop: "Stream_write_loop k s bs attempts 0 p = (v, u)" by fastforce
  obtain n where "n \<le> length bs"
    "sent (stream_file_descriptor s) (history u) =
       sent (stream_file_descriptor s) (history p) @ take n bs"
    "write_calls (stream_file_descriptor s) (history u)
       \<le> write_calls (stream_file_descriptor s) (history p) + unat attempts"
    "case v of Inr w \<Rightarrow> w = 0 + n | Inl e \<Rightarrow> \<exists>err. e = socket_exception SOCKET_WRITE err (-1)"
    using Stream_write_loop_sent [OF assms(1) _ loop] by auto
  with assms(2) loop show ?thesis
    by (intro exI [of _ n]) (auto simp: Stream_write_def bindA_def split: sum.splits if_splits)
qed

theorem Stream_write_outcome_witness:
  "\<exists>n \<le> length ''hello''.
    sent 5 (history (snd (Stream_write (reference_kernel demo_script) demo_stream ''hello'' 2
      demo_process))) = sent 5 (history demo_process) @ take n ''hello'' \<and>
    write_calls 5 (history (snd (Stream_write (reference_kernel demo_script) demo_stream ''hello'' 2
      demo_process))) \<le> write_calls 5 (history demo_process) + unat (2 :: 32 word) \<and>
    n < length ''hello'' \<and> (\<exists>err. socket_exception SOCKET_WRITE_PARTIAL 0 4 =
      socket_exception SOCKET_WRITE_PARTIAL err (int n))"
proof -
  let ?r = "Stream_write (reference_kernel demo_script) demo_stream ''hello'' 2 demo_process"
  have "fst ?r = Inl (socket_exception SOCKET_WRITE_PARTIAL 0 4)" by code_simp
  then have "?r = (Inl (socket_exception SOCKET_WRITE_PARTIAL 0 4), snd ?r)"
    by (simp add: prod_eq_iff)
  from Stream_write_outcome [OF reference_write_bounded this] show ?thesis
    by (auto simp: demo_stream_def socket_exception_def)
qed

text \<open>
  \<open>SOCKET_WRITE\<close> hides progress. When an attempt after the first one fails, part of the
  buffer is already sent, but the exception says \<open>processed_bytes = -1\<close>.
\<close>

theorem Stream_write_error_hides_progress:
  "\<exists>k s p q. write_bounded k \<and>
     Stream_write k s ''hello'' 2 p = (Inl (socket_exception SOCKET_WRITE EAGAIN (-1)), q) \<and>
     sent (stream_file_descriptor s) (history p) = [] \<and>
     sent (stream_file_descriptor s) (history q) = ''he''"
proof -
  let ?k = "(reference_kernel demo_script)
    \<lparr>k_write := (\<lambda>h d bs. if sent d h = [] then Inr (min 2 (length bs)) else Inl EAGAIN)\<rparr>"
  let ?r = "Stream_write ?k demo_stream ''hello'' 2 demo_process"
  have "fst ?r = Inl (socket_exception SOCKET_WRITE EAGAIN (-1))"
    and "sent 5 (history demo_process) = []" and "sent 5 (history (snd ?r)) = ''he''" by code_simp+
  moreover have "write_bounded ?k" by (simp add: write_bounded_def)
  ultimately show ?thesis
    by (intro exI [of _ ?k] exI [of _ demo_stream] exI [of _ demo_process] exI [of _ "snd ?r"])
      (simp add: demo_stream_def prod_eq_iff)
qed

section \<open>Life of a stream\<close>

fun is_close :: "fd \<Rightarrow> event \<Rightarrow> bool" where
  "is_close d (Ev_Close d' _) = (d' = d)"
| "is_close d _ = False"

definition close_calls :: "fd \<Rightarrow> history \<Rightarrow> nat" where
  "close_calls d h = length (filter (is_close d) h)"

lemma close_calls_append [simp]: "close_calls d (h @ h') = close_calls d h + close_calls d h'"
  by (simp add: close_calls_def)

lemma close_calls_Cons [simp]:
  "close_calls d [] = 0"
  "close_calls d (e # h) = (if is_close d e then Suc (close_calls d h) else close_calls d h)"
  by (simp_all add: close_calls_def)

text \<open>
  The destructor closes the socket but never the stop descriptor. A stream that is
  constructed on an open socket and destroyed leaves the process with one more open descriptor
  than before it took over the socket.
\<close>

theorem Stream_lifetime_leaks_eventfd:
  assumes "fresh_fds k" and "close_succeeds k" and "0 \<le> d" and "d \<in> open_fds (history p)"
    and "Stream_construct k d p = (Inr s, q)" and "Stream_destroy k s q = (r, p')"
  shows "r = Inr () \<and> d \<notin> open_fds (history p') \<and>
    stop_all_operations_event_fd s \<notin> open_fds (history p) \<and>
    stop_all_operations_event_fd s \<in> open_fds (history p')"
proof -
  obtain e where e: "k_eventfd k (history p) = Inr e" "s = \<lparr>stream_file_descriptor = d,
      stop_all_operations_event_fd = e\<rparr>" "q = log_event (Ev_Eventfd (Inr e)) p"
    using assms(5) by (auto simp: Stream_construct_def sys_eventfd_def split: sum.splits prod.splits
        option.splits elim: syscall_cases)
  have fresh: "e \<notin> open_fds (history p)" "e \<noteq> d"
    using assms(1,4) e(1) by (auto simp: fresh_fds_def)
  define w where "w = k_eventfd_write k (history q) e stop_semaphore_value"
  have "k_close k (history q @ [Ev_Eventfd_Write e stop_semaphore_value w]) d = Inr ()"
    using assms(2,4) e(3) by (simp add: close_succeeds_def)
  then show ?thesis
    using assms(3,6) e fresh
    by (cases w) (auto simp: Stream_destroy_def ignore_result_def sys_eventfd_write_def sys_close_def
        w_def bindA_def)
qed

theorem Stream_lifetime_leaks_eventfd_witness:
  "6 \<notin> open_fds [Ev_Socket AF_INET SOCK_STREAM 6 (Inr 5)] \<and>
   6 \<in> open_fds (history (snd (Stream_destroy (reference_kernel demo_script) demo_stream
     (snd (Stream_construct (reference_kernel demo_script) 5
       \<lparr>history = [Ev_Socket AF_INET SOCK_STREAM 6 (Inr 5)], errno = 0\<rparr>)))))"
proof -
  let ?k = "reference_kernel demo_script"
  let ?p = "\<lparr>history = [Ev_Socket AF_INET SOCK_STREAM 6 (Inr 5)], errno = 0\<rparr>"
  let ?q = "snd (Stream_construct ?k 5 ?p)"
  let ?r = "Stream_destroy ?k demo_stream ?q"
  have "fst (Stream_construct ?k 5 ?p) = Inr demo_stream" by code_simp
  then have "Stream_construct ?k 5 ?p = (Inr demo_stream, ?q)" by (simp add: prod_eq_iff)
  from Stream_lifetime_leaks_eventfd [OF _ _ _ _ this, of "fst ?r" "snd ?r"] show ?thesis
    by (simp add: demo_stream_def)
qed

text \<open>
  Moving a stream does not duplicate its socket. Destroying the moved-from object makes no
  system call, and destroying both objects closes the socket exactly once.
\<close>

theorem Stream_move_closes_once:
  assumes "0 \<le> stream_file_descriptor src" and "Stream_move src = (dst, rest)"
    and "Stream_destroy k rest p = (r1, q)" and "Stream_destroy k dst q = (r2, u)"
  shows "r1 = Inr () \<and> q = p \<and>
    close_calls (stream_file_descriptor src) (history u) =
      Suc (close_calls (stream_file_descriptor src) (history p))"
proof -
  have "r1 = Inr ()" and "q = p" and "stream_file_descriptor dst = stream_file_descriptor src"
    using assms(2,3) by (auto simp: Stream_move_def Stream_destroy_def kInvalidSocketFdMarker_def)
  with assms(1,4) show ?thesis
    by (auto simp: Stream_destroy_def bindA_def ignore_result_def sys_eventfd_write_def
        sys_close_def syscall_def split: sum.splits prod.splits option.splits if_splits)
qed

theorem Stream_move_closes_once_witness:
  "close_calls 5 (history (snd (Stream_destroy (reference_kernel demo_script)
      (fst (Stream_move demo_stream)) demo_process))) = Suc (close_calls 5 (history demo_process))"
proof -
  let ?k = "reference_kernel demo_script"
  let ?dst = "fst (Stream_move demo_stream)" and ?rest = "snd (Stream_move demo_stream)"
  have "Stream_destroy ?k ?rest demo_process = (Inr (), demo_process)" by code_simp
  from Stream_move_closes_once [OF _ _ this, of demo_stream ?dst
      "fst (Stream_destroy ?k ?dst demo_process)" "snd (Stream_destroy ?k ?dst demo_process)"]
  show ?thesis by (simp add: demo_stream_def)
qed

text \<open>
  Move assignment overwrites the target's descriptor without closing it: after both objects
  are gone, the socket the target owned before is still open.
\<close>

theorem Stream_assign_leaks_target:
  assumes "stream_file_descriptor dst \<in> open_fds (history p)"
    and "stream_file_descriptor dst \<noteq> stream_file_descriptor src"
    and "Stream_assign dst src = (dst', src')"
    and "Stream_destroy k src' p = (r1, q)" and "Stream_destroy k dst' q = (r2, u)"
  shows "stream_file_descriptor dst \<in> open_fds (history u)"
proof -
  have "q = p" and "stream_file_descriptor dst' = stream_file_descriptor src"
    using assms(3,4) by (auto simp: Stream_assign_def Stream_destroy_def kInvalidSocketFdMarker_def)
  with assms show ?thesis
    by (auto simp: Stream_destroy_def bindA_def ignore_result_def sys_eventfd_write_def
        sys_close_def syscall_def split: sum.splits prod.splits option.splits if_splits)
qed

theorem Stream_assign_leaks_target_witness:
  "3 \<in> open_fds (history (snd (Stream_destroy (reference_kernel demo_script)
     (fst (Stream_assign \<lparr>stream_file_descriptor = 3, stop_all_operations_event_fd = 4\<rparr> demo_stream))
     \<lparr>history = [Ev_Socket AF_INET SOCK_STREAM 6 (Inr 3)], errno = 0\<rparr>)))"
proof -
  let ?k = "reference_kernel demo_script"
  let ?p = "\<lparr>history = [Ev_Socket AF_INET SOCK_STREAM 6 (Inr 3)], errno = 0\<rparr>"
  let ?dst = "\<lparr>stream_file_descriptor = 3, stop_all_operations_event_fd = 4\<rparr>"
  let ?d = "fst (Stream_assign ?dst demo_stream)" and ?s = "snd (Stream_assign ?dst demo_stream)"
  have "Stream_destroy ?k ?s ?p = (Inr (), ?p)" by code_simp
  from Stream_assign_leaks_target [OF _ _ _ this, of ?dst demo_stream ?d
      "fst (Stream_destroy ?k ?d ?p)" "snd (Stream_destroy ?k ?d ?p)"]
  show ?thesis by (simp add: demo_stream_def)
qed

end
