(* ===== verification/Buffered_Stream.thy ===== *)
theory Buffered_Stream
  imports Byte_Fifo Stream_Model
begin

text \<open>
  \<open>class BufferedStream\<close> (\<open>include/socket_wrapper/BufferedStream.h\<close>,
  \<open>src/BufferedStream.cpp\<close>): a stream with a buffer of fixed size. The record has the class's
  fields; \<open>stream_buffer\<close> is the block \<open>calloc\<close> returned, or \<open>None\<close> for the marker
  \<open>(char *)-1\<close> of a moved-from object. Member functions are actions on the
  object and the process; \<open>buffer_lock\<close>, and what it does not cover, is the subject of
  \<open>Buffered_Concurrency\<close>.
\<close>

section \<open>The object\<close>

record BufferedStream =
  bs_stream :: Stream
  stream_buffer_size :: nat
  stream_buffer :: "char list option"
  buffer_write_offset :: nat

type_synonym bs_state = "BufferedStream \<times> process"

definition BufferedStream_construct :: "Stream \<Rightarrow> nat \<Rightarrow> BufferedStream \<times> Stream" where
  "BufferedStream_construct src_stream buffer_size =
     (let (s, rest) = Stream_move src_stream
      in (\<lparr>bs_stream = s, stream_buffer_size = buffer_size,
           stream_buffer = Some (replicate buffer_size (CHR 0x00)), buffer_write_offset = 0\<rparr>, rest))"

text \<open>The move constructor: the new object and the source afterwards.\<close>

definition BufferedStream_move :: "BufferedStream \<Rightarrow> BufferedStream \<times> BufferedStream" where
  "BufferedStream_move src =
     (let (s, rest) = Stream_move (bs_stream src)
      in (\<lparr>bs_stream = s, stream_buffer_size = stream_buffer_size src,
           stream_buffer = stream_buffer src, buffer_write_offset = buffer_write_offset src\<rparr>,
          src\<lparr>bs_stream := rest, stream_buffer := None\<rparr>))"

text \<open>The destructor frees the block, then destroys the stream member.\<close>

definition BufferedStream_destroy :: "kernel \<Rightarrow> BufferedStream \<Rightarrow> (process, error, unit) action" where
  "BufferedStream_destroy k b p =
     Stream_destroy k (bs_stream b)
       (case stream_buffer b of None \<Rightarrow> p | Some _ \<Rightarrow> sys_free p)"

section \<open>Filling and emptying the buffer\<close>

text \<open>
  The bytes in the buffer are its first \<open>buffer_write_offset\<close> bytes. Using the block of a
  moved-from object is undefined behaviour.
\<close>

definition readAvailableDataIntoBuffer :: "kernel \<Rightarrow> int \<Rightarrow> (bs_state, error, nat) action" where
  "readAvailableDataIntoBuffer k timeout_ms bp =
     (let b = fst bp; off = buffer_write_offset b in
      case stream_buffer b of
        None \<Rightarrow> (Inl Undefined_Behaviour, bp)
      | Some m \<Rightarrow>
          (case Stream_read k (bs_stream b) off (size_minus (stream_buffer_size b) off) 1 timeout_ms
                  (m, snd bp) of
             (Inl e, (m', p')) \<Rightarrow> (Inl e, (b\<lparr>stream_buffer := Some m'\<rparr>, p'))
           | (Inr n, (m', p')) \<Rightarrow>
               (Inr n, (b\<lparr>stream_buffer := Some m', buffer_write_offset := off + n\<rparr>, p'))))"

definition pop_error_text :: "nat \<Rightarrow> nat \<Rightarrow> string" where
  "pop_error_text want have_bytes =
     ''the buffer does not contain enough data yet, should read '' @ to_string want @
     '' can read '' @ to_string have_bytes"

definition PopFromBuffer :: "nat \<Rightarrow> (bs_state, error, char list) action" where
  "PopFromBuffer bytes_to_read bp =
     (let b = fst bp in
      if buffer_write_offset b < bytes_to_read then
        (Inl (Out_Of_Range (pop_error_text bytes_to_read (buffer_write_offset b))), bp)
      else case stream_buffer b of
        None \<Rightarrow> (Inl Undefined_Behaviour, bp)
      | Some m \<Rightarrow>
          (let result = take bytes_to_read m;
               off' = size_minus (buffer_write_offset b) (length result)
           in (Inr result,
               (b\<lparr>buffer_write_offset := off',
                  stream_buffer := Some (block_move_down m bytes_to_read off')\<rparr>, snd bp))))"

text \<open>A refill that returns has added at least one byte; this is why the loops below end.\<close>

lemma Stream_read_loop_min:
  assumes "Stream_read_loop k s off max_bytes min_bytes t read_bytes (m, p) = (r, mp')"
  shows "r = Inr n \<Longrightarrow> min_bytes \<le> n"
  using assms
proof (induction rule: Stream_read_loop_run)
  case (last read_bytes m p)
  then show ?case by simp
qed simp

lemma readAvailable_progress:
  assumes "readAvailableDataIntoBuffer k t (b, p) = (Inr n, (b', p'))"
  shows "buffer_write_offset b' = buffer_write_offset b + n \<and> 0 < n \<and>
    stream_buffer_size b' = stream_buffer_size b \<and> bs_stream b' = bs_stream b"
  using assms Stream_read_loop_min
  by (fastforce simp: readAvailableDataIntoBuffer_def Stream_read_def Let_def
      split: option.splits prod.splits sum.splits)

section \<open>The reading functions\<close>

text \<open>
  \<open>readUntilDelimiter\<close>: each round reads first and then looks for the delimiter.
\<close>

function readUntilDelimiter :: "kernel \<Rightarrow> char \<Rightarrow> (bs_state, error, char list) action" where
  "readUntilDelimiter k delimiter (b, p) =
     (if buffer_write_offset b < stream_buffer_size b then
        (case readAvailableDataIntoBuffer k (-1) (b, p) of
           (Inl e, bp') \<Rightarrow> (Inl e, bp')
         | (Inr n, (b', p')) \<Rightarrow>
             (let m = the (stream_buffer b'); off = buffer_write_offset b';
                  pos = find_index delimiter (take off m)
              in if pos \<noteq> off then
                   (let result = take pos m; off' = size_minus off (length result + 1)
                    in (Inr result,
                        (b'\<lparr>buffer_write_offset := off',
                           stream_buffer := Some (block_move_down m (pos + 1) off')\<rparr>, p')))
                 else readUntilDelimiter k delimiter (b', p')))
      else (Inl (Logic_Error ''could not find delimiter, even though the buffer is full''), (b, p)))"
  by pat_completeness auto
termination
proof (relation "measure (\<lambda>(k, d, b, p). stream_buffer_size b - buffer_write_offset b)", goal_cases)
  case (2 k delimiter b p x y n b' p' m off pos)
  then have "readAvailableDataIntoBuffer k (-1) (b, p) = (Inr n, (b', p'))" by simp
  from readAvailable_progress [OF this] 2(1) show ?case by (simp add: diff_less_mono2)
qed simp

declare readUntilDelimiter.simps [simp del]

text \<open>The loop \<open>while (buffer_write_offset < want) readAvailableDataIntoBuffer(timeout)\<close>.\<close>

function fill_to :: "kernel \<Rightarrow> nat \<Rightarrow> int \<Rightarrow> (bs_state, error, unit) action" where
  "fill_to k want timeout_ms (b, p) =
     (if buffer_write_offset b < want then
        (case readAvailableDataIntoBuffer k timeout_ms (b, p) of
           (Inl e, bp') \<Rightarrow> (Inl e, bp')
         | (Inr n, (b', p')) \<Rightarrow> fill_to k want timeout_ms (b', p'))
      else (Inr (), (b, p)))"
  by pat_completeness auto
termination
proof (relation "measure (\<lambda>(k, want, t, b, p). want - buffer_write_offset b)", goal_cases)
  case (2 k want t b p x y n b' p')
  then have "readAvailableDataIntoBuffer k t (b, p) = (Inr n, (b', p'))" by simp
  from readAvailable_progress [OF this] 2(1) show ?case by (simp add: diff_less_mono2)
qed simp

declare fill_to.simps [simp del]

text \<open>\<open>read(bytes_to_read, timeout)\<close>.\<close>

definition BufferedStream_read :: "kernel \<Rightarrow> nat \<Rightarrow> int \<Rightarrow> (bs_state, error, char list) action" where
  "BufferedStream_read k bytes_to_read timeout_ms bp =
     (if stream_buffer_size (fst bp) < bytes_to_read
      then (Inl (Logic_Error ''buffer is to small for the requested read''), bp)
      else bindA (fill_to k bytes_to_read timeout_ms) (\<lambda>_. PopFromBuffer bytes_to_read) bp)"

text \<open>
  \<open>read(buffer, max, min, timeout)\<close>: the caller's pointer is offset \<open>off\<close> of the block
  \<open>dest\<close>; the result is the number of bytes and that block afterwards.
\<close>

definition BufferedStream_read_into ::
    "kernel \<Rightarrow> char list \<Rightarrow> nat \<Rightarrow> nat \<Rightarrow> nat \<Rightarrow> int \<Rightarrow> (bs_state, error, nat \<times> char list) action"
where
  "BufferedStream_read_into k dest off max_bytes min_bytes timeout_ms =
     bindA (readAvailableDataIntoBuffer k timeout_ms)
       (\<lambda>_. bindA (fill_to k min_bytes timeout_ms)
         (\<lambda>_ bp. let read_data_length = min (buffer_write_offset (fst bp)) max_bytes in
            bindA (PopFromBuffer read_data_length)
              (\<lambda>data. ret (read_data_length, block_write dest off data)) bp))"

section \<open>Writing and stopping\<close>

definition BufferedStream_write :: "kernel \<Rightarrow> char list \<Rightarrow> (bs_state, error, unit) action" where
  "BufferedStream_write k bs bp =
     (let (r, p') = Stream_write k (bs_stream (fst bp)) bs 2 (snd bp) in (r, (fst bp, p')))"

definition BufferedStream_stopReads :: "kernel \<Rightarrow> (bs_state, error, unit) action" where
  "BufferedStream_stopReads k bp =
     (let (r, p') = Stream_stopReads k (bs_stream (fst bp)) (snd bp) in (r, (fst bp, p')))"

section \<open>Invariant and contents\<close>

definition bs_wf :: "BufferedStream \<Rightarrow> bool" where
  "bs_wf b = (case stream_buffer b of None \<Rightarrow> False
     | Some m \<Rightarrow> length m = stream_buffer_size b \<and> buffer_write_offset b \<le> stream_buffer_size b)"

definition bs_contents :: "BufferedStream \<Rightarrow> char list" where
  "bs_contents b = (case stream_buffer b of None \<Rightarrow> [] | Some m \<Rightarrow> take (buffer_write_offset b) m)"

abbreviation bs_fd :: "BufferedStream \<Rightarrow> fd" where
  "bs_fd b \<equiv> stream_file_descriptor (bs_stream b)"

lemma length_bs_contents [simp]: "bs_wf b \<Longrightarrow> length (bs_contents b) = buffer_write_offset b"
  by (auto simp: bs_wf_def bs_contents_def split: option.splits)

lemma bs_wfE:
  assumes "bs_wf b"
  obtains m where "stream_buffer b = Some m" "length m = stream_buffer_size b"
    "buffer_write_offset b \<le> stream_buffer_size b" "bs_contents b = take (buffer_write_offset b) m"
  using assms by (auto simp: bs_wf_def bs_contents_def split: option.splits)

lemma readAvailable_spec:
  assumes "read_bounded k" and "bs_wf b"
    and "readAvailableDataIntoBuffer k t (b, p) = (r, (b', p'))"
  shows "bs_wf b' \<and> bs_stream b' = bs_stream b \<and> stream_buffer_size b' = stream_buffer_size b \<and>
    (\<exists>new. received (bs_fd b) (history p') = received (bs_fd b) (history p) @ new \<and>
       bs_contents b' = bs_contents b @ new \<and>
       (case r of Inr n \<Rightarrow> length new = n \<and> 0 < n | Inl e \<Rightarrow> new = []))"
proof -
  obtain m where m: "stream_buffer b = Some m" "length m = stream_buffer_size b"
      "buffer_write_offset b \<le> stream_buffer_size b" "bs_contents b = take (buffer_write_offset b) m"
    using assms(2) by (rule bs_wfE)
  let ?off = "buffer_write_offset b"
  obtain v m' u where read: "Stream_read_loop k (bs_stream b) ?off (stream_buffer_size b - ?off) 1 t 0
      (m, p) = (v, (m', u))" by (metis prod_cases3)
  obtain new where new: "received (bs_fd b) (history u) = received (bs_fd b) (history p) @ new"
      "m' = block_write m ?off new" "length new \<le> stream_buffer_size b - ?off"
      "case v of Inr n \<Rightarrow> n = 0 + length new \<and> 1 \<le> n | Inl e \<Rightarrow> 0 + length new < 1"
    using Stream_read_loop_received [OF assms(1) read] m by auto
  have "take (?off + length new) m' = take ?off m @ new" and "length m' = length m"
    using new(2,3) m(2,3) by (auto simp: memory_simps)
  with assms(3) m read new show ?thesis
    by (cases v) (auto simp: readAvailableDataIntoBuffer_def Stream_read_def bs_wf_def
        bs_contents_def Let_def)
qed

lemma PopFromBuffer_spec:
  assumes "bs_wf b"
  shows "PopFromBuffer n (b, p) =
    (if n \<le> buffer_write_offset b then
       (Inr (take n (bs_contents b)),
        (b\<lparr>buffer_write_offset := buffer_write_offset b - n,
           stream_buffer := Some (block_move_down (the (stream_buffer b)) n
             (buffer_write_offset b - n))\<rparr>, p))
     else (Inl (Out_Of_Range (pop_error_text n (buffer_write_offset b))), (b, p)))"
  using assms
  by (auto elim!: bs_wfE simp: PopFromBuffer_def Let_def min_def)

lemma popped_spec:
  assumes "bs_wf b" and "n \<le> buffer_write_offset b"
    and "b' = b\<lparr>buffer_write_offset := buffer_write_offset b - n,
      stream_buffer := Some (block_move_down (the (stream_buffer b)) n (buffer_write_offset b - n))\<rparr>"
  shows "bs_wf b'" and "bs_contents b' = drop n (bs_contents b)"
proof -
  obtain m where "stream_buffer b = Some m" "length m = stream_buffer_size b"
      "buffer_write_offset b \<le> stream_buffer_size b" "bs_contents b = take (buffer_write_offset b) m"
    using assms(1) by (rule bs_wfE)
  with assms(2,3) show "bs_wf b'" and "bs_contents b' = drop n (bs_contents b)"
    by (simp_all add: bs_wf_def bs_contents_def memory_simps drop_take)
qed

interpretation bs: byte_fifo_source
  "\<lambda>s. read_bounded k \<and> bs_wf (fst s)" "\<lambda>s. bs_contents (fst s)" PopFromBuffer
  "\<lambda>s. received (bs_fd (fst s)) (history (snd s))" "readAvailableDataIntoBuffer k"
  for k
proof (unfold_locales, goal_cases)
  case (1 s n)
  then show ?case by (cases s) (simp add: PopFromBuffer_spec)
next
  case (2 s n)
  then show ?case by (cases s) (simp add: PopFromBuffer_spec popped_spec(2) [OF _ _ refl])
next
  case (3 s n)
  then show ?case by (cases s) (auto simp: PopFromBuffer_spec popped_spec(1) [OF _ _ refl])
next
  case (4 s n)
  then show ?case by (cases s) (simp add: PopFromBuffer_spec)
next
  case (5 s n)
  then show ?case by (cases s) (simp add: PopFromBuffer_spec)
next
  case (6 s t n u)
  then show ?case
    using readAvailable_spec [of k "fst s" t "snd s" "Inr n" "fst u" "snd u"] by auto
next
  case (7 s t e u)
  then show ?case
    using readAvailable_spec [of k "fst s" t "snd s" "Inl e" "fst u" "snd u"] by auto
qed

text \<open>
  The ledger of a buffered stream: well formed, and everything the socket delivered is what was
  taken out so far (\<open>out\<close>) followed by the contents of the buffer.
\<close>

definition bs_ledger :: "char list \<Rightarrow> BufferedStream \<times> process \<Rightarrow> bool" where
  "bs_ledger out bp = (bs_wf (fst bp) \<and>
     received (bs_fd (fst bp)) (history (snd bp)) = out @ bs_contents (fst bp))"

lemma bs_ledger_iff: "read_bounded k \<Longrightarrow> bs_ledger out bp = bs.ledger k out bp"
  unfolding bs_ledger_def bs.ledger_def by auto

lemma bs_ledger_refill:
  "read_bounded k \<Longrightarrow> bs_ledger out bp \<Longrightarrow> readAvailableDataIntoBuffer k t bp = (r, bp') \<Longrightarrow>
     bs_ledger out bp'"
  using bs.ledger_refill [of k out bp t r bp'] unfolding bs_ledger_def bs.ledger_def by auto

lemma bs_ledger_pop:
  "read_bounded k \<Longrightarrow> bs_ledger out bp \<Longrightarrow> PopFromBuffer n bp = (Inr x, bp') \<Longrightarrow>
     bs_ledger (out @ x) bp'"
  using bs.ledger_pop [of k out bp n x bp'] unfolding bs_ledger_def bs.ledger_def by auto

lemma bs_ledger_pop_error:
  "read_bounded k \<Longrightarrow> bs_ledger out bp \<Longrightarrow> PopFromBuffer n bp = (Inl e, bp') \<Longrightarrow>
     bs_ledger out bp'"
  using bs.ledger_pop_error [of k out bp n e bp'] unfolding bs_ledger_def bs.ledger_def by auto

lemma fill_to_spec:
  assumes "read_bounded k" and "bs_ledger out (b, p)" and "fill_to k want t (b, p) = (r, (b', p'))"
  shows "bs_ledger out (b', p') \<and> bs_stream b' = bs_stream b \<and>
    stream_buffer_size b' = stream_buffer_size b \<and> (r = Inr () \<longrightarrow> want \<le> buffer_write_offset b')"
  using assms(2,3)
proof (induction "want - buffer_write_offset b" arbitrary: b p rule: less_induct)
  case less
  note unfolded = less.prems(2) [unfolded fill_to.simps [of k want t b p]]
  show ?case
  proof (cases "buffer_write_offset b < want")
    case False
    with unfolded less.prems(1) show ?thesis by simp
  next
    case low: True
    obtain v c q where refill: "readAvailableDataIntoBuffer k t (b, p) = (v, (c, q))"
      by (metis prod_cases3)
    note led = bs_ledger_refill [OF assms(1) less.prems(1) refill]
    have same: "bs_stream c = bs_stream b" "stream_buffer_size c = stream_buffer_size b"
      using readAvailable_spec [OF assms(1) _ refill] less.prems(1) by (auto simp: bs_ledger_def)
    show ?thesis
    proof (cases v)
      case (Inl e)
      with unfolded low refill led same show ?thesis by auto
    next
      case (Inr n)
      with refill have "want - buffer_write_offset c < want - buffer_write_offset b"
        using readAvailable_progress [of k t b p n c q] low by (simp add: diff_less_mono2)
      from less.hyps [OF this led] unfolded low refill Inr same show ?thesis by simp
    qed
  qed
qed

section \<open>Properties of the reading functions\<close>

text \<open>
  \<open>BufferedStream::read(n)\<close> returns exactly \<open>n\<close> bytes, and they are the next \<open>n\<close> bytes of
  the stream: what the socket has delivered is always what earlier reads took out, followed by
  the result, followed by what is still buffered.
\<close>

theorem BufferedStream_read_fifo:
  assumes "read_bounded k" and "bs_ledger out bp"
    and "BufferedStream_read k n t bp = (Inr bs, bp')"
  shows "length bs = n \<and> bs_ledger (out @ bs) bp'"
proof -
  obtain b p where bp: "bp = (b, p)" by fastforce
  have "bindA (fill_to k n t) (\<lambda>_. PopFromBuffer n) bp = (Inr bs, bp')"
    using assms(3) by (auto simp: BufferedStream_read_def split: if_splits)
  then obtain u v where "fill_to k n t bp = (Inr u, v)" and pop: "PopFromBuffer n v = (Inr bs, bp')"
    by (rule bindA_InrE)
  then have led: "bs_ledger out v"
    using fill_to_spec [OF assms(1), of out b p n t _ "fst v" "snd v"] assms(2) bp by simp
  then show ?thesis
    using bs_ledger_pop [OF assms(1) led pop] bs.pop_split(2) [of k v n bs bp'] pop assms(1)
    by (simp add: bs_ledger_def)
qed

text \<open>
  Whichever way \<open>BufferedStream::read(n)\<close> ends, no byte is lost: when it throws, what the
  socket delivered so far stays in the buffer for the next call. A request above the buffer's
  size is refused with \<open>std::logic_error\<close> before anything is read, and a request the buffer can
  already serve makes no system call.
\<close>

theorem BufferedStream_read_keeps_data:
  assumes "read_bounded k" and "bs_ledger out (b, p)"
    and "BufferedStream_read k n t (b, p) = (r, (b', p'))"
  shows "(\<forall>e. r = Inl e \<longrightarrow> bs_ledger out (b', p')) \<and>
    (stream_buffer_size b < n \<longrightarrow>
       r = Inl (Logic_Error ''buffer is to small for the requested read'') \<and> p' = p) \<and>
    (n \<le> buffer_write_offset b \<longrightarrow> r = Inr (take n (bs_contents b)) \<and> p' = p)"
proof -
  have wf: "bs_wf b" and off: "buffer_write_offset b \<le> stream_buffer_size b"
    using assms(2) by (auto simp: bs_ledger_def elim: bs_wfE)
  show ?thesis
  proof (cases "stream_buffer_size b < n")
    case True
    with assms(2,3) off show ?thesis by (auto simp: BufferedStream_read_def)
  next
    case False
    obtain v c q where fill: "fill_to k n t (b, p) = (v, (c, q))" by (metis prod_cases3)
    note spec = fill_to_spec [OF assms(1,2) fill]
    have "bs_ledger out (b', p')" if "r = Inl e" for e
      using assms(3) False fill that spec bs_ledger_pop_error [OF assms(1), of out "(c, q)" n e]
      by (cases v) (auto simp: BufferedStream_read_def bindA_def)
    moreover have "r = Inr (take n (bs_contents b)) \<and> p' = p" if "n \<le> buffer_write_offset b"
      using assms(3) False that wf
      by (auto simp: BufferedStream_read_def bindA_def fill_to.simps PopFromBuffer_spec)
    ultimately show ?thesis using False by blast
  qed
qed

text \<open>Cutting the buffer after the first delimiter.\<close>

lemma cut_at_delimiter:
  assumes "read_bounded k" and "bs_ledger out (c, q)" and "stream_buffer c = Some m"
    and "pos = find_index d (take (buffer_write_offset c) m)" and "pos \<noteq> buffer_write_offset c"
    and "c' = c\<lparr>buffer_write_offset := buffer_write_offset c - (pos + 1),
      stream_buffer := Some (block_move_down m (pos + 1) (buffer_write_offset c - (pos + 1)))\<rparr>"
  shows "pos < buffer_write_offset c \<and> d \<notin> set (take pos m) \<and> length (take pos m) = pos \<and>
    bs_ledger (out @ take pos m @ [d]) (c', q)"
proof -
  have wf: "bs_wf c" and m: "bs_contents c = take (buffer_write_offset c) m"
    "buffer_write_offset c \<le> length m"
    using assms(2,3) by (auto simp: bs_ledger_def elim: bs_wfE)
  have pos: "pos = find_index d (bs_contents c)" and short: "pos < buffer_write_offset c"
    using assms(4,5) m find_index_le [of d "bs_contents c"] by simp_all
  then have "take pos m = take pos (bs_contents c)" using m by simp
  moreover have "bs_contents c = take pos (bs_contents c) @ d # drop (Suc pos) (bs_contents c)"
    unfolding pos by (rule find_index_split) (use short wf pos in simp)
  moreover have "d \<notin> set (take pos (bs_contents c))"
    unfolding pos by (rule find_index_before)
  ultimately show ?thesis
    using assms(2,3,6) short m popped_spec [OF wf, of "pos + 1" c']
    by (simp add: bs_ledger_def)
qed

lemma readUntilDelimiter_spec:
  assumes "read_bounded k" and "bs_ledger out (b, p)"
    and "readUntilDelimiter k d (b, p) = (r, bp')"
  shows "case r of Inr bs \<Rightarrow> d \<notin> set bs \<and> bs_ledger (out @ bs @ [d]) bp' | Inl e \<Rightarrow> bs_ledger out bp'"
  using assms(2,3)
proof (induction "stream_buffer_size b - buffer_write_offset b" arbitrary: b p rule: less_induct)
  case less
  note unfolded = less.prems(2) [unfolded readUntilDelimiter.simps [of k d b p]]
  show ?case
  proof (cases "buffer_write_offset b < stream_buffer_size b")
    case False
    with unfolded less.prems(1) show ?thesis by auto
  next
    case room: True
    obtain v c q where refill: "readAvailableDataIntoBuffer k (-1) (b, p) = (v, (c, q))"
      by (metis prod_cases3)
    note led = bs_ledger_refill [OF assms(1) less.prems(1) refill]
    then obtain m where m: "stream_buffer c = Some m"
      by (auto simp: bs_ledger_def elim: bs_wfE)
    let ?pos = "find_index d (take (buffer_write_offset c) m)"
    show ?thesis
    proof (cases v)
      case (Inl e)
      with unfolded room refill led show ?thesis by auto
    next
      case (Inr n)
      note prog = readAvailable_progress [OF refill [unfolded Inr]]
      show ?thesis
      proof (cases "?pos = buffer_write_offset c")
        case True
        with unfolded room refill Inr m have "readUntilDelimiter k d (c, q) = (r, bp')"
          by (simp add: Let_def)
        with less.hyps [OF _ led] prog room show ?thesis by (simp add: diff_less_mono2)
      next
        case False
        note cut = cut_at_delimiter [OF assms(1) led m refl False refl]
        with unfolded room refill Inr m False show ?thesis by (auto simp: Let_def)
      qed
    qed
  qed
qed


text \<open>A buffered stream over descriptor 5 for the witnesses, its buffer eight bytes long.\<close>

definition demo_buffered :: BufferedStream where
  "demo_buffered = fst (BufferedStream_construct demo_stream 8)"

lemma demo_ledger: "bs_ledger [] (demo_buffered, demo_process)"
  by (simp add: bs_ledger_def demo_buffered_def BufferedStream_construct_def bs_wf_def
      bs_contents_def demo_process_def Stream_move_def)


theorem BufferedStream_read_fifo_witness:
  "length ''hel'' = 3 \<and> bs_ledger ([] @ ''hel'')
     (snd (BufferedStream_read (reference_kernel demo_script) 3 (-1) (demo_buffered, demo_process)))"
proof -
  let ?r = "BufferedStream_read (reference_kernel demo_script) 3 (-1) (demo_buffered, demo_process)"
  have "fst ?r = Inr ''hel''" by code_simp
  from BufferedStream_read_fifo [OF reference_read_bounded demo_ledger pair_of_fst [OF this]]
  show ?thesis by simp
qed

theorem BufferedStream_read_keeps_data_witness:
  "bs_ledger [] (snd (BufferedStream_read (reference_kernel demo_script) 7 100
     (demo_buffered, demo_process)))"
proof -
  let ?r = "BufferedStream_read (reference_kernel demo_script) 7 100 (demo_buffered, demo_process)"
  have "fst ?r = Inl (socket_exception SOCKET_READ_TIMEOUT 0 (-1))" by code_simp
  from pair_of_fst [OF this]
  have "?r = (Inl (socket_exception SOCKET_READ_TIMEOUT 0 (-1)), (fst (snd ?r), snd (snd ?r)))"
    by simp
  from BufferedStream_read_keeps_data [OF reference_read_bounded demo_ledger this]
  show ?thesis by simp
qed

lemma readAvailable_throws:
  assumes "stream_buffer b = Some m"
    and "Stream_read k (bs_stream b) (buffer_write_offset b)
      (size_minus (stream_buffer_size b) (buffer_write_offset b)) 1 t (m, p) = (Inl e, (m, q))"
  shows "readAvailableDataIntoBuffer k t (b, p) = (Inl e, (b, q))"
  using assms by (simp add: readAvailableDataIntoBuffer_def Let_def)

text \<open>
  \<open>readUntilDelimiter\<close> does not look at what is already buffered before it reads. With a
  complete line in the buffer, it throws \<open>SOCKET_CLOSED\<close> if the peer has closed the connection
  after sending it, and \<open>std::logic_error\<close> ("could not find delimiter") if the buffer is full;
  the line stays unread in both cases.
\<close>

theorem readUntilDelimiter_ignores_buffered_line:
  assumes "bs_wf b" and "d \<in> set (bs_contents b)"
  shows "(buffer_write_offset b = stream_buffer_size b \<longrightarrow>
       readUntilDelimiter k d (b, p) =
         (Inl (Logic_Error ''could not find delimiter, even though the buffer is full''), (b, p))) \<and>
    (\<forall>rs. buffer_write_offset b < stream_buffer_size b \<longrightarrow>
       k_poll k (history p) (read_fds (bs_stream b)) (-1) = Inr rs \<longrightarrow> revents rs 0 \<noteq> 0 \<longrightarrow>
       k_read k (history p @ [Ev_Poll (read_fds (bs_stream b)) (-1) (Inr rs)]) (bs_fd b)
         (stream_buffer_size b - buffer_write_offset b) = Inr [] \<longrightarrow>
       (\<exists>q. readUntilDelimiter k d (b, p) = (Inl (socket_exception SOCKET_CLOSED 0 (-1)), (b, q))))"
proof -
  obtain m where "stream_buffer b = Some m" using assms(1) by (rule bs_wfE)
  then show ?thesis
    by (auto simp: readUntilDelimiter.simps readAvailableDataIntoBuffer_def Let_def Stream_read_def
        Stream_read_loop.simps sys_poll_def sys_read_def)
qed

definition demo_line_buffer :: BufferedStream where
  "demo_line_buffer = \<lparr>bs_stream = demo_stream, stream_buffer_size = 4,
     stream_buffer = Some ''a;b;'', buffer_write_offset = 4\<rparr>"

theorem readUntilDelimiter_ignores_buffered_line_witness:
  "fst (readUntilDelimiter (reference_kernel demo_script) (CHR '';'') (demo_line_buffer, demo_process))
     = Inl (Logic_Error ''could not find delimiter, even though the buffer is full'')"
proof -
  have "bs_wf demo_line_buffer" and "CHR '';'' \<in> set (bs_contents demo_line_buffer)"
    and "buffer_write_offset demo_line_buffer = stream_buffer_size demo_line_buffer"
    by (simp_all add: demo_line_buffer_def bs_wf_def bs_contents_def)
  with readUntilDelimiter_ignores_buffered_line [of demo_line_buffer "CHR '';''"
      "reference_kernel demo_script" demo_process] show ?thesis by simp
qed

lemma read_into_spec:
  assumes "read_bounded k" and "bs_ledger out bp"
    and "BufferedStream_read_into k dest off max_bytes min_bytes t bp = (r, bp')"
  shows "case r of
      Inr (n, dest') \<Rightarrow> \<exists>data. length data = n \<and> n \<le> max_bytes \<and> min min_bytes max_bytes \<le> n \<and>
        dest' = block_write dest off data \<and> bs_ledger (out @ data) bp'
    | Inl e \<Rightarrow> bs_ledger out bp'"
proof -
  obtain b p v c q where bp: "bp = (b, p)"
    and first: "readAvailableDataIntoBuffer k t (b, p) = (v, (c, q))" by (metis prod_cases3 surj_pair)
  note led = bs_ledger_refill [OF assms(1) assms(2) [unfolded bp] first]
  show ?thesis
  proof (cases v)
    case (Inl e)
    with assms(3) bp first led show ?thesis by (auto simp: BufferedStream_read_into_def)
  next
    case (Inr m)
    obtain w d u where fill: "fill_to k min_bytes t (c, q) = (w, (d, u))" by (metis prod_cases3)
    note spec = fill_to_spec [OF assms(1) led fill]
    show ?thesis
    proof (cases w)
      case (Inl e)
      with assms(3) bp first fill Inr spec show ?thesis
        by (auto simp: BufferedStream_read_into_def)
    next
      case full: (Inr _)
      let ?n = "min (buffer_write_offset d) max_bytes"
      have wf: "bs_wf d" using spec by (simp add: bs_ledger_def)
      then obtain d' where pop: "PopFromBuffer ?n (d, u) = (Inr (take ?n (bs_contents d)), (d', u))"
        by (simp add: PopFromBuffer_spec)
      with assms(3) bp first fill Inr full
      have "r = Inr (?n, block_write dest off (take ?n (bs_contents d)))" and "bp' = (d', u)"
        by (auto simp: BufferedStream_read_into_def Let_def)
      with bs_ledger_pop [OF assms(1) _ pop] spec full wf show ?thesis
        by (auto intro!: exI [of _ "take ?n (bs_contents d)"] simp: min_le_iff_disj)
    qed
  qed
qed

text \<open>
  \<open>BufferedStream::read(buffer, max, min)\<close> delivers the next bytes of the stream: at most
  \<open>max\<close>, at least the smaller of \<open>min\<close> and \<open>max\<close>, stored from the caller's pointer on. If it
  throws, nothing is taken off the stream.
\<close>

theorem BufferedStream_read_into_outcome:
  assumes "read_bounded k" and "bs_ledger out bp"
    and "BufferedStream_read_into k dest off max_bytes min_bytes t bp = (r, bp')"
  shows "case r of
      Inr (n, dest') \<Rightarrow> \<exists>data. length data = n \<and> n \<le> max_bytes \<and> min min_bytes max_bytes \<le> n \<and>
        dest' = block_write dest off data \<and> bs_ledger (out @ data) bp'
    | Inl e \<Rightarrow> bs_ledger out bp'"
  using assms by (rule read_into_spec)

theorem BufferedStream_read_into_outcome_witness:
  "\<exists>data. length data = 2 \<and> 2 \<le> (2::nat) \<and> min 3 2 \<le> (2::nat) \<and>
     ''.he.'' = block_write ''....'' 1 data \<and>
     bs_ledger ([] @ data) (snd (BufferedStream_read_into (reference_kernel demo_script) ''....'' 1 2 3
       (-1) (demo_buffered, demo_process)))"
proof -
  let ?r = "BufferedStream_read_into (reference_kernel demo_script) ''....'' 1 2 3 (-1)
    (demo_buffered, demo_process)"
  have "fst ?r = Inr (2, ''.he.'')" by code_simp
  from BufferedStream_read_into_outcome [OF reference_read_bounded demo_ledger pair_of_fst [OF this]]
  show ?thesis by simp
qed

text \<open>
  A full buffer is reported as a closed connection. \<open>BufferedStream::read(buffer, max, min)\<close>
  always reads from the socket first; with a full buffer it then asks for zero bytes, and throws
  \<open>SOCKET_CLOSED\<close> on an open, readable socket although the buffer alone could serve the call.
\<close>

theorem BufferedStream_read_into_full_buffer:
  assumes "read_bounded k" and "bs_wf b" and "buffer_write_offset b = stream_buffer_size b"
    and "k_poll k (history p) (read_fds (bs_stream b)) t = Inr rs" and "revents rs 0 \<noteq> 0"
    and "k_read k (history p @ [Ev_Poll (read_fds (bs_stream b)) t (Inr rs)]) (bs_fd b) 0 = Inr bs"
  shows "\<exists>q. BufferedStream_read_into k dest off max_bytes min_bytes t (b, p) =
    (Inl (socket_exception SOCKET_CLOSED 0 (-1)), (b, q))"
proof -
  obtain m where m: "stream_buffer b = Some m" using assms(2) by (rule bs_wfE)
  have "\<exists>q. readAvailableDataIntoBuffer k t (b, p) =
      (Inl (socket_exception SOCKET_CLOSED 0 (-1)), (b, q))"
    using readAvailable_throws [OF m] assms(3)
    by (auto simp: Stream_read_zero_room [OF assms(1) _ assms(4-6)])
  then show ?thesis by (auto simp: BufferedStream_read_into_def)
qed

theorem BufferedStream_read_into_full_buffer_witness:
  "\<exists>q. BufferedStream_read_into (reference_kernel demo_script) ''.'' 0 1 1 (-1)
     (demo_line_buffer, demo_process) =
     (Inl (socket_exception SOCKET_CLOSED 0 (-1)), (demo_line_buffer, q))"
proof -
  let ?k = "reference_kernel demo_script" and ?s = "bs_stream demo_line_buffer"
  have "bs_wf demo_line_buffer"
    and "buffer_write_offset demo_line_buffer = stream_buffer_size demo_line_buffer"
    by (simp_all add: demo_line_buffer_def bs_wf_def)
  moreover have "k_poll ?k (history demo_process) (read_fds ?s) (-1) = Inr [1, 0]"
    and "k_read ?k (history demo_process @ [Ev_Poll (read_fds ?s) (-1) (Inr [1, 0])])
      (bs_fd demo_line_buffer) 0 = Inr []" by code_simp+
  ultimately show ?thesis
    by (intro BufferedStream_read_into_full_buffer) simp_all
qed

section \<open>Whole lives of a buffered stream\<close>

text \<open>Writing and stopping take nothing off any stream.\<close>

lemma Stream_write_loop_received:
  "received d (history (snd (Stream_write_loop k s bs attempts written p))) = received d (history p)"
proof (induction k s bs attempts written p rule: Stream_write_loop.induct)
  case (1 k s bs attempts written p)
  then show ?case
    by (subst Stream_write_loop.simps)
      (auto simp: sys_write_def sys_sleep_def syscall_def split: sum.splits)
qed

lemma Stream_write_received:
  "Stream_write k s bs attempts p = (r, q) \<Longrightarrow> received d (history q) = received d (history p)"
  using Stream_write_loop_received [of d k s bs attempts 0 p]
  by (auto simp: Stream_write_def bindA_def split: prod.splits sum.splits if_splits)

lemma Stream_stopReads_received:
  "Stream_stopReads k s p = (r, q) \<Longrightarrow> received d (history q) = received d (history p)"
  by (auto simp: Stream_stopReads_def ignore_result_def sys_eventfd_write_def syscall_def
      split: sum.splits)

text \<open>The calls a client can make, and the bytes of the stream that a call hands out.\<close>

datatype bs_call =
    Call_Read nat int
  | Call_Read_Until char
  | Call_Read_Into "char list" nat nat nat int
  | Call_Write "char list"
  | Call_Stop_Reads

definition bs_exec :: "kernel \<Rightarrow> bs_call \<Rightarrow> (bs_state, error, char list) action" where
  "bs_exec k c = (case c of
      Call_Read n t \<Rightarrow> BufferedStream_read k n t
    | Call_Read_Until d \<Rightarrow> bindA (readUntilDelimiter k d) (\<lambda>bs. ret (bs @ [d]))
    | Call_Read_Into dest off max_bytes min_bytes t \<Rightarrow>
        bindA (BufferedStream_read_into k dest off max_bytes min_bytes t)
          (\<lambda>(n, dest'). ret (take n (drop off dest')))
    | Call_Write bs \<Rightarrow> bindA (BufferedStream_write k bs) (\<lambda>_. ret [])
    | Call_Stop_Reads \<Rightarrow> bindA (BufferedStream_stopReads k) (\<lambda>_. ret []))"

text \<open>The pointer a client passes lies in its block.\<close>

definition bs_call_ok :: "bs_call \<Rightarrow> bool" where
  "bs_call_ok c = (case c of
      Call_Read_Into dest off max_bytes min_bytes t \<Rightarrow> off + max_bytes \<le> length dest
    | _ \<Rightarrow> True)"

text \<open>Running calls one after the other; an exception hands out nothing and the client goes on.\<close>

fun bs_run :: "kernel \<Rightarrow> bs_call list \<Rightarrow> char list \<Rightarrow> bs_state \<Rightarrow> char list \<times> bs_state" where
  "bs_run k [] out bp = (out, bp)"
| "bs_run k (c # cs) out bp =
     (case bs_exec k c bp of
        (Inl e, bp') \<Rightarrow> bs_run k cs out bp'
      | (Inr x, bp') \<Rightarrow> bs_run k cs (out @ x) bp')"

lemma bs_read_ledger:
  assumes "read_bounded k" and "bs_ledger out bp" and "BufferedStream_read k n t bp = (r, bp')"
  shows "bs_ledger (case r of Inr x \<Rightarrow> out @ x | Inl e \<Rightarrow> out) bp'"
proof (cases "stream_buffer_size (fst bp) < n")
  case True
  with assms(2,3) show ?thesis by (auto simp: BufferedStream_read_def)
next
  case False
  obtain v c where fill: "fill_to k n t bp = (v, c)" by (meson surj_pair)
  then have led: "bs_ledger out c"
    using fill_to_spec [OF assms(1), of out "fst bp" "snd bp" n t v "fst c" "snd c"] assms(2) by simp
  show ?thesis
    using assms(3) False fill led bs_ledger_pop [OF assms(1) led, of n _ bp']
      bs_ledger_pop_error [OF assms(1) led, of n _ bp']
    by (auto simp: BufferedStream_read_def bindA_def split: sum.splits)
qed

lemma bs_exec_ledger:
  assumes "read_bounded k" and "bs_call_ok c" and "bs_ledger out bp" and "bs_exec k c bp = (r, bp')"
  shows "bs_ledger (case r of Inr x \<Rightarrow> out @ x | Inl e \<Rightarrow> out) bp'"
proof (cases c)
  case (Call_Read n t)
  with assms show ?thesis by (auto simp: bs_exec_def intro: bs_read_ledger)
next
  case (Call_Read_Until d)
  then show ?thesis
    using assms(3,4) readUntilDelimiter_spec [OF assms(1), of out "fst bp" "snd bp" d]
    by (auto simp: bs_exec_def bindA_def split: prod.splits sum.splits)
next
  case (Call_Read_Into dest off max_bytes min_bytes t)
  obtain v w where into: "BufferedStream_read_into k dest off max_bytes min_bytes t bp = (v, w)"
    by (meson surj_pair)
  from read_into_spec [OF assms(1,3) into] assms(2,4) into Call_Read_Into show ?thesis
    by (auto simp: bs_exec_def bindA_def bs_call_ok_def read_block_facts split: sum.splits)
next
  case (Call_Write bs)
  with assms(3,4) show ?thesis
    by (auto simp: bs_exec_def bindA_def BufferedStream_write_def bs_ledger_def
        dest!: Stream_write_received [where d = "bs_fd (fst bp)"] split: prod.splits sum.splits)
next
  case Call_Stop_Reads
  with assms(3,4) show ?thesis
    by (auto simp: bs_exec_def bindA_def BufferedStream_stopReads_def bs_ledger_def
        dest!: Stream_stopReads_received [where d = "bs_fd (fst bp)"] split: prod.splits sum.splits)
qed

lemma bs_run_ledger:
  assumes "read_bounded k" and "list_all bs_call_ok cs" and "bs_ledger out bp"
    and "bs_run k cs out bp = (out', bp')"
  shows "bs_ledger out' bp'"
  using assms(2-)
proof (induction cs arbitrary: out bp)
  case (Cons c cs)
  obtain r bq where step: "bs_exec k c bp = (r, bq)" by (meson surj_pair)
  from Cons.prems have "bs_call_ok c" by simp
  from bs_exec_ledger [OF assms(1) this Cons.prems(2) step] Cons step show ?case
    by (auto split: sum.splits)
qed simp

text \<open>What was handed out before makes no difference.\<close>

lemma bs_run_accumulates:
  "bs_run k cs out bp = (out @ fst (bs_run k cs [] bp), snd (bs_run k cs [] bp))"
proof (induction cs arbitrary: out bp)
  case (Cons c cs)
  obtain r bq where step: "bs_exec k c bp = (r, bq)" by (meson surj_pair)
  show ?case
  proof (cases r)
    case (Inl e)
    with step Cons.IH [of out bq] show ?thesis by simp
  next
    case (Inr x)
    with step Cons.IH [of "out @ x" bq] Cons.IH [of x bq] show ?thesis by simp
  qed
qed simp


definition demo_calls :: "bs_call list" where
  "demo_calls = [Call_Read 1 (-1), Call_Read_Into ''...'' 0 2 1 (-1), Call_Read 9 5,
     Call_Read_Until (CHR ''o'')]"


text \<open>The block is freed once.\<close>

fun is_free :: "event \<Rightarrow> bool" where
  "is_free Ev_Free = True"
| "is_free _ = False"

definition free_calls :: "history \<Rightarrow> nat" where
  "free_calls h = length (filter is_free h)"

lemma Stream_destroy_free_calls:
  "free_calls (history (snd (Stream_destroy k s p))) = free_calls (history p)"
  by (auto simp: Stream_destroy_def bindA_def ignore_result_def sys_eventfd_write_def sys_close_def
      syscall_def free_calls_def split: sum.splits prod.splits option.splits)

text \<open>
  Moving a \<open>BufferedStream\<close> passes on its block. When both the moved-from object and its
  successor are destroyed, in this order, the block is freed exactly once and the socket is
  closed exactly once.
\<close>

theorem BufferedStream_move_frees_once:
  assumes "stream_buffer b = Some m" and "0 \<le> bs_fd b" and "BufferedStream_move b = (b', rest)"
    and "BufferedStream_destroy k rest p = (r1, q)" and "BufferedStream_destroy k b' q = (r2, u)"
  shows "r1 = Inr () \<and> free_calls (history u) = Suc (free_calls (history p)) \<and>
    close_calls (bs_fd b) (history u) = Suc (close_calls (bs_fd b) (history p))"
proof -
  have "r1 = Inr ()" and "q = p" and "stream_buffer b' = Some m" and "bs_fd b' = bs_fd b"
    using assms(1,3,4) by (auto simp: BufferedStream_move_def Stream_move_def BufferedStream_destroy_def
        Stream_destroy_def kInvalidSocketFdMarker_def)
  moreover from this have "u = snd (Stream_destroy k (bs_stream b') (sys_free p))"
    using assms(5) by (simp add: BufferedStream_destroy_def)
  moreover have "close_calls (bs_fd b') (history (snd (Stream_destroy k (bs_stream b') (sys_free p))))
      = Suc (close_calls (bs_fd b') (history p))"
    using assms(2) \<open>bs_fd b' = bs_fd b\<close>
    by (auto simp: Stream_destroy_def bindA_def ignore_result_def sys_eventfd_write_def
        sys_close_def sys_free_def syscall_def split: sum.splits prod.splits option.splits)
  ultimately show ?thesis
    by (simp add: Stream_destroy_free_calls) (simp add: sys_free_def free_calls_def)
qed

theorem BufferedStream_move_frees_once_witness:
  "free_calls (history (snd (BufferedStream_destroy (reference_kernel demo_script)
     (fst (BufferedStream_move demo_buffered)) demo_process))) =
   Suc (free_calls (history demo_process))"
proof -
  let ?k = "reference_kernel demo_script"
  let ?b = "fst (BufferedStream_move demo_buffered)" and ?rest = "snd (BufferedStream_move demo_buffered)"
  have "BufferedStream_destroy ?k ?rest demo_process = (Inr (), demo_process)"
    and "stream_buffer demo_buffered = Some (replicate 8 (CHR 0x00))"
    and "(0::int) \<le> bs_fd demo_buffered" by code_simp+
  with BufferedStream_move_frees_once [of demo_buffered "replicate 8 (CHR 0x00)" ?b ?rest ?k
      demo_process "Inr ()" demo_process "fst (BufferedStream_destroy ?k ?b demo_process)"
      "snd (BufferedStream_destroy ?k ?b demo_process)"] show ?thesis by simp
qed

end
