(* ===== verification/Conditional_Stream.thy ===== *)
theory Conditional_Stream
  imports Buffered_Stream
begin

text \<open>
  \<open>class ConditionalBufferedStream\<close> (\<open>include/socket_wrapper/ConditionalBufferedStream.h\<close>,
  \<open>src/ConditionalBufferedStream.cpp\<close>): a worker thread reads the stream into the buffer and
  cuts frames off it wherever one of the client's conditions asks for it; every frame goes into
  the queue of its condition and is announced on the condition's \<open>eventfd\<close>.

  Here the member functions are modelled as actions, the worker's as well; how the worker and
  the readers interleave is the subject of \<open>Conditional_Concurrency\<close>.
\<close>

section \<open>The object\<close>

text \<open>
  A condition returns an \<open>int\<close>: 0 for nothing to do, a positive number for a frame of that many
  bytes, a negative one for bytes to discard. It is kept as its 32 bits.
\<close>

type_synonym buffer_event_condition = "char list \<Rightarrow> 32 word"

record buffer_event_handler =
  condition :: buffer_event_condition
  handler_fd :: fd

record ConditionalBufferedStream =
  last_ex :: socket_exception_type
  worker_joinable :: bool
  cbs_stream :: BufferedStream
  termination_requested :: bool
  buffer_event_handlers :: "buffer_event_handler list"
  received_data_per_condition :: "fd \<rightharpoonup> char list list"

type_synonym cbs_state = "ConditionalBufferedStream \<times> process"

definition ConditionalBufferedStream_construct ::
    "BufferedStream \<Rightarrow> ConditionalBufferedStream \<times> BufferedStream" where
  "ConditionalBufferedStream_construct stream =
     (let (b, rest) = BufferedStream_move stream
      in (\<lparr>last_ex = SOCKET_OK, worker_joinable = False, cbs_stream = b,
           termination_requested = False, buffer_event_handlers = [],
           received_data_per_condition = Map.empty\<rparr>, rest))"

text \<open>Calling a member function of the \<open>stream\<close> member.\<close>

definition on_stream :: "(bs_state, error, 'a) action \<Rightarrow> (cbs_state, error, 'a) action" where
  "on_stream f cp =
     (let (r, (b, p)) = f (cbs_stream (fst cp), snd cp) in (r, ((fst cp)\<lparr>cbs_stream := b\<rparr>, p)))"

text \<open>
  \<open>abs\<close> of an \<open>int\<close>. For the least \<open>int\<close> C++ leaves the result undefined; the callers of
  this definition rule that value out first.
\<close>

definition abs_size :: "32 word \<Rightarrow> nat" where
  "abs_size b = nat \<bar>sint b\<bar>"

definition INT_MIN :: "32 word" where
  "INT_MIN = 2147483648"

section \<open>Conditions\<close>

definition createEventfdOnCondition ::
    "libc \<Rightarrow> kernel \<Rightarrow> buffer_event_condition \<Rightarrow> (cbs_state, error, fd) action" where
  "createEventfdOnCondition l k cond cp =
     (case sys_eventfd k (snd cp) of
        (None, q) \<Rightarrow>
          (Inl (Runtime_Error (''Failed to create eventfd errno='' @ strerror l (errno q))), (fst cp, q))
      | (Some d, q) \<Rightarrow>
          (Inr d, ((fst cp)\<lparr>
            buffer_event_handlers :=
              buffer_event_handlers (fst cp) @ [\<lparr>condition = cond, handler_fd = d\<rparr>],
            received_data_per_condition := (received_data_per_condition (fst cp))(d \<mapsto> [])\<rparr>, q)))"

text \<open>
  The delimiter condition: one more than the position of the delimiter, a \<open>long\<close> that the
  \<open>std::function\<close> narrows to \<open>int\<close>.
\<close>

definition getDelimiterCondition :: "char \<Rightarrow> buffer_event_condition" where
  "getDelimiterCondition delimiter data =
     (let pos = find_index delimiter data
      in if pos \<noteq> length data then word_of_nat (pos + 1) else 0)"

section \<open>Cutting frames\<close>

text \<open>
  Store a frame in the queue of its condition (under the lock) and post one on the \<open>eventfd\<close>.
\<close>

definition push_frame :: "fd \<Rightarrow> char list \<Rightarrow> ConditionalBufferedStream \<Rightarrow> ConditionalBufferedStream" where
  "push_frame d x c = c\<lparr>received_data_per_condition := (received_data_per_condition c)
     (d \<mapsto> (case received_data_per_condition c d of None \<Rightarrow> [] | Some q \<Rightarrow> q) @ [x])\<rparr>"

definition post_event :: "kernel \<Rightarrow> fd \<Rightarrow> (cbs_state, error, unit) action" where
  "post_event k d cp =
     (let (r, q) = throw_errno SOCKET_WRITE (sys_eventfd_write k d 1) (snd cp) in (r, (fst cp, q)))"

definition signal_frame :: "kernel \<Rightarrow> fd \<Rightarrow> char list \<Rightarrow> (cbs_state, error, unit) action" where
  "signal_frame k d x cp = post_event k d (push_frame d x (fst cp), snd cp)"

lemma abs_size_0 [simp]: "abs_size 0 = 0"
  by (simp add: abs_size_def)

lemma abs_size_pos: "b \<noteq> 0 \<Longrightarrow> 0 < abs_size b"
  by (simp add: abs_size_def signed_eq_0_iff)

text \<open>
  \<open>processDataSendSignals(data)\<close> with its loop over the handlers. A handler that takes bytes
  pops them off the buffer, and the rest of \<open>data\<close> is processed recursively; the loop then
  goes on with the next handler and the same \<open>data\<close>.
\<close>

function (sequential)
  processDataSendSignals :: "kernel \<Rightarrow> char list \<Rightarrow> (cbs_state, error, unit) action" and
  process_handlers ::
    "kernel \<Rightarrow> char list \<Rightarrow> buffer_event_handler list \<Rightarrow> (cbs_state, error, unit) action"
where
  "processDataSendSignals k data cp =
     (if data = [] then (Inr (), cp)
      else process_handlers k data (buffer_event_handlers (fst cp)) cp)"
| "process_handlers k data [] cp = (Inr (), cp)"
| "process_handlers k data (h # hs) cp =
     (let b = condition h data; n = abs_size b in
      if b = INT_MIN then (Inl Undefined_Behaviour, cp)
      else if length data < n then
        (Inl (Logic_Error
          ''a condition on a ConditionalBufferedStream tried to read more data, than exists''), cp)
      else if b \<noteq> 0 then
        (case on_stream (PopFromBuffer n) cp of
           (Inl e, cq) \<Rightarrow> (Inl e, cq)
         | (Inr read_data, cq) \<Rightarrow>
             (case (if 0 < sint b then signal_frame k (handler_fd h) read_data cq else (Inr (), cq)) of
                (Inl e, cr) \<Rightarrow> (Inl e, cr)
              | (Inr _, cr) \<Rightarrow>
                  (case processDataSendSignals k (drop n data) cr of
                     (Inl e, cs) \<Rightarrow> (Inl e, cs)
                   | (Inr _, cs) \<Rightarrow> process_handlers k data hs cs)))
      else process_handlers k data hs cp)"
  by pat_completeness auto

termination
  by (relation "measures [case_sum (\<lambda>(k, data, cp). length data) (\<lambda>(k, data, hs, cp). length data),
        case_sum (\<lambda>(k, data, cp). Suc (length (buffer_event_handlers (fst cp))))
          (\<lambda>(k, data, hs, cp). length hs)]")
    (auto dest: abs_size_pos)


declare processDataSendSignals.simps [simp del] process_handlers.simps [simp del]

section \<open>The worker\<close>

text \<open>
  One round of the worker's loop: read what is available, then cut frames off a copy of the
  buffer. The loop only ends by an exception; \<open>worker_loop\<close> returns that exception, and
  \<open>None\<close> stands for a loop that never ends.
\<close>

definition worker_round :: "kernel \<Rightarrow> (cbs_state, error, unit) action" where
  "worker_round k cp =
     (case on_stream (readAvailableDataIntoBuffer k (-1)) cp of
        (Inl e, cq) \<Rightarrow> (Inl e, cq)
      | (Inr _, cq) \<Rightarrow>
          processDataSendSignals k
            (take (buffer_write_offset (cbs_stream (fst cq))) (the (stream_buffer (cbs_stream (fst cq)))))
            cq)"

partial_function (option) worker_loop :: "kernel \<Rightarrow> cbs_state \<Rightarrow> (error \<times> cbs_state) option" where
  "worker_loop k cp =
     (case worker_round k cp of
        (Inl e, cq) \<Rightarrow> Some (e, cq)
      | (Inr _, cq) \<Rightarrow> worker_loop k cq)"

text \<open>
  The \<open>catch (SocketException&)\<close> clause. A \<open>SOCKET_TERMINATION_REQUEST\<close> ends the thread
  silently; any other type is kept in \<open>last_ex\<close> and announced on every condition. What is not a
  \<open>SocketException\<close>, and what the clause itself throws, leaves the thread: \<open>std::terminate\<close>.
\<close>

fun notify_handlers :: "kernel \<Rightarrow> buffer_event_handler list \<Rightarrow> (cbs_state, error, unit) action" where
  "notify_handlers k [] cp = (Inr (), cp)"
| "notify_handlers k (h # hs) cp =
     (case post_event k (handler_fd h) cp of
        (Inl e, cq) \<Rightarrow> (Inl e, cq)
      | (Inr _, cq) \<Rightarrow> notify_handlers k hs cq)"

definition worker_catch :: "kernel \<Rightarrow> error \<Rightarrow> (cbs_state, error, unit) action" where
  "worker_catch k e cp =
     (case e of
        Socket_Exception ex \<Rightarrow>
          if exception_type ex \<noteq> SOCKET_TERMINATION_REQUEST then
            (case notify_handlers k (buffer_event_handlers (fst cp))
                    ((fst cp)\<lparr>last_ex := exception_type ex\<rparr>, snd cp) of
               (Inl _, cq) \<Rightarrow> (Inl Terminate, cq)
             | (Inr _, cq) \<Rightarrow> (Inr (), cq))
          else (Inr (), cp)
      | Undefined_Behaviour \<Rightarrow> (Inl Undefined_Behaviour, cp)
      | _ \<Rightarrow> (Inl Terminate, cp))"

definition ConditionalBufferWorker ::
    "kernel \<Rightarrow> cbs_state \<Rightarrow> ((error + unit) \<times> cbs_state) option" where
  "ConditionalBufferWorker k cp =
     (case worker_loop k cp of
        None \<Rightarrow> None
      | Some (e, cq) \<Rightarrow> Some (worker_catch k e cq))"

text \<open>
  \<open>start()\<close> assigns a new thread; assigning over a thread that was not joined ends the program.
\<close>

definition ConditionalBufferedStream_start :: "(cbs_state, error, unit) action" where
  "ConditionalBufferedStream_start cp =
     (if worker_joinable (fst cp) then (Inl Terminate, cp)
      else (Inr (), ((fst cp)\<lparr>worker_joinable := True\<rparr>, snd cp)))"

section \<open>The client's operations\<close>

definition no_data_text :: "fd \<Rightarrow> string" where
  "no_data_text d = ''A read on condition '' @ to_string_int d @
     '' was performed, but there is no data present yet''"

definition ConditionalBufferedStream_read ::
    "fd \<Rightarrow> (ConditionalBufferedStream, error, char list) action" where
  "ConditionalBufferedStream_read d c =
     (case received_data_per_condition c d of
        None \<Rightarrow> (Inl (socket_exception SOCKET_INVALID_CONDITION (-1) (-1)), c)
      | Some (x # q) \<Rightarrow>
          (Inr x, c\<lparr>received_data_per_condition := (received_data_per_condition c)(d \<mapsto> q)\<rparr>)
      | Some [] \<Rightarrow>
          if last_ex c \<noteq> SOCKET_OK then (Inl (socket_exception (last_ex c) (-1) (-1)), c)
          else (Inl (Out_Of_Range (no_data_text d)), c))"

text \<open>
  \<open>readBlocking\<close>: a failed \<open>poll\<close> leaves \<open>revents\<close> at 0 and takes the last branch. The result
  of reading the \<open>eventfd\<close> is ignored.
\<close>

definition readBlocking :: "kernel \<Rightarrow> fd \<Rightarrow> int \<Rightarrow> (cbs_state, error, char list) action" where
  "readBlocking k d timeout_ms cp =
     (let (poll_result, q) = sys_poll k [d] timeout_ms (snd cp);
          poll_fds = (case poll_result of None \<Rightarrow> [] | Some rs \<Rightarrow> rs)
      in if poll_result \<noteq> None \<and> poll_count poll_fds = 0 then
           (if termination_requested (fst cp)
            then (Inl (socket_exception SOCKET_TERMINATION_REQUEST (-1) (-1)), (fst cp, q))
            else (Inl (socket_exception SOCKET_POLL (errno q) (-1)), (fst cp, q)))
         else if revents poll_fds 0 AND POLLIN \<noteq> 0 then
           (let u = snd (sys_eventfd_read k d q);
                (r, c) = ConditionalBufferedStream_read d (fst cp)
            in (r, (c, u)))
         else (Inl (socket_exception SOCKET_READ_TIMEOUT (errno q) (-1)), (fst cp, q)))"

definition readBlockingStr :: "kernel \<Rightarrow> fd \<Rightarrow> int \<Rightarrow> (cbs_state, error, string) action" where
  "readBlockingStr k d timeout_ms = readBlocking k d timeout_ms"

definition ConditionalBufferedStream_write ::
    "kernel \<Rightarrow> char list \<Rightarrow> (cbs_state, error, unit) action" where
  "ConditionalBufferedStream_write k bs = on_stream (BufferedStream_write k bs)"

definition ConditionalBufferedStream_stopReads :: "kernel \<Rightarrow> (cbs_state, error, unit) action" where
  "ConditionalBufferedStream_stopReads k cp =
     on_stream (BufferedStream_stopReads k) ((fst cp)\<lparr>termination_requested := True\<rparr>, snd cp)"

text \<open>
  The destructor: close the descriptors of the conditions, stop the stream, join the worker,
  destroy the buffered stream. The worker runs while the destructor waits in \<open>join\<close>; a worker
  that ends the program does so here, and \<open>None\<close> is a \<open>join\<close> that never returns. Joining a
  thread that was never started throws out of the destructor, which ends the program too.
\<close>

fun close_handlers :: "kernel \<Rightarrow> buffer_event_handler list \<Rightarrow> process \<Rightarrow> process" where
  "close_handlers k [] p = p"
| "close_handlers k (h # hs) p = close_handlers k hs (snd (sys_close k (handler_fd h) p))"

definition ConditionalBufferedStream_destroy ::
    "kernel \<Rightarrow> cbs_state \<Rightarrow> ((error + unit) \<times> cbs_state) option" where
  "ConditionalBufferedStream_destroy k cp =
     (let closed = (fst cp, close_handlers k (buffer_event_handlers (fst cp)) (snd cp));
          stopped = snd (on_stream (BufferedStream_stopReads k) closed)
      in if \<not> worker_joinable (fst cp) then Some (Inl Terminate, stopped)
         else (case ConditionalBufferWorker k stopped of
             None \<Rightarrow> None
           | Some (Inl e, cq) \<Rightarrow> Some (Inl e, cq)
           | Some (Inr _, (c, q)) \<Rightarrow>
               (let (r, u) = BufferedStream_destroy k (cbs_stream c) q
                in Some (r, (c\<lparr>worker_joinable := False\<rparr>, u)))))"


section \<open>Framing at a delimiter\<close>

text \<open>A frame of the delimiter condition: it ends in the delimiter and has no other.\<close>

definition delimited :: "char \<Rightarrow> char list \<Rightarrow> bool" where
  "delimited d f = (f \<noteq> [] \<and> last f = d \<and> d \<notin> set (butlast f))"

abbreviation delimiter_handler :: "char \<Rightarrow> fd \<Rightarrow> buffer_event_handler" where
  "delimiter_handler d e \<equiv> \<lparr>condition = getDelimiterCondition d, handler_fd = e\<rparr>"

lemma sint_of_nat_small: "n < 2 ^ 31 \<Longrightarrow> sint (word_of_nat n :: 32 word) = int n"
  by (simp add: signed_of_nat take_bit_nat_eq_self signed_take_bit_int_eq_self flip: of_nat_take_bit)

lemma getDelimiterCondition_small:
  assumes "length data < 2 ^ 31 - 1" and "d \<in> set data"
  shows "sint (getDelimiterCondition d data) = int (find_index d data + 1)"
    and "abs_size (getDelimiterCondition d data) = find_index d data + 1"
    and "getDelimiterCondition d data \<noteq> 0"
    and "getDelimiterCondition d data \<noteq> INT_MIN"
proof -
  have lt: "find_index d data < length data"
    using assms(2) by (simp add: find_index_less_iff)
  with assms(1) have "find_index d data + 1 < 2 ^ 31" by simp
  from sint_of_nat_small [OF this] lt
  show s: "sint (getDelimiterCondition d data) = int (find_index d data + 1)"
    by (simp add: getDelimiterCondition_def Let_def)
  then show "abs_size (getDelimiterCondition d data) = find_index d data + 1"
    by (simp add: abs_size_def)
  from s show "getDelimiterCondition d data \<noteq> 0" by auto
  have "sint INT_MIN = - 2147483648" by (simp add: INT_MIN_def)
  with s show "getDelimiterCondition d data \<noteq> INT_MIN" by auto
qed

lemma getDelimiterCondition_absent: "d \<notin> set data \<Longrightarrow> getDelimiterCondition d data = 0"
  by (simp add: getDelimiterCondition_def find_index_absent)

lemma delimited_take:
  assumes "d \<in> set data"
  shows "delimited d (take (find_index d data + 1) data)"
proof -
  have lt: "find_index d data < length data" using assms by (simp add: find_index_less_iff)
  from find_index_split [OF this] have "data ! find_index d data = d"
    by (metis length_take lt min.absorb4 nth_append_length)
  then have "take (find_index d data + 1) data = take (find_index d data) data @ [d]"
    using lt by (simp add: take_Suc_conv_app_nth)
  then show ?thesis using find_index_before [of d data] by (simp add: delimited_def)
qed

text \<open>What cutting frames leaves alone.\<close>

definition frozen ::
    "ConditionalBufferedStream \<Rightarrow> socket_exception_type \<times> bool \<times> bool \<times> buffer_event_handler list \<times> Stream \<times> nat"
where
  "frozen c = (last_ex c, worker_joinable c, termination_requested c, buffer_event_handlers c,
     bs_stream (cbs_stream c), stream_buffer_size (cbs_stream c))"

lemma post_event_cases:
  assumes "post_event k d (c, p) = (r, cq)"
  obtains (posted) "r = Inr ()" "cq = (c, log_event (Ev_Eventfd_Write d 1 (Inr ())) p)"
      "k_eventfd_write k (history p) d 1 = Inr ()"
    | (refused) e where "r = Inl (socket_exception SOCKET_WRITE e (-1))"
      "cq = (c, log_failure (Ev_Eventfd_Write d 1 (Inl e)) e p)"
      "k_eventfd_write k (history p) d 1 = Inl e"
  using assms
  by (cases "k_eventfd_write k (history p) d 1")
    (auto simp: post_event_def throw_errno_def sys_eventfd_write_def)

text \<open>The object after a frame was cut and stored.\<close>

definition cut_frame :: "fd \<Rightarrow> nat \<Rightarrow> ConditionalBufferedStream \<Rightarrow> ConditionalBufferedStream" where
  "cut_frame d n c = (let b = cbs_stream c; left = buffer_write_offset b - n in
     push_frame d (take n (bs_contents b)) (c\<lparr>cbs_stream := b\<lparr>buffer_write_offset := left,
       stream_buffer := Some (block_move_down (the (stream_buffer b)) n left)\<rparr>\<rparr>))"

lemma cut_frame_simps:
  assumes "bs_wf (cbs_stream c)" and "n \<le> buffer_write_offset (cbs_stream c)"
  shows "bs_wf (cbs_stream (cut_frame d n c))"
    and "bs_contents (cbs_stream (cut_frame d n c)) = drop n (bs_contents (cbs_stream c))"
    and "frozen (cut_frame d n c) = frozen c"
    and "received_data_per_condition c d = Some q \<Longrightarrow>
      received_data_per_condition (cut_frame d n c) = (received_data_per_condition c)
        (d \<mapsto> q @ [take n (bs_contents (cbs_stream c))])"
  using popped_spec [OF assms refl] by (simp_all add: cut_frame_def push_frame_def Let_def frozen_def)

lemma on_stream_pop:
  assumes "bs_wf (cbs_stream c)" and "n \<le> buffer_write_offset (cbs_stream c)"
  shows "(case on_stream (PopFromBuffer n) (c, p) of (Inl e, cq) \<Rightarrow> f e cq
      | (Inr x, cq) \<Rightarrow> g x (push_frame d x (fst cq), snd cq)) =
    g (take n (bs_contents (cbs_stream c))) (cut_frame d n c, p)"
  using assms by (simp add: on_stream_def PopFromBuffer_spec cut_frame_def Let_def)

text \<open>One delimiter handler of the loop; its buffer may be shorter than \<open>data\<close>.\<close>

lemma handler_step:
  assumes "bs_wf (cbs_stream c)" and "length data < 2 ^ 31 - 1"
  shows "process_handlers k data (delimiter_handler \<delta> d # hs) (c, p) =
    (let n = find_index \<delta> data + 1 in
     if \<delta> \<notin> set data then process_handlers k data hs (c, p)
     else if buffer_write_offset (cbs_stream c) < n then
       (Inl (Out_Of_Range (pop_error_text n (buffer_write_offset (cbs_stream c)))), (c, p))
     else case post_event k d (cut_frame d n c, p) of
         (Inl e, cq) \<Rightarrow> (Inl e, cq)
       | (Inr _, cq) \<Rightarrow>
           (case processDataSendSignals k (drop n data) cq of
              (Inl e, cr) \<Rightarrow> (Inl e, cr)
            | (Inr _, cr) \<Rightarrow> process_handlers k data hs cr))"
proof (cases "\<delta> \<in> set data")
  case False
  with assms show ?thesis
    by (simp add: process_handlers.simps(2) getDelimiterCondition_absent Let_def INT_MIN_def)
next
  case True
  note small = getDelimiterCondition_small [OF assms(2) True]
  have "find_index \<delta> data < length data" using True by (simp add: find_index_less_iff)
  with assms True small show ?thesis
    by (simp add: process_handlers.simps(2) [of k data] Let_def signal_frame_def on_stream_pop
        on_stream_def PopFromBuffer_spec cut_frame_def split: sum.split prod.split)
qed

lemma delimiter_step:
  assumes "buffer_event_handlers c = [delimiter_handler \<delta> d]" and "bs_wf (cbs_stream c)"
    and "bs_contents (cbs_stream c) = data" and "length data < 2 ^ 31 - 1"
  shows "processDataSendSignals k data (c, p) =
    (if \<delta> \<notin> set data then (Inr (), (c, p))
     else let n = find_index \<delta> data + 1 in
       case post_event k d (cut_frame d n c, p) of
         (Inl e, cq) \<Rightarrow> (Inl e, cq)
       | (Inr _, cq) \<Rightarrow> processDataSendSignals k (drop n data) cq)"
proof (cases "\<delta> \<in> set data")
  case False
  with assms handler_step [OF assms(2,4), of k \<delta> d "[]" p] show ?thesis
    by (simp add: processDataSendSignals.simps process_handlers.simps(1) Let_def)
next
  case True
  have "find_index \<delta> data < length data" using True by (simp add: find_index_less_iff)
  moreover have "length data = buffer_write_offset (cbs_stream c)"
    using assms(2,3) by auto
  moreover from True have "data \<noteq> []" by auto
  ultimately show ?thesis
    using assms True handler_step [OF assms(2,4), of k \<delta> d "[]" p]
    by (simp add: processDataSendSignals.simps [of k data] process_handlers.simps(1) Let_def
        split: sum.split prod.split)
qed

text \<open>
  The posts that framing makes: one for each of the \<open>n\<close> frames when it returns, with no delimiter left
  in the \<open>rest\<close>; when it throws, the post of one of the frames was refused.
\<close>

definition frame_posts ::
    "kernel \<Rightarrow> char \<Rightarrow> fd \<Rightarrow> nat \<Rightarrow> char list \<Rightarrow> history \<Rightarrow> error + unit \<Rightarrow> history \<Rightarrow> bool" where
  "frame_posts k \<delta> d n rest h r h' =
    (case r of
       Inr _ \<Rightarrow> \<delta> \<notin> set rest \<and> efd_count d h' = map_option (\<lambda>c. c + int n) (efd_count d h)
     | Inl e \<Rightarrow> \<exists>err g j. e = socket_exception SOCKET_WRITE err (-1) \<and> k_eventfd_write k g d 1 = Inl err \<and>
         j < n \<and> efd_count d g = map_option (\<lambda>c. c + int j) (efd_count d h))"

lemma frame_posts_Suc:
  assumes "frame_posts k \<delta> d n rest (h @ [Ev_Eventfd_Write d 1 (Inr ())]) r h'"
  shows "frame_posts k \<delta> d (Suc n) rest h r h'"
proof (cases r)
  case (Inl e)
  with assms obtain err g j where "e = socket_exception SOCKET_WRITE err (-1)" "k_eventfd_write k g d 1 = Inl err"
    "j < n" "efd_count d g = map_option (\<lambda>c. c + int j) (efd_count d (h @ [Ev_Eventfd_Write d 1 (Inr ())]))"
    by (auto simp: frame_posts_def)
  with Inl show ?thesis
    by (auto simp: frame_posts_def option.map_comp o_def add.commute add.left_commute
        intro!: exI [of _ err] exI [of _ g] exI [of _ "Suc j"])
qed (use assms in \<open>auto simp: frame_posts_def option.map_comp o_def add.assoc\<close>)

lemma frame_posts_refused:
  "k_eventfd_write k h d 1 = Inl err \<Longrightarrow>
   frame_posts k \<delta> d 1 rest h (Inl (socket_exception SOCKET_WRITE err (-1))) h'"
  by (auto simp: frame_posts_def option.map_ident intro!: exI [of _ h] exI [of _ "0 :: nat"])

lemma frames_posts_spec:
  assumes "buffer_event_handlers c = [delimiter_handler \<delta> d]" and "bs_wf (cbs_stream c)"
    and "bs_contents (cbs_stream c) = data" and "length data < 2 ^ 31 - 1"
    and "received_data_per_condition c d = Some q"
    and "processDataSendSignals k data (c, p) = (r, (c', p'))"
  shows "\<exists>frames rest. data = concat frames @ rest \<and> (\<forall>f \<in> set frames. delimited \<delta> f) \<and>
    bs_wf (cbs_stream c') \<and> bs_contents (cbs_stream c') = rest \<and>
    received_data_per_condition c' = (received_data_per_condition c)(d \<mapsto> q @ frames) \<and> frozen c' = frozen c \<and>
    (\<forall>e. received e (history p') = received e (history p)) \<and>
    frame_posts k \<delta> d (length frames) rest (history p) r (history p')"
  using assms
proof (induction "length data" arbitrary: data c p q rule: less_induct)
  case less
  note step = less.prems(6) [unfolded delimiter_step [OF less.prems(1-4)]]
  show ?case
  proof (cases "\<delta> \<in> set data")
    case False
    with step less.prems show ?thesis
      by (intro exI [of _ "[]"] exI [of _ data]) (auto simp: frame_posts_def option.map_ident map_upd_triv)
  next
    case True
    let ?n = "find_index \<delta> data + 1"
    let ?c = "cut_frame d ?n c" and ?f = "take ?n data"
    have n: "find_index \<delta> data < length data" using True by (simp add: find_index_less_iff)
    have off: "?n \<le> buffer_write_offset (cbs_stream c)" using n less.prems(2,3) by auto
    note cut = cut_frame_simps [OF less.prems(2) off, of d, unfolded less.prems(3)]
    note delim = delimited_take [OF True]
    obtain v cq where post: "post_event k d (?c, p) = (v, cq)" by (meson surj_pair)
    then show ?thesis
    proof (cases rule: post_event_cases)
      case (refused e)
      with step True post have "r = Inl (socket_exception SOCKET_WRITE e (-1))"
        and "c' = ?c" and "p' = log_failure (Ev_Eventfd_Write d 1 (Inl e)) e p"
        by (simp_all add: Let_def)
      with frame_posts_refused [OF refused(3)] cut delim less.prems(5) show ?thesis
        by (intro exI [of _ "[?f]"] exI [of _ "drop ?n data"]) auto
    next
      case posted
      let ?p = "log_event (Ev_Eventfd_Write d 1 (Inr ())) p"
      have rest: "processDataSendSignals k (drop ?n data) (?c, ?p) = (r, (c', p'))"
        using step True post posted by (simp add: Let_def)
      have handlers: "buffer_event_handlers ?c = [delimiter_handler \<delta> d]"
        using cut(3) less.prems(1) by (simp add: frozen_def)
      have shorter: "length (drop ?n data) < length data" using n by simp
      then have "length (drop ?n data) < 2 ^ 31 - 1" using less.prems(4) by simp
      from less.hyps [OF shorter handlers cut(1) cut(2) this _ rest, of "q @ [?f]"] cut(4) [OF less.prems(5)]
      obtain frames rest where "drop ?n data = concat frames @ rest"
        "\<forall>f \<in> set frames. delimited \<delta> f" "bs_wf (cbs_stream c')" "bs_contents (cbs_stream c') = rest"
        "received_data_per_condition c' = (received_data_per_condition c)(d \<mapsto> (q @ [?f]) @ frames)" "frozen c' = frozen ?c"
        "\<forall>e. received e (history p') = received e (history ?p)"
        "frame_posts k \<delta> d (length frames) rest (history ?p) r (history p')" by auto
      moreover from this(1) have "data = concat (?f # frames) @ rest"
        using append_take_drop_id [of ?n data] by simp
      ultimately show ?thesis
        using delim cut(3) by (intro exI [of _ "?f # frames"] exI [of _ rest]) (auto intro: frame_posts_Suc)
    qed
  qed
qed

lemmas frames_spec = frames_posts_spec [unfolded frame_posts_def]

end
