(* ===== verification/Conditional_Frames.thy ===== *)
theory Conditional_Frames
  imports Conditional_Stream
begin

text \<open>
  What a \<open>ConditionalBufferedStream\<close> with one delimiter condition delivers: the frames that one
  call of \<open>processDataSendSignals\<close> cuts, the ledger that every round of the worker and every
  call of the client keeps, and why the worker's loop ends.
\<close>

subsection \<open>When the descriptor accepts the posts\<close>

lemma length_concat_ge: "\<forall>f \<in> set fs. f \<noteq> [] \<Longrightarrow> length fs \<le> length (concat fs)"
proof (induction fs)
  case (Cons f fs)
  then show ?case by (cases f) auto
qed simp

lemma frames_posted:
  assumes "eventfd_writable k"
    and "buffer_event_handlers c = [delimiter_handler \<delta> d]" and "bs_wf (cbs_stream c)"
    and "bs_contents (cbs_stream c) = data" and "length data < 2 ^ 31 - 1"
    and "received_data_per_condition c d = Some q"
    and "efd_count d (history p) = Some n" and "n + int (length data) < 2 ^ 64 - 1"
  shows "\<exists>frames rest c' p'. processDataSendSignals k data (c, p) = (Inr (), (c', p')) \<and>
    data = concat frames @ rest \<and> (\<forall>f \<in> set frames. delimited \<delta> f) \<and> \<delta> \<notin> set rest \<and>
    bs_contents (cbs_stream c') = rest \<and>
    received_data_per_condition c' = (received_data_per_condition c)(d \<mapsto> q @ frames) \<and>
    efd_count d (history p') = Some (n + int (length frames))"
proof -
  obtain r c' p' where run: "processDataSendSignals k data (c, p) = (r, (c', p'))"
    by (metis prod_cases3)
  note spec = frames_spec [OF assms(2-6) run]
  have "r = Inr ()"
  proof (cases r)
    case (Inl e)
    with spec assms(7) obtain frames rest err h j where bad: "k_eventfd_write k h d 1 = Inl err"
      "j < length frames" "efd_count d h = Some (n + int j)" "data = concat frames @ rest"
      "\<forall>f \<in> set frames. delimited \<delta> f" by auto
    have "length frames \<le> length (concat frames)"
      using bad(5) by (intro length_concat_ge) (auto simp: delimited_def)
    then have "n + int j + uint (1 :: 64 word) < 2 ^ 64 - 1"
      using assms(8) bad(2,4) by simp
    then have "k_eventfd_write k h d 1 = Inr ()"
      using assms(1) bad(3) unfolding eventfd_writable_def by blast
    with bad(1) show ?thesis by simp
  qed simp
  with run spec assms(7) show ?thesis by auto
qed

text \<open>
  With one delimiter condition, \<open>processDataSendSignals\<close> cuts the buffer into all its
  complete frames: the buffer was the frames one after the other followed by the rest; every
  frame ends in the delimiter and contains it nowhere else; the rest has no delimiter and stays
  in the buffer; the frames are appended to the condition's queue in order, and the condition's
  \<open>eventfd\<close> is posted exactly once per frame.
\<close>

theorem processDataSendSignals_frames:
  assumes "eventfd_writable k"
    and "buffer_event_handlers c = [delimiter_handler \<delta> d]" and "bs_wf (cbs_stream c)"
    and "bs_contents (cbs_stream c) = data" and "length data < 2 ^ 31 - 1"
    and "received_data_per_condition c d = Some q"
    and "efd_count d (history p) = Some n" and "n + int (length data) < 2 ^ 64 - 1"
  shows "\<exists>frames rest c' p'. processDataSendSignals k data (c, p) = (Inr (), (c', p')) \<and>
    data = concat frames @ rest \<and> (\<forall>f \<in> set frames. delimited \<delta> f) \<and> \<delta> \<notin> set rest \<and>
    bs_contents (cbs_stream c') = rest \<and>
    received_data_per_condition c' = (received_data_per_condition c)(d \<mapsto> q @ frames) \<and>
    efd_count d (history p') = Some (n + int (length frames))"
  using assms by (rule frames_posted)

text \<open>A stream on descriptor 5 whose peer sends two lines and the start of a third.\<close>

definition demo_lines :: script where
  "demo_lines = demo_script\<lparr>input := (\<lambda>d. if d = 5 then ''a;bc;d'' else []), chunk := 4\<rparr>"

definition demo_conditional :: ConditionalBufferedStream where
  "demo_conditional = (fst (ConditionalBufferedStream_construct demo_buffered))
     \<lparr>buffer_event_handlers := [delimiter_handler (CHR '';'') 7],
      received_data_per_condition := [7 \<mapsto> []]\<rparr>"

definition demo_filled :: ConditionalBufferedStream where
  "demo_filled = demo_conditional\<lparr>cbs_stream := (cbs_stream demo_conditional)
     \<lparr>stream_buffer := Some ''a;bc;d..'', buffer_write_offset := 6\<rparr>\<rparr>"

definition demo_conditional_process :: process where
  "demo_conditional_process = \<lparr>history = [Ev_Eventfd (Inr 6), Ev_Eventfd (Inr 7)], errno = 0\<rparr>"

theorem processDataSendSignals_frames_witness:
  "\<exists>frames rest c' p'. processDataSendSignals (reference_kernel demo_lines) ''a;bc;d''
      (demo_filled, demo_conditional_process) = (Inr (), (c', p')) \<and>
    ''a;bc;d'' = concat frames @ rest \<and> CHR '';'' \<notin> set rest \<and>
    received_data_per_condition c' 7 = Some frames"
proof -
  have "buffer_event_handlers demo_filled = [delimiter_handler (CHR '';'') 7]"
    and "bs_wf (cbs_stream demo_filled)" and "bs_contents (cbs_stream demo_filled) = ''a;bc;d''"
    and "received_data_per_condition demo_filled 7 = Some []"
    and "efd_count 7 (history demo_conditional_process) = Some 0"
    by (simp_all add: demo_filled_def demo_conditional_def demo_buffered_def
        BufferedStream_construct_def Stream_move_def ConditionalBufferedStream_construct_def
        BufferedStream_move_def bs_wf_def bs_contents_def demo_conditional_process_def)
  from processDataSendSignals_frames [OF reference_eventfd_writable this(1-3) _ this(4,5)]
  show ?thesis by fastforce
qed

section \<open>The ledger of frames\<close>

text \<open>
  With one delimiter condition: everything the socket delivered, after the bytes \<open>base\<close> that had come
  on its descriptor before, is the frames the client took, the frames in the queue, and the bytes
  in the buffer; all of the frames are delimited.
\<close>

definition frame_ledger :: "char list \<Rightarrow> char \<Rightarrow> fd \<Rightarrow> char list list \<Rightarrow> cbs_state \<Rightarrow> bool" where
  "frame_ledger base \<delta> d taken cp =
     (buffer_event_handlers (fst cp) = [delimiter_handler \<delta> d] \<and>
      bs_wf (cbs_stream (fst cp)) \<and> stream_buffer_size (cbs_stream (fst cp)) < 2 ^ 31 - 1 \<and>
      (\<forall>f \<in> set taken. delimited \<delta> f) \<and>
      (\<exists>q. received_data_per_condition (fst cp) = [d \<mapsto> q] \<and> (\<forall>f \<in> set q. delimited \<delta> f) \<and>
        received (bs_fd (cbs_stream (fst cp))) (history (snd cp)) =
          base @ concat taken @ concat q @ bs_contents (cbs_stream (fst cp))))"

lemma on_stream_readAvailable:
  assumes "read_bounded k" and "frame_ledger base \<delta> d taken cp"
    and "on_stream (readAvailableDataIntoBuffer k t) cp = (r, cq)"
  shows "frame_ledger base \<delta> d taken cq \<and> frozen (fst cq) = frozen (fst cp)"
proof -
  obtain v b q where run: "readAvailableDataIntoBuffer k t (cbs_stream (fst cp), snd cp) = (v, (b, q))"
    by (metis prod_cases3)
  from readAvailable_spec [OF assms(1) _ run] assms(2,3) run show ?thesis
    by (auto simp: on_stream_def frame_ledger_def frozen_def)
qed

lemma process_ledger:
  assumes "frame_ledger base \<delta> d taken (c, p)"
    and "processDataSendSignals k (bs_contents (cbs_stream c)) (c, p) = (r, (c', p'))"
  shows "frame_ledger base \<delta> d taken (c', p') \<and> frozen c' = frozen c"
proof -
  from assms(1) obtain q where led: "buffer_event_handlers c = [delimiter_handler \<delta> d]"
      "bs_wf (cbs_stream c)" "stream_buffer_size (cbs_stream c) < 2 ^ 31 - 1"
      "received_data_per_condition c = [d \<mapsto> q]" "\<forall>f \<in> set q. delimited \<delta> f"
      "received (bs_fd (cbs_stream c)) (history p) =
        base @ concat taken @ concat q @ bs_contents (cbs_stream c)"
    by (auto simp: frame_ledger_def)
  have "length (bs_contents (cbs_stream c)) < 2 ^ 31 - 1"
    using led(2,3) by (auto elim: bs_wfE)
  from frames_spec [OF led(1,2) refl this _ assms(2), of q] led(4) obtain frames where
    "bs_contents (cbs_stream c) = concat frames @ bs_contents (cbs_stream c')"
    "\<forall>f \<in> set frames. delimited \<delta> f" "bs_wf (cbs_stream c')" "frozen c' = frozen c"
    "received_data_per_condition c' = [d \<mapsto> q @ frames]"
    "received (bs_fd (cbs_stream c)) (history p') = received (bs_fd (cbs_stream c)) (history p)"
    by auto
  with led assms(1) show ?thesis
    by (auto simp: frame_ledger_def frozen_def intro!: exI [of _ "q @ frames"])
qed

lemma worker_round_ledger:
  assumes "read_bounded k" and "frame_ledger base \<delta> d taken cp" and "worker_round k cp = (r, cq)"
  shows "frame_ledger base \<delta> d taken cq \<and> frozen (fst cq) = frozen (fst cp)"
proof -
  obtain v c p where first: "on_stream (readAvailableDataIntoBuffer k (-1)) cp = (v, (c, p))"
    by (metis prod_cases3)
  note led = on_stream_readAvailable [OF assms(1,2) first]
  then obtain m where m: "stream_buffer (cbs_stream c) = Some m"
    "bs_contents (cbs_stream c) = take (buffer_write_offset (cbs_stream c)) m"
    by (auto simp: frame_ledger_def elim: bs_wfE)
  show ?thesis
  proof (cases v)
    case (Inl e)
    with assms(3) first led show ?thesis by (auto simp: worker_round_def)
  next
    case (Inr n)
    with assms(3) first m
    have "processDataSendSignals k (bs_contents (cbs_stream c)) (c, p) = (r, (fst cq, snd cq))"
      by (simp add: worker_round_def)
    from process_ledger [OF _ this] led show ?thesis by auto
  qed
qed


text \<open>
  The calls of a client and the rounds of the worker, in any order. A call hands out at most
  one frame.
\<close>

datatype cbs_call =
    Worker_Round
  | Call_Frame fd
  | Call_Blocking fd int
  | Call_Send "char list"
  | Call_Stop

definition cbs_exec :: "kernel \<Rightarrow> cbs_call \<Rightarrow> (cbs_state, error, char list list) action" where
  "cbs_exec k x cp = (case x of
      Worker_Round \<Rightarrow> bindA (worker_round k) (\<lambda>_. ret []) cp
    | Call_Frame e \<Rightarrow>
        (let (r, c) = ConditionalBufferedStream_read e (fst cp) in (map_sum id (\<lambda>f. [f]) r, (c, snd cp)))
    | Call_Blocking e t \<Rightarrow> bindA (readBlocking k e t) (\<lambda>f. ret [f]) cp
    | Call_Send bs \<Rightarrow> bindA (ConditionalBufferedStream_write k bs) (\<lambda>_. ret []) cp
    | Call_Stop \<Rightarrow> bindA (ConditionalBufferedStream_stopReads k) (\<lambda>_. ret []) cp)"

fun cbs_run :: "kernel \<Rightarrow> cbs_call list \<Rightarrow> char list list \<Rightarrow> cbs_state \<Rightarrow> char list list \<times> cbs_state" where
  "cbs_run k [] taken cp = (taken, cp)"
| "cbs_run k (x # xs) taken cp =
     (case cbs_exec k x cp of
        (Inl e, cq) \<Rightarrow> cbs_run k xs taken cq
      | (Inr fs, cq) \<Rightarrow> cbs_run k xs (taken @ fs) cq)"

lemma frame_read_ledger:
  assumes "frame_ledger base \<delta> d taken (c, p)" and "ConditionalBufferedStream_read e c = (r, c')"
    and "\<forall>a. received a (history p') = received a (history p)"
  shows "frame_ledger base \<delta> d (case r of Inr f \<Rightarrow> taken @ [f] | Inl _ \<Rightarrow> taken) (c', p')"
proof -
  from assms(1) obtain q where led: "buffer_event_handlers c = [delimiter_handler \<delta> d]"
      "bs_wf (cbs_stream c)" "stream_buffer_size (cbs_stream c) < 2 ^ 31 - 1"
      "received_data_per_condition c = [d \<mapsto> q]" "\<forall>f \<in> set q. delimited \<delta> f"
      "\<forall>f \<in> set taken. delimited \<delta> f"
      "received (bs_fd (cbs_stream c)) (history p) =
        base @ concat taken @ concat q @ bs_contents (cbs_stream c)"
    by (auto simp: frame_ledger_def)
  show ?thesis
  proof (cases "e = d \<and> q \<noteq> []")
    case True
    then obtain f q' where q: "e = d" "q = f # q'" by (cases q) auto
    with assms(2) led(4) have "r = Inr f" and "c' = c\<lparr>received_data_per_condition := [d \<mapsto> q']\<rparr>"
      by (simp_all add: ConditionalBufferedStream_read_def)
    with led q assms(3) show ?thesis by (auto simp: frame_ledger_def)
  next
    case False
    with assms(2) led(4) obtain err where "r = Inl err" and "c' = c"
      by (cases "e = d") (auto simp: ConditionalBufferedStream_read_def split: if_splits)
    with led assms(3) show ?thesis by (auto simp: frame_ledger_def)
  qed
qed

lemma ledger_same_stream:
  assumes "frame_ledger base \<delta> d taken (c, p)"
    and "c' = c \<or> c' = c\<lparr>termination_requested := True\<rparr>"
    and "\<And>a. received a (history p') = received a (history p)"
  shows "frame_ledger base \<delta> d taken (c', p')"
  using assms by (auto simp: frame_ledger_def)

lemma sys_poll_received: "sys_poll k ds t p = (r, q) \<Longrightarrow> received a (history q) = received a (history p)"
  by (auto simp: sys_poll_def syscall_def split: sum.splits)

lemma sys_eventfd_read_received:
  "received a (history (snd (sys_eventfd_read k d p))) = received a (history p)"
  by (auto simp: sys_eventfd_read_def syscall_def split: sum.splits)

lemma readBlocking_ledger:
  assumes "frame_ledger base \<delta> d taken cp" and "readBlocking k e t cp = (r, cq)"
  shows "frame_ledger base \<delta> d (case r of Inr f \<Rightarrow> taken @ [f] | Inl _ \<Rightarrow> taken) cq"
proof -
  obtain v q where poll: "sys_poll k [e] t (snd cp) = (v, q)" by (meson surj_pair)
  obtain w c where read: "ConditionalBufferedStream_read e (fst cp) = (w, c)" by (meson surj_pair)
  have same: "received a (history q) = received a (history (snd cp))" for a
    using sys_poll_received [OF poll] .
  have led: "frame_ledger base \<delta> d taken (fst cp, q)"
    using assms(1) same by (simp add: frame_ledger_def)
  have "frame_ledger base \<delta> d (case w of Inr f \<Rightarrow> taken @ [f] | Inl _ \<Rightarrow> taken) (c, snd (sys_eventfd_read k e q))"
    using led read by (rule frame_read_ledger) (simp add: sys_eventfd_read_received)
  with assms(2) poll read led show ?thesis
    by (auto simp: readBlocking_def Let_def split: if_splits)
qed

lemma cbs_exec_ledger:
  assumes "read_bounded k" and "frame_ledger base \<delta> d taken cp" and "cbs_exec k x cp = (r, cq)"
  shows "frame_ledger base \<delta> d (case r of Inr fs \<Rightarrow> taken @ fs | Inl _ \<Rightarrow> taken) cq"
proof (cases x)
  case Worker_Round
  with assms(3) worker_round_ledger [OF assms(1,2)] show ?thesis
    by (auto simp: cbs_exec_def bindA_def split: prod.splits sum.splits)
next
  case (Call_Frame e)
  obtain w c where read: "ConditionalBufferedStream_read e (fst cp) = (w, c)" by (meson surj_pair)
  from frame_read_ledger [OF _ read, of base \<delta> d taken "snd cp" "snd cp"] assms(2,3) Call_Frame read
  show ?thesis by (cases w) (auto simp: cbs_exec_def)
next
  case (Call_Blocking e t)
  obtain w c where read: "readBlocking k e t cp = (w, c)" by (meson surj_pair)
  from readBlocking_ledger [OF assms(2) read] assms(3) Call_Blocking read
  show ?thesis by (cases w) (auto simp: cbs_exec_def bindA_def)
next
  case (Call_Send bs)
  obtain c p where cp: "cp = (c, p)" by fastforce
  obtain w q where sent: "Stream_write k (bs_stream (cbs_stream c)) bs 2 p = (w, q)"
    by (meson surj_pair)
  with Call_Send assms(3) cp have "cq = (c, q)" and "\<And>fs. r = Inr fs \<Longrightarrow> fs = []"
    by (cases w; simp add: cbs_exec_def bindA_def ConditionalBufferedStream_write_def on_stream_def
        BufferedStream_write_def)+
  with ledger_same_stream [OF assms(2) [unfolded cp], of c q] Stream_write_received [OF sent]
  show ?thesis by (auto split: sum.split)
next
  case Call_Stop
  obtain c p where cp: "cp = (c, p)" by fastforce
  obtain w q where stopped: "Stream_stopReads k (bs_stream (cbs_stream c)) p = (w, q)"
    by (meson surj_pair)
  with Call_Stop assms(3) cp have "cq = (c\<lparr>termination_requested := True\<rparr>, q)"
    and "\<And>fs. r = Inr fs \<Longrightarrow> fs = []"
    by (cases w; simp add: cbs_exec_def bindA_def ConditionalBufferedStream_stopReads_def on_stream_def
        BufferedStream_stopReads_def)+
  with ledger_same_stream [OF assms(2) [unfolded cp], of "c\<lparr>termination_requested := True\<rparr>" q]
    Stream_stopReads_received [OF stopped]
  show ?thesis by (auto split: sum.split)
qed

lemma cbs_run_ledger:
  assumes "read_bounded k" and "frame_ledger base \<delta> d taken cp" and "cbs_run k xs taken cp = (out, cq)"
  shows "frame_ledger base \<delta> d out cq"
  using assms(2,3)
proof (induction xs arbitrary: taken cp)
  case (Cons x xs)
  obtain r cr where step: "cbs_exec k x cp = (r, cr)" by (meson surj_pair)
  from cbs_exec_ledger [OF assms(1) Cons.prems(1) step] Cons step show ?case
    by (auto split: sum.splits)
qed simp

lemma fresh_ledger:
  assumes "stream_buffer_size b < 2 ^ 31 - 1" and "bs_wf b" and "buffer_write_offset b = 0"
    and "createEventfdOnCondition l k (getDelimiterCondition \<delta>)
      (fst (ConditionalBufferedStream_construct b), p) = (Inr d, cp)"
  shows "frame_ledger (received (bs_fd b) (history p)) \<delta> d [] cp"
proof -
  have "bs_contents b = []" using assms(2,3) by (auto elim: bs_wfE)
  with assms show ?thesis
    by (auto simp: createEventfdOnCondition_def sys_eventfd_def syscall_def frame_ledger_def
        ConditionalBufferedStream_construct_def BufferedStream_move_def Stream_move_def bs_wf_def
        bs_contents_def split: sum.splits option.splits)
qed

text \<open>
  C1: frame integrity. Construct a \<open>ConditionalBufferedStream\<close> over a new \<open>BufferedStream\<close>
  (of fewer than \<open>2 ^ 31 - 1\<close> bytes), add one delimiter condition, and let rounds of the worker
  and calls of the client happen in any order, with any exceptions. The frames the client got,
  in the order it got them, followed by the queued frames and by the bytes in the buffer, are
  exactly the bytes the socket delivered since, and every frame ends in its only delimiter.
\<close>

theorem ConditionalBufferedStream_integrity:
  assumes "read_bounded k" and "buffer_size < 2 ^ 31 - 1"
    and "createEventfdOnCondition l k (getDelimiterCondition \<delta>)
      (fst (ConditionalBufferedStream_construct (fst (BufferedStream_construct s buffer_size))), p) = (Inr d, cp)"
    and "cbs_run k calls [] cp = (frames, (c', p'))"
  shows "\<exists>queue. received_data_per_condition c' = [d \<mapsto> queue] \<and>
    received (bs_fd (cbs_stream c')) (history p') =
      received (stream_file_descriptor s) (history p) @ concat frames @ concat queue @ bs_contents (cbs_stream c') \<and>
    (\<forall>f \<in> set (frames @ queue). delimited \<delta> f) \<and> bs_wf (cbs_stream c')"
proof -
  let ?b = "fst (BufferedStream_construct s buffer_size)"
  have "frame_ledger (received (bs_fd ?b) (history p)) \<delta> d [] cp"
    using assms(2) by (intro fresh_ledger [OF _ _ _ assms(3)])
      (simp_all add: BufferedStream_construct_def Stream_move_def bs_wf_def)
  moreover have "bs_fd ?b = stream_file_descriptor s" by (simp add: BufferedStream_construct_def Stream_move_def)
  ultimately have "frame_ledger (received (stream_file_descriptor s) (history p)) \<delta> d [] cp" by simp
  from cbs_run_ledger [OF assms(1) this assms(4)] show ?thesis
    by (auto simp: frame_ledger_def)
qed


definition demo_frame_calls :: "cbs_call list" where
  "demo_frame_calls = [Worker_Round, Call_Frame 7, Worker_Round, Call_Blocking 7 (-1), Call_Frame 7,
     Call_Stop]"

theorem ConditionalBufferedStream_integrity_witness:
  "let (frames, (c', p')) = cbs_run (reference_kernel demo_lines) demo_frame_calls []
       (demo_conditional, demo_conditional_process)
   in \<exists>queue. received_data_per_condition c' = [7 \<mapsto> queue] \<and>
     received (bs_fd (cbs_stream c')) (history p') =
       concat frames @ concat queue @ bs_contents (cbs_stream c')"
proof -
  let ?k = "reference_kernel demo_lines"
  have "k_eventfd ?k (history demo_process) = Inr 7" by code_simp
  then have "createEventfdOnCondition reference_libc ?k (getDelimiterCondition (CHR '';''))
      (fst (ConditionalBufferedStream_construct (fst (BufferedStream_construct demo_stream 8))),
       demo_process) = (Inr 7, (demo_conditional, demo_conditional_process))"
    by (simp add: createEventfdOnCondition_def sys_eventfd_def demo_process_def
        demo_conditional_process_def demo_conditional_def demo_buffered_def
        ConditionalBufferedStream_construct_def case_prod_unfold Let_def)
  moreover have "received (stream_file_descriptor demo_stream) (history demo_process) = []"
    by code_simp
  ultimately show ?thesis
    using ConditionalBufferedStream_integrity [of ?k 8 reference_libc "CHR '';''" demo_stream demo_process 7 "(demo_conditional, demo_conditional_process)" demo_frame_calls]
    by (fastforce split: prod.splits)
qed

section \<open>The worker ends when the stream does\<close>

text \<open>
  A peer that sends at most \<open>N\<close> bytes on descriptor \<open>d\<close>: no read delivers bytes beyond them.
\<close>

definition finite_input :: "kernel \<Rightarrow> fd \<Rightarrow> nat \<Rightarrow> bool" where
  "finite_input k d N =
     (\<forall>h n bs. k_read k h d n = Inr bs \<longrightarrow> bs \<noteq> [] \<longrightarrow> length (received d h) + length bs \<le> N)"

lemma reference_finite_input: "finite_input (reference_kernel sc) d (length (input sc d))"
  by (auto simp: finite_input_def reference_kernel_def reference_read_def Let_def split: if_splits)

lemma Stream_read_one_finite:
  assumes "finite_input k (stream_file_descriptor s) N"
    and "Stream_read_loop k s off room 1 t 0 (m, p) = (Inr n, (m', p'))"
  shows "length (received (stream_file_descriptor s) (history p)) <
      length (received (stream_file_descriptor s) (history p')) \<and>
    length (received (stream_file_descriptor s) (history p')) \<le> N"
  using assms(2)
proof (cases rule: Stream_read_loop_cases)
  case (more rs bs)
  from more(6) have "p' = log_event (Ev_Read (stream_file_descriptor s) (size_minus room 0) (Inr bs))
      (log_event (Ev_Poll (read_fds s) t (Inr rs)) p)"
  proof (cases rule: Stream_read_loop_cases)
    case finished
    then show ?thesis by simp
  qed (use more(4) in \<open>auto simp: neq_Nil_conv\<close>)
  with more(4,5) assms(1) show ?thesis by (fastforce simp: finite_input_def)
qed simp_all

lemma readAvailable_finite:
  assumes "finite_input k (bs_fd b) N"
    and "readAvailableDataIntoBuffer k t (b, p) = (Inr n, (b', p'))"
  shows "length (received (bs_fd b) (history p)) < length (received (bs_fd b) (history p')) \<and>
    length (received (bs_fd b) (history p')) \<le> N"
  using assms(2) Stream_read_one_finite [OF assms(1)]
  by (fastforce simp: readAvailableDataIntoBuffer_def Stream_read_def Let_def
      split: option.splits prod.splits sum.splits)

lemma worker_round_finite:
  assumes "read_bounded k" and "finite_input k (bs_fd (cbs_stream (fst cp))) N"
    and "frame_ledger base \<delta> d taken cp" and "worker_round k cp = (Inr u, cq)"
  shows "length (received (bs_fd (cbs_stream (fst cp))) (history (snd cp))) <
      length (received (bs_fd (cbs_stream (fst cp))) (history (snd cq))) \<and>
    length (received (bs_fd (cbs_stream (fst cp))) (history (snd cq))) \<le> N"
proof -
  let ?b = "cbs_stream (fst cp)"
  obtain v b q where run: "readAvailableDataIntoBuffer k (-1) (?b, snd cp) = (v, (b, q))"
    by (metis prod_cases3)
  then have first: "on_stream (readAvailableDataIntoBuffer k (-1)) cp =
      (v, ((fst cp)\<lparr>cbs_stream := b\<rparr>, q))"
    by (simp add: on_stream_def)
  let ?c = "(fst cp)\<lparr>cbs_stream := b\<rparr>"
  note led = on_stream_readAvailable [OF assms(1,3) first]
  then obtain m where m: "stream_buffer b = Some m" "bs_contents b = take (buffer_write_offset b) m"
    by (auto simp: frame_ledger_def elim: bs_wfE)
  obtain n where n: "v = Inr n"
    using assms(4) first by (cases v) (auto simp: worker_round_def)
  have "processDataSendSignals k (bs_contents (cbs_stream ?c)) (?c, q) = (Inr u, (fst cq, snd cq))"
    using assms(4) first m n by (simp add: worker_round_def)
  moreover from led obtain qu where "buffer_event_handlers ?c = [delimiter_handler \<delta> d]"
      "bs_wf (cbs_stream ?c)" "length (bs_contents (cbs_stream ?c)) < 2 ^ 31 - 1"
      "received_data_per_condition ?c d = Some qu"
    by (auto simp: frame_ledger_def elim!: bs_wfE)
  ultimately have "received a (history (snd cq)) = received a (history q)" for a
    using frames_spec [of ?c \<delta> d _ qu k q "Inr u" "fst cq" "snd cq"] by blast
  with readAvailable_finite [OF assms(2) run [unfolded n]] show ?thesis by simp
qed

lemma worker_loop_ends:
  assumes "read_bounded k" and "finite_input k (bs_fd (cbs_stream (fst cp))) N"
    and "frame_ledger base \<delta> d taken cp"
  shows "\<exists>e cq. worker_loop k cp = Some (e, cq) \<and> frame_ledger base \<delta> d taken cq"
  using assms(2,3)
proof (induction "N - length (received (bs_fd (cbs_stream (fst cp))) (history (snd cp)))"
    arbitrary: cp rule: less_induct)
  case less
  obtain r cq where round: "worker_round k cp = (r, cq)" by (meson surj_pair)
  note led = worker_round_ledger [OF assms(1) less.prems(2) round]
  show ?case
  proof (cases r)
    case (Inl e)
    with round led show ?thesis by (simp add: worker_loop.simps)
  next
    case (Inr u)
    from led have same: "bs_fd (cbs_stream (fst cq)) = bs_fd (cbs_stream (fst cp))"
      by (simp add: frozen_def)
    from worker_round_finite [OF assms(1) less.prems round [unfolded Inr]]
    have "N - length (received (bs_fd (cbs_stream (fst cq))) (history (snd cq))) <
        N - length (received (bs_fd (cbs_stream (fst cp))) (history (snd cp)))"
      unfolding same by linarith
    from less.hyps [OF this] less.prems(1) led same round Inr show ?thesis
      by (simp add: worker_loop.simps [of k cp])
  qed
qed


lemma demo_frame_ledger: "frame_ledger [] (CHR '';'') 7 [] (demo_conditional, demo_conditional_process)"
  by (auto simp: frame_ledger_def demo_conditional_def demo_buffered_def
      ConditionalBufferedStream_construct_def BufferedStream_construct_def Stream_move_def
      BufferedStream_move_def bs_wf_def bs_contents_def demo_conditional_process_def
      intro!: exI [of _ "[]"])


end
