(* ===== verification/Conditional_Errors.thy ===== *)
theory Conditional_Errors
  imports Conditional_Frames
begin

text \<open>
  The other ends of a \<open>ConditionalBufferedStream\<close>: several conditions on one stream, how errors
  and termination requests reach the readers, the outcomes of \<open>readBlocking\<close>, the range of
  the delimiter condition, and destruction.
\<close>

section \<open>Several conditions\<close>

lemma post_event_ok:
  assumes "eventfd_writable k" and "efd_count d (history p) = Some n" and "n < 2 ^ 64 - 2"
  shows "post_event k d (c, p) = (Inr (), (c, log_event (Ev_Eventfd_Write d 1 (Inr ())) p))"
proof -
  have "n + uint (1 :: 64 word) < 2 ^ 64 - 1" using assms(3) by simp
  with assms(1,2) have "k_eventfd_write k (history p) d 1 = Inr ()"
    unfolding eventfd_writable_def by blast
  then show ?thesis
    by (simp add: post_event_def throw_errno_def sys_eventfd_write_def)
qed

lemma find_index_append: "d \<notin> set xs \<Longrightarrow> find_index d (xs @ d # ys) = length xs"
  by (induction xs) (auto simp: find_index_def)

text \<open>A buffer that is exactly one frame of the second of two conditions.\<close>

lemma second_condition_frame:
  assumes "eventfd_writable k" and "bs_wf (cbs_stream c)"
    and "buffer_event_handlers c = [delimiter_handler \<alpha> d, delimiter_handler \<beta> e]"
    and "bs_contents (cbs_stream c) = ys @ [\<beta>]" and "\<alpha> \<notin> set (ys @ [\<beta>])" and "\<beta> \<notin> set ys"
    and "length ys < 2 ^ 31 - 2" and "efd_count e (history p) = Some n" and "n < 2 ^ 64 - 2"
  shows "processDataSendSignals k (ys @ [\<beta>]) (c, p) =
    (Inr (), (cut_frame e (length ys + 1) c, log_event (Ev_Eventfd_Write e 1 (Inr ())) p))"
proof -
  have "buffer_write_offset (cbs_stream c) = length ys + 1"
    using length_bs_contents [OF assms(2)] assms(4) by simp
  moreover have "find_index \<beta> (ys @ [\<beta>]) = length ys"
    using assms(6) find_index_append [of \<beta> ys "[]"] by simp
  moreover have "post_event k e (cut_frame e (length ys + 1) c, p) =
      (Inr (), (cut_frame e (length ys + 1) c, log_event (Ev_Eventfd_Write e 1 (Inr ())) p))"
    using assms(1,8,9) by (rule post_event_ok)
  ultimately show ?thesis
    using assms(3,5,7) handler_step [OF assms(2), of "ys @ [\<beta>]" k \<alpha> d "[delimiter_handler \<beta> e]" p]
      handler_step [OF assms(2), of "ys @ [\<beta>]" k \<beta> e "[]" p]
    by (simp add: processDataSendSignals.simps [of k "ys @ [\<beta>]"] processDataSendSignals.simps [of k "[]"]
        process_handlers.simps(1) Let_def)
qed

text \<open>
  C36: two delimiter conditions on one stream end the program. When the buffer holds a frame of
  the first condition followed by a frame of the second, both frames are cut and queued, but the
  outer loop then shows the second condition the bytes as they were before: it asks for all of
  them again, the buffer is empty, and the \<open>std::out_of_range\<close> leaves the worker thread, which
  is \<open>std::terminate\<close>.
\<close>

theorem two_conditions_terminate:
  assumes "eventfd_writable k" and "bs_wf (cbs_stream c)"
    and "buffer_event_handlers c = [delimiter_handler \<alpha> d, delimiter_handler \<beta> e]"
    and "bs_contents (cbs_stream c) = xs @ \<alpha> # ys @ [\<beta>]"
    and "\<alpha> \<notin> set (xs @ ys @ [\<beta>])" and "\<beta> \<notin> set (xs @ ys)"
    and "length (xs @ ys) < 2 ^ 31 - 3" and "d \<noteq> e"
    and "efd_count d (history p) = Some m" and "m < 2 ^ 64 - 2"
    and "efd_count e (history p) = Some n" and "n < 2 ^ 64 - 2"
  shows "\<exists>ex c' p'. processDataSendSignals k (xs @ \<alpha> # ys @ [\<beta>]) (c, p) = (Inl (Out_Of_Range ex), (c', p')) \<and>
    bs_contents (cbs_stream c') = [] \<and> worker_catch k (Out_Of_Range ex) (c', p') = (Inl Terminate, (c', p'))"
proof -
  let ?data = "xs @ \<alpha> # ys @ [\<beta>]" and ?rest = "ys @ [\<beta>]"
  let ?c1 = "cut_frame d (length xs + 1) c"
  let ?p1 = "log_event (Ev_Eventfd_Write d 1 (Inr ())) p"
  let ?c2 = "cut_frame e (length ys + 1) ?c1"
  let ?p2 = "log_event (Ev_Eventfd_Write e 1 (Inr ())) ?p1"
  have off: "buffer_write_offset (cbs_stream c) = length xs + length ys + 2"
    using length_bs_contents [OF assms(2)] assms(4) by simp
  then have "length xs + 1 \<le> buffer_write_offset (cbs_stream c)" by simp
  note cut1 = cut_frame_simps [OF assms(2) this, of d]
  have c1: "bs_contents (cbs_stream ?c1) = ?rest" using cut1(2) assms(4) by simp
  then have off1: "buffer_write_offset (cbs_stream ?c1) = length ys + 1"
    using length_bs_contents [OF cut1(1)] by simp
  then have "length ys + 1 \<le> buffer_write_offset (cbs_stream ?c1)" by simp
  note cut2 = cut_frame_simps [OF cut1(1) this, of e]
  have c2: "bs_contents (cbs_stream ?c2) = []" using cut2(2) c1 by simp
  then have off2: "buffer_write_offset (cbs_stream ?c2) = 0"
    using length_bs_contents [OF cut2(1)] by simp
  have pos: "find_index \<alpha> ?data = length xs" "find_index \<beta> ?rest = length ys"
    "find_index \<beta> ?data = length (xs @ \<alpha> # ys)"
    using assms(5,6) find_index_append [of \<alpha> xs ?rest] find_index_append [of \<beta> ys "[]"]
      find_index_append [of \<beta> "xs @ \<alpha> # ys" "[]"] by auto
  have handlers1: "buffer_event_handlers ?c1 = [delimiter_handler \<alpha> d, delimiter_handler \<beta> e]"
    using cut1(3) assms(3) by (simp add: frozen_def)
  have post1: "post_event k d (?c1, p) = (Inr (), (?c1, ?p1))"
    using assms(1,9,10) by (rule post_event_ok)
  have inner: "processDataSendSignals k ?rest (?c1, ?p1) = (Inr (), (?c2, ?p2))"
    using assms(5-8,11) by (intro second_condition_frame [OF assms(1) cut1(1) handlers1 c1 _ _ _ _ assms(12)]) auto
  have "process_handlers k ?data [delimiter_handler \<beta> e] (?c2, ?p2) =
      (Inl (Out_Of_Range (pop_error_text (length xs + length ys + 2) 0)), (?c2, ?p2))"
    using assms(7) handler_step [OF cut2(1), of ?data k \<beta> e "[]" ?p2] pos(3) off2 by (simp add: Let_def)
  then have "processDataSendSignals k ?data (c, p) =
      (Inl (Out_Of_Range (pop_error_text (length xs + length ys + 2) 0)), (?c2, ?p2))"
    using assms(3,7) handler_step [OF assms(2), of ?data k \<alpha> d "[delimiter_handler \<beta> e]" p] pos(1)
      off post1 inner
    by (simp add: processDataSendSignals.simps [of k ?data] Let_def)
  with c2 show ?thesis by (simp add: worker_catch_def)
qed

definition demo_two_conditions :: ConditionalBufferedStream where
  "demo_two_conditions = demo_filled\<lparr>
     buffer_event_handlers := [delimiter_handler (CHR ''b'') 7, delimiter_handler (CHR ''d'') 8],
     received_data_per_condition := [7 \<mapsto> [], 8 \<mapsto> []]\<rparr>"

theorem two_conditions_terminate_witness:
  "\<exists>ex c' p'. processDataSendSignals (reference_kernel demo_lines) ''a;bc;d''
      (demo_two_conditions, demo_conditional_process\<lparr>history :=
        [Ev_Eventfd (Inr 6), Ev_Eventfd (Inr 7), Ev_Eventfd (Inr 8)]\<rparr>) =
      (Inl (Out_Of_Range ex), (c', p')) \<and> bs_contents (cbs_stream c') = []"
proof -
  have "buffer_event_handlers demo_two_conditions =
      [delimiter_handler (CHR ''b'') 7, delimiter_handler (CHR ''d'') 8]"
    and "bs_wf (cbs_stream demo_two_conditions)"
    and "bs_contents (cbs_stream demo_two_conditions) = ''a;'' @ CHR ''b'' # ''c;'' @ [CHR ''d'']"
    by (simp_all add: demo_two_conditions_def demo_filled_def demo_conditional_def demo_buffered_def
        BufferedStream_construct_def Stream_move_def ConditionalBufferedStream_construct_def
        BufferedStream_move_def bs_wf_def bs_contents_def)
  with two_conditions_terminate [OF reference_eventfd_writable, of demo_two_conditions "CHR ''b''" 7
      "CHR ''d''" 8 "''a;''" "''c;''" "demo_conditional_process\<lparr>history :=
        [Ev_Eventfd (Inr 6), Ev_Eventfd (Inr 7), Ev_Eventfd (Inr 8)]\<rparr>" 0 0 demo_lines]
  show ?thesis by auto
qed


section \<open>How the worker's end reaches the readers\<close>

lemma notify_handlers_posts:
  assumes "eventfd_writable k" and "distinct (map handler_fd hs)"
    and "\<forall>h \<in> set hs. \<exists>n. efd_count (handler_fd h) (history p) = Some n \<and> n < 2 ^ 64 - 2"
  shows "\<exists>p'. notify_handlers k hs (c, p) = (Inr (), (c, p')) \<and>
    (\<forall>d. efd_count d (history p') = (if d \<in> handler_fd ` set hs
       then map_option (\<lambda>n. n + 1) (efd_count d (history p)) else efd_count d (history p)))"
  using assms(2,3)
proof (induction hs arbitrary: p)
  case (Cons h hs)
  let ?p = "log_event (Ev_Eventfd_Write (handler_fd h) 1 (Inr ())) p"
  from Cons.prems obtain n where "efd_count (handler_fd h) (history p) = Some n" "n < 2 ^ 64 - 2"
    by auto
  with post_event_ok [OF assms(1)] have "post_event k (handler_fd h) (c, p) = (Inr (), (c, ?p))"
    by blast
  moreover have "\<forall>g \<in> set hs. \<exists>n. efd_count (handler_fd g) (history ?p) = Some n \<and> n < 2 ^ 64 - 2"
    using Cons.prems by force
  with Cons.IH [of ?p] Cons.prems(1) obtain p' where "notify_handlers k hs (c, ?p) = (Inr (), (c, p'))"
    "\<forall>d. efd_count d (history p') = (if d \<in> handler_fd ` set hs
       then map_option (\<lambda>n. n + 1) (efd_count d (history ?p)) else efd_count d (history ?p))"
    by auto
  ultimately show ?case using Cons.prems(1) by (intro exI [of _ p']) auto
qed auto

text \<open>
  C35: when the worker stops because of an error other than a termination request, every
  condition's \<open>eventfd\<close> is posted once and the error is kept: frames that are already queued
  are still handed out, and a read on a condition without frames then throws the error.
\<close>

theorem worker_failure_reaches_readers:
  assumes "eventfd_writable k" and "distinct (map handler_fd (buffer_event_handlers c))"
    and "\<forall>h \<in> set (buffer_event_handlers c). \<exists>n. efd_count (handler_fd h) (history p) = Some n \<and> n < 2 ^ 64 - 2"
    and "exception_type ex \<noteq> SOCKET_TERMINATION_REQUEST" and "exception_type ex \<noteq> SOCKET_OK"
  shows "\<exists>c' p'. worker_catch k (Socket_Exception ex) (c, p) = (Inr (), (c', p')) \<and>
    (\<forall>h \<in> set (buffer_event_handlers c). efd_count (handler_fd h) (history p') =
       map_option (\<lambda>n. n + 1) (efd_count (handler_fd h) (history p))) \<and>
    (\<forall>d. received_data_per_condition c d = Some [] \<longrightarrow>
       ConditionalBufferedStream_read d c' = (Inl (socket_exception (exception_type ex) (-1) (-1)), c')) \<and>
    (\<forall>d x q. received_data_per_condition c d = Some (x # q) \<longrightarrow>
       fst (ConditionalBufferedStream_read d c') = Inr x)"
  using notify_handlers_posts [OF assms(1-3), of "c\<lparr>last_ex := exception_type ex\<rparr>"] assms(4,5)
  by (auto simp: worker_catch_def ConditionalBufferedStream_read_def)

theorem worker_failure_reaches_readers_witness:
  "\<exists>c' p'. worker_catch (reference_kernel demo_lines)
      (Socket_Exception \<lparr>processed_bytes = -1, c_error = 0, exception_type = SOCKET_CLOSED\<rparr>)
      (demo_conditional, demo_conditional_process) = (Inr (), (c', p')) \<and>
    ConditionalBufferedStream_read 7 c' = (Inl (socket_exception SOCKET_CLOSED (-1) (-1)), c')"
proof -
  have "buffer_event_handlers demo_conditional = [delimiter_handler (CHR '';'') 7]"
    and "received_data_per_condition demo_conditional 7 = Some []"
    by (simp_all add: demo_conditional_def)
  with worker_failure_reaches_readers [OF reference_eventfd_writable, of demo_conditional
      demo_conditional_process "\<lparr>processed_bytes = -1, c_error = 0, exception_type = SOCKET_CLOSED\<rparr>"
      demo_lines]
  show ?thesis by (fastforce simp: demo_conditional_process_def)
qed

text \<open>
  \<open>stopReads\<close> does not wake a blocking reader. The worker ends on the termination request
  without a word, no \<open>eventfd\<close> is posted, and a \<open>readBlocking\<close> without a timeout on a condition
  without frames cannot get past its \<open>poll\<close>: \<open>poll\<close> has nothing to report, and the only way out
  is that it fails, which is reported as \<open>SOCKET_READ_TIMEOUT\<close>. The promised
  \<open>SOCKET_TERMINATION_REQUEST\<close> is never thrown.
\<close>

theorem stopReads_leaves_readers_blocked:
  assumes "poll_reports k" and "poll_eventfd k" and "0 \<le> d"
    and "efd_count d (history p) = Some 0"
    and "d \<noteq> stop_all_operations_event_fd (bs_stream (cbs_stream c))" and "t < 0"
    and "ConditionalBufferedStream_stopReads k (c, p) = (r, cp1)"
    and "worker_catch k (socket_exception SOCKET_TERMINATION_REQUEST 0 (-1)) cp1 = (r', cp2)"
  shows "(\<forall>rs. k_poll k (history (snd cp2)) [d] t \<noteq> Inr rs) \<and>
    (\<exists>e. fst (readBlocking k d t cp2) = Inl (socket_exception SOCKET_READ_TIMEOUT e (-1)))"
proof -
  have same: "cp2 = cp1" using assms(8) by (simp add: worker_catch_def socket_exception_def)
  have count: "efd_count d (history (snd cp1)) = Some 0"
    using assms(4,5,7)
    by (auto simp: ConditionalBufferedStream_stopReads_def on_stream_def BufferedStream_stopReads_def
        Stream_stopReads_def ignore_result_def sys_eventfd_write_def syscall_def split: sum.splits)
  have blocked: "k_poll k (history (snd cp1)) [d] t \<noteq> Inr rs" for rs
  proof
    assume poll: "k_poll k (history (snd cp1)) [d] t = Inr rs"
    from poll_eventfdD(2) [OF assms(2) poll, of 0 0] poll_reportsD(3) [OF assms(1) poll] count assms(3,6)
    show False by auto
  qed
  then obtain e where "k_poll k (history (snd cp1)) [d] t = Inl e"
    by (cases "k_poll k (history (snd cp1)) [d] t") auto
  then have "fst (readBlocking k d t cp1) = Inl (socket_exception SOCKET_READ_TIMEOUT e (-1))"
    by (simp add: readBlocking_def sys_poll_def)
  with blocked same show ?thesis by blast
qed

theorem stopReads_leaves_readers_blocked_witness:
  "\<exists>e. fst (readBlocking (reference_kernel demo_lines) 7 (-1)
      (snd (ConditionalBufferedStream_stopReads (reference_kernel demo_lines)
        (demo_conditional, demo_conditional_process)))) =
    Inl (socket_exception SOCKET_READ_TIMEOUT e (-1))"
proof -
  let ?s = "ConditionalBufferedStream_stopReads (reference_kernel demo_lines)
    (demo_conditional, demo_conditional_process)"
  have "worker_catch (reference_kernel demo_lines) (socket_exception SOCKET_TERMINATION_REQUEST 0 (-1))
      (snd ?s) = (Inr (), snd ?s)"
    by (simp add: worker_catch_def socket_exception_def)
  moreover have "stop_all_operations_event_fd (bs_stream (cbs_stream demo_conditional)) = 6"
    and "efd_count 7 (history demo_conditional_process) = Some 0" by code_simp+
  ultimately show ?thesis
    using stopReads_leaves_readers_blocked [OF reference_poll_reports reference_poll_eventfd, of 7
        demo_conditional_process demo_conditional "-1" demo_lines "fst ?s" "snd ?s" "Inr ()" "snd ?s"]
    by simp
qed

text \<open>
  How \<open>readBlocking\<close> ends. A descriptor that is ready gives what \<open>read\<close> gives. A timeout
  is a termination request if \<open>stopReads\<close> was called before, and otherwise it is reported as
  \<open>SOCKET_POLL\<close>; a failing \<open>poll\<close> is reported as \<open>SOCKET_READ_TIMEOUT\<close>. The two error types
  are the wrong way round.
\<close>

theorem readBlocking_outcome:
  assumes "poll_reports k"
  shows "case k_poll k (history p) [d] t of
      Inl e \<Rightarrow> fst (readBlocking k d t (c, p)) = Inl (socket_exception SOCKET_READ_TIMEOUT e (-1))
    | Inr rs \<Rightarrow>
        (rs ! 0 = 0 \<longrightarrow> fst (readBlocking k d t (c, p)) =
           Inl (if termination_requested c then socket_exception SOCKET_TERMINATION_REQUEST (-1) (-1)
                else socket_exception SOCKET_POLL (errno p) (-1))) \<and>
        (rs ! 0 AND POLLIN \<noteq> 0 \<longrightarrow>
           fst (readBlocking k d t (c, p)) = fst (ConditionalBufferedStream_read d c) \<and>
           fst (snd (readBlocking k d t (c, p))) = snd (ConditionalBufferedStream_read d c))"
proof (cases "k_poll k (history p) [d] t")
  case (Inl e)
  then show ?thesis by (simp add: readBlocking_def sys_poll_def)
next
  case (Inr rs)
  with poll_reportsD(1) [OF assms Inr] obtain v where "rs = [v]" by (auto simp: length_Suc_conv)
  with Inr show ?thesis
    by (auto simp: readBlocking_def sys_poll_def poll_count_def Let_def split: prod.splits)
qed

theorem readBlocking_outcome_witness:
  "fst (readBlocking (reference_kernel demo_lines) 7 20 (demo_conditional, demo_conditional_process)) =
     Inl (socket_exception SOCKET_POLL 0 (-1))"
proof -
  have "k_poll (reference_kernel demo_lines) (history demo_conditional_process) [7] 20 = Inr [0]"
    and "termination_requested demo_conditional = False" and "errno demo_conditional_process = 0"
    by code_simp+
  with readBlocking_outcome [OF reference_poll_reports [of demo_lines], where d = 7 and t = 20
      and p = demo_conditional_process and c = demo_conditional] show ?thesis by simp
qed

text \<open>
  The delimiter condition is one more than the position of the first delimiter as long as
  that fits an \<open>int\<close>; behind \<open>2 ^ 31 - 2\<close> the result is negative, which asks for the bytes to
  be thrown away, and at \<open>2 ^ 31 - 1\<close> it is \<open>INT_MIN\<close>, whose \<open>abs\<close> is undefined. Without a
  delimiter it is 0.
\<close>

theorem getDelimiterCondition_bounds:
  assumes "length data < 2 ^ 32 - 1"
  shows "sint (getDelimiterCondition d data) =
    (if d \<notin> set data then 0
     else if find_index d data < 2 ^ 31 - 1 then int (find_index d data) + 1
     else int (find_index d data) + 1 - 2 ^ 32)"
proof (cases "d \<in> set data")
  case False
  then show ?thesis by (simp add: getDelimiterCondition_absent)
next
  case True
  let ?n = "find_index d data + 1"
  have lt: "find_index d data < length data" using True by (simp add: find_index_less_iff)
  then have word: "getDelimiterCondition d data = word_of_nat ?n"
    by (simp add: getDelimiterCondition_def Let_def)
  show ?thesis
  proof (cases "?n < 2 ^ 31")
    case small: True
    then show ?thesis using True sint_of_nat_small [OF small] by (simp add: word)
  next
    case False
    have "(2 :: 32 word) ^ 32 = 0" by code_simp
    then have "word_of_nat ?n = (word_of_int (int ?n - 2 ^ 32) :: 32 word)"
      by (simp only: of_int_diff of_int_of_nat_eq of_int_power of_int_numeral) simp
    then have "sint (word_of_nat ?n :: 32 word) = sint (word_of_int (int ?n - 2 ^ 32) :: 32 word)"
      by (rule arg_cong)
    also have "\<dots> = int ?n - 2 ^ 32"
      using False lt assms by (subst signed_of_int) (simp add: signed_take_bit_int_eq_self)
    finally show ?thesis using False True by (simp add: word)
  qed
qed

theorem getDelimiterCondition_bounds_witness:
  "sint (getDelimiterCondition (CHR '';'') ''ab;c'') = 3"
  using getDelimiterCondition_bounds [of "''ab;c''" "CHR '';''"] by (simp add: find_index_def)

section \<open>Destruction\<close>

text \<open>An object that was never started cannot be destroyed.\<close>

lemma destroy_unstarted:
  "\<not> worker_joinable (fst cp) \<Longrightarrow> \<exists>cq. ConditionalBufferedStream_destroy k cp = Some (Inl Terminate, cq)"
  by (simp add: ConditionalBufferedStream_destroy_def Let_def)

text \<open>The state in which the destructor waits for the worker.\<close>

abbreviation joining :: "kernel \<Rightarrow> cbs_state \<Rightarrow> cbs_state" where
  "joining k cp \<equiv> snd (on_stream (BufferedStream_stopReads k)
     (fst cp, close_handlers k (buffer_event_handlers (fst cp)) (snd cp)))"

text \<open>
  \<open>eventfd(2)\<close>: a write on a descriptor that is not open fails.
\<close>

definition eventfd_closed_fails :: "kernel \<Rightarrow> bool" where
  "eventfd_closed_fails k = (\<forall>h d v. efd_count d h = None \<longrightarrow> (\<exists>e. k_eventfd_write k h d v = Inl e))"

lemma reference_eventfd_closed [simp]: "eventfd_closed_fails (reference_kernel sc)"
  by (auto simp: eventfd_closed_fails_def reference_kernel_def reference_efd_write_def)

lemma post_event_closed:
  assumes "eventfd_closed_fails k" and "efd_count d (history p) = None"
  shows "\<exists>e. post_event k d (c, p) =
    (Inl (socket_exception SOCKET_WRITE e (-1)), (c, log_failure (Ev_Eventfd_Write d 1 (Inl e)) e p))"
proof -
  obtain e where "k_eventfd_write k (history p) d 1 = Inl e"
    using assms unfolding eventfd_closed_fails_def by blast
  then show ?thesis by (auto simp: post_event_def throw_errno_def sys_eventfd_write_def)
qed

lemma joining_count:
  assumes "close_succeeds k" and "d \<in> open_fds (history p)"
    and "buffer_event_handlers c = [delimiter_handler \<delta> d]"
  shows "efd_count d (history (snd (joining k (c, p)))) = None"
proof -
  have "k_close k (history p) d = Inr ()" using assms(1,2) by (simp add: close_succeeds_def)
  with assms(3) show ?thesis
    by (auto simp: on_stream_def BufferedStream_stopReads_def Stream_stopReads_def ignore_result_def
        sys_eventfd_write_def sys_close_def syscall_def split: sum.splits)
qed

lemma readAvailable_count:
  assumes "readAvailableDataIntoBuffer k t (b, p) = (r, (b', p'))"
  shows "efd_count d (history p') = efd_count d (history p)"
proof -
  have loop: "efd_count d (history (snd mp')) = efd_count d (history p)"
    if "Stream_read_loop k s off room 1 t n (m, p) = (r, mp')" for s off room n m r mp'
    using that by (induction rule: Stream_read_loop_run) auto
  show ?thesis
    using assms loop by (auto simp: readAvailableDataIntoBuffer_def Stream_read_def Let_def
        split: option.splits prod.splits sum.splits)
qed

lemma joining_ledger:
  assumes "frame_ledger base \<delta> d taken (c, p)"
  shows "\<exists>q. joining k (c, p) = (c, q) \<and> frame_ledger base \<delta> d taken (c, q)"
proof -
  have led: "frame_ledger base \<delta> d taken (c, close_handlers k (buffer_event_handlers c) p)"
    using assms by (auto simp: frame_ledger_def sys_close_def syscall_def split: sum.splits)
  obtain w q where stop: "Stream_stopReads k (bs_stream (cbs_stream c))
      (close_handlers k (buffer_event_handlers c) p) = (w, q)" by (meson surj_pair)
  have "joining k (c, p) = (c, q)"
    using stop by (simp add: on_stream_def BufferedStream_stopReads_def)
  moreover have "frame_ledger base \<delta> d taken (c, q)"
    by (rule ledger_same_stream [OF led]) (simp_all add: Stream_stopReads_received [OF stop])
  ultimately show ?thesis by blast
qed

text \<open>A worker that cuts a frame for a closed descriptor ends the program.\<close>

lemma closed_descriptor_kills_worker:
  assumes "eventfd_closed_fails k" and "frame_ledger base \<delta> d taken (c, p)"
    and "efd_count d (history p) = None"
    and "on_stream (readAvailableDataIntoBuffer k (-1)) start = (Inr n, (c, p))"
    and "\<delta> \<in> set (bs_contents (cbs_stream c))"
  shows "\<exists>cq. ConditionalBufferWorker k start = Some (Inl Terminate, cq)"
proof -
  let ?data = "bs_contents (cbs_stream c)"
  let ?c = "cut_frame d (find_index \<delta> ?data + 1) c"
  from assms(2) have wf: "bs_wf (cbs_stream c)" and short: "length ?data < 2 ^ 31 - 1"
    and handlers: "buffer_event_handlers c = [delimiter_handler \<delta> d]"
    by (auto simp: frame_ledger_def elim: bs_wfE)
  have "find_index \<delta> ?data < length ?data" using assms(5) by (simp add: find_index_less_iff)
  then have "find_index \<delta> ?data + 1 \<le> buffer_write_offset (cbs_stream c)" using wf by simp
  from cut_frame_simps(3) [OF wf this, of d] handlers
  have same: "buffer_event_handlers ?c = [delimiter_handler \<delta> d]" by (simp add: frozen_def)
  obtain e where post: "post_event k d (?c, p) = (Inl (socket_exception SOCKET_WRITE e (-1)),
      (?c, log_failure (Ev_Eventfd_Write d 1 (Inl e)) e p))"
    using post_event_closed [OF assms(1,3)] by blast
  let ?p = "log_failure (Ev_Eventfd_Write d 1 (Inl e)) e p"
  obtain m where "stream_buffer (cbs_stream c) = Some m" "?data = take (buffer_write_offset (cbs_stream c)) m"
    using wf by (rule bs_wfE)
  then have "worker_round k start = (Inl (socket_exception SOCKET_WRITE e (-1)), (?c, ?p))"
    using assms(4,5) delimiter_step [OF handlers wf refl short, of k p] post
    by (simp add: worker_round_def Let_def)
  then have loop: "worker_loop k start = Some (socket_exception SOCKET_WRITE e (-1), (?c, ?p))"
    by (simp add: worker_loop.simps)
  have "efd_count d (history ?p) = None" using assms(3) by simp
  then obtain e' where "post_event k d (?c\<lparr>last_ex := SOCKET_WRITE\<rparr>, ?p) =
      (Inl (socket_exception SOCKET_WRITE e' (-1)),
       (?c\<lparr>last_ex := SOCKET_WRITE\<rparr>, log_failure (Ev_Eventfd_Write d 1 (Inl e')) e' ?p))"
    using post_event_closed [OF assms(1)] by blast
  then have "\<exists>cq. worker_catch k (socket_exception SOCKET_WRITE e (-1)) (?c, ?p) = (Inl Terminate, cq)"
    using same by (simp add: worker_catch_def socket_exception_def)
  with loop show ?thesis by (auto simp: ConditionalBufferWorker_def)
qed



text \<open>Closing the descriptors of the conditions.\<close>

lemma close_handlers_open:
  "a \<in> open_fds (history (close_handlers k hs p)) \<Longrightarrow> a \<in> open_fds (history p)"
proof (induction hs arbitrary: p)
  case (Cons h hs)
  from Cons.IH [of "snd (sys_close k (handler_fd h) p)"] Cons.prems show ?case
    by (cases "k_close k (history p) (handler_fd h)") (auto simp: sys_close_def)
qed simp

lemma close_handlers_keeps:
  "a \<notin> handler_fd ` set hs \<Longrightarrow> a \<in> open_fds (history p) \<Longrightarrow>
     a \<in> open_fds (history (close_handlers k hs p))"
  by (induction hs arbitrary: p) (auto simp: sys_close_def syscall_def split: sum.splits)

lemma close_handlers_closes:
  assumes "close_succeeds k"
  shows "h \<in> set hs \<Longrightarrow> handler_fd h \<notin> open_fds (history (close_handlers k hs p))"
proof (induction hs arbitrary: p)
  case (Cons g hs)
  show ?case
  proof (cases "h = g")
    case True
    have "handler_fd g \<notin> open_fds (history (snd (sys_close k (handler_fd g) p)))"
      using assms by (cases "k_close k (history p) (handler_fd g)")
        (auto simp: sys_close_def close_succeeds_def)
    with True close_handlers_open show ?thesis by auto
  qed (use Cons in simp)
qed simp

text \<open>
  Destroying an idle object works. When nothing is waiting on the socket while the
  destructor waits for the worker, the termination request ends the worker, the worker is
  joined, the destructor returns, and the socket and the conditions' descriptors are closed.
\<close>

theorem destroy_idle:
  assumes "close_succeeds k" and "worker_joinable c" and "stream_buffer (cbs_stream c) = Some m"
    and "0 \<le> bs_fd (cbs_stream c)" and "bs_fd (cbs_stream c) \<in> open_fds (history p)"
    and "bs_fd (cbs_stream c) \<notin> handler_fd ` set (buffer_event_handlers c)"
    and "k_poll k (history (snd (joining k (c, p)))) (read_fds (bs_stream (cbs_stream c))) (-1) = Inr rs"
    and "revents rs 0 = 0" and "revents rs 1 \<noteq> 0"
  shows "\<exists>c' p'. ConditionalBufferedStream_destroy k (c, p) = Some (Inr (), (c', p')) \<and>
    \<not> worker_joinable c' \<and> bs_fd (cbs_stream c) \<notin> open_fds (history p') \<and>
    (\<forall>h \<in> set (buffer_event_handlers c). handler_fd h \<notin> open_fds (history p'))"
proof -
  let ?s = "bs_stream (cbs_stream c)" and ?hs = "buffer_event_handlers c"
  let ?p = "close_handlers k ?hs p"
  obtain q where joined: "joining k (c, p) = (c, q)"
    and opened: "open_fds (history q) = open_fds (history ?p)"
    by (cases "k_eventfd_write k (history ?p) (stop_all_operations_event_fd ?s) stop_semaphore_value")
      (auto simp: on_stream_def BufferedStream_stopReads_def Stream_stopReads_def ignore_result_def
        sys_eventfd_write_def)
  let ?q = "log_event (Ev_Poll (read_fds ?s) (-1) (Inr rs)) q"
  have poll: "k_poll k (history q) (read_fds ?s) (-1) = Inr rs"
    using assms(7) unfolding joined by simp
  have "Stream_read k ?s off n 1 (-1) (m, q) = (Inl (socket_exception SOCKET_TERMINATION_REQUEST 0 (-1)), (m, ?q))"
    for off n
    using poll assms(8,9) by (simp add: Stream_read_def Stream_read_loop.simps sys_poll_def)
  then have "worker_round k (c, q) =
      (Inl (socket_exception SOCKET_TERMINATION_REQUEST 0 (-1)), (c, ?q))"
    using assms(3) by (simp add: worker_round_def on_stream_def readAvailableDataIntoBuffer_def Let_def)
  then have worker: "ConditionalBufferWorker k (c, q) = Some (Inr (), (c, ?q))"
    by (simp add: ConditionalBufferWorker_def worker_loop.simps worker_catch_def socket_exception_def)
  let ?f = "sys_free ?q"
  let ?w = "snd (sys_eventfd_write k (stop_all_operations_event_fd ?s) stop_semaphore_value ?f)"
  have still: "open_fds (history ?w) = open_fds (history ?p)"
    using opened
    by (cases "k_eventfd_write k (history ?f) (stop_all_operations_event_fd ?s) stop_semaphore_value")
      (auto simp: sys_eventfd_write_def sys_free_def)
  with close_handlers_keeps [OF assms(6,5)] assms(1)
  have "k_close k (history ?w) (bs_fd (cbs_stream c)) = Inr ()"
    by (simp add: close_succeeds_def)
  then have "BufferedStream_destroy k (cbs_stream c) ?q =
      (Inr (), log_event (Ev_Close (bs_fd (cbs_stream c)) (Inr ())) ?w)"
    using assms(3,4) by (simp add: BufferedStream_destroy_def Stream_destroy_def bindA_def
        ignore_result_def sys_close_def)
  with worker joined assms(2) have "ConditionalBufferedStream_destroy k (c, p) =
      Some (Inr (), (c\<lparr>worker_joinable := False\<rparr>, log_event (Ev_Close (bs_fd (cbs_stream c)) (Inr ())) ?w))"
    by (simp add: ConditionalBufferedStream_destroy_def Let_def)
  with still close_handlers_closes [OF assms(1)] show ?thesis by auto
qed

definition demo_idle_process :: process where
  "demo_idle_process = \<lparr>history = [Ev_Socket AF_INET SOCK_STREAM 6 (Inr 5), Ev_Eventfd (Inr 6),
     Ev_Eventfd (Inr 7)], errno = 0\<rparr>"

definition demo_silence :: script where
  "demo_silence = demo_script\<lparr>input := (\<lambda>_. [])\<rparr>"

theorem destroy_idle_witness:
  "\<exists>c' p'. ConditionalBufferedStream_destroy (reference_kernel demo_silence)
      (demo_conditional\<lparr>worker_joinable := True\<rparr>, demo_idle_process) = Some (Inr (), (c', p')) \<and>
    5 \<notin> open_fds (history p') \<and> 7 \<notin> open_fds (history p')"
proof -
  let ?k = "reference_kernel demo_silence" and ?c = "demo_conditional\<lparr>worker_joinable := True\<rparr>"
  have "k_poll ?k (history (snd (joining ?k (?c, demo_idle_process))))
      (read_fds (bs_stream (cbs_stream ?c))) (-1) = Inr [0, 1]"
    and "stream_buffer (cbs_stream ?c) = Some (replicate 8 (CHR 0x00))"
    and "bs_fd (cbs_stream ?c) = 5" by code_simp+
  moreover have "5 \<in> open_fds (history demo_idle_process)"
    by (simp add: demo_idle_process_def)
  moreover have "buffer_event_handlers ?c = [delimiter_handler (CHR '';'') 7]"
    by (simp add: demo_conditional_def)
  ultimately show ?thesis
    using destroy_idle [OF reference_close_succeeds, of ?c "replicate 8 (CHR 0x00)" demo_idle_process
        demo_silence "[0, 1]"] by auto
qed

end
