(* ===== verification/Labelled_Steps.thy ===== *)
theory Labelled_Steps
  imports Main
begin

text \<open>
  Runs of a labelled step relation and forward simulation between two of them with the same
  labels: what the concurrent models of the development share.
\<close>

inductive runs :: "('s \<Rightarrow> 'l \<Rightarrow> 's \<Rightarrow> bool) \<Rightarrow> 's \<Rightarrow> 'l list \<Rightarrow> 's \<Rightarrow> bool"
  for step where
  runs_Nil [simp, intro]: "runs step s [] s"
| runs_snoc: "runs step s ls t \<Longrightarrow> step t l u \<Longrightarrow> runs step s (ls @ [l]) u"

lemma runs_single [intro]: "step s l t \<Longrightarrow> runs step s [l] t"
  using runs_snoc [OF runs_Nil, of step s l t] by simp

lemma runs_one: "step s l t \<Longrightarrow> \<exists>ls. runs step s ls t"
  by (blast intro: runs_single)

lemma runs_append [trans]: "runs step s ls t \<Longrightarrow> runs step t ms u \<Longrightarrow> runs step s (ls @ ms) u"
proof (rotate_tac, induction rule: runs.induct)
  case (runs_snoc t ms u l v)
  then show ?case using runs.runs_snoc [of step s "ls @ ms" u l v] by simp
qed simp

lemma runs_Cons: "step s l t \<Longrightarrow> runs step t ls u \<Longrightarrow> runs step s (l # ls) u"
  using runs_append [OF runs_single, of step s l t ls u] by simp

text \<open>A function of the state that no step changes.\<close>

lemma runs_constant:
  assumes "runs step s ls t" and "\<And>s l t. step s l t \<Longrightarrow> f t = f s"
  shows "f t = f s"
  using assms(1) by (induction rule: runs.induct) (simp_all add: assms(2))

text \<open>Runs whose labels are all allowed are paths of the unlabelled relation.\<close>

lemma runs_rtranclp:
  assumes "runs step s ls t" and "list_all P ls"
  shows "(\<lambda>s t. \<exists>l. step s l t \<and> P l)\<^sup>*\<^sup>* s t"
  using assms by (induction rule: runs.induct) (auto intro: rtranclp.rtrancl_into_rtrancl)

lemma rtranclp_runs:
  assumes "(\<lambda>s t. \<exists>l. step s l t \<and> P l)\<^sup>*\<^sup>* s t"
  shows "\<exists>ls. runs step s ls t \<and> list_all P ls"
  using assms
proof (induction rule: rtranclp_induct)
  case (step t u)
  then obtain ls l where "runs step s ls t" "list_all P ls" "step t l u" "P l" by blast
  then show ?case by (intro exI [of _ "ls @ [l]"]) (auto intro: runs_snoc)
qed (auto intro: exI [of _ "[]"])

text \<open>
  Forward simulation: an abstraction function \<open>abs\<close> that turns every concrete step from a state
  that satisfies the invariant into an abstract step with the same label.
\<close>

locale simulation =
  fixes concrete :: "'s \<Rightarrow> 'l \<Rightarrow> 's \<Rightarrow> bool"
    and abstract :: "'a \<Rightarrow> 'l \<Rightarrow> 'a \<Rightarrow> bool"
    and abs_of :: "'s \<Rightarrow> 'a"
    and inv :: "'s \<Rightarrow> bool"
  assumes inv_step: "inv s \<Longrightarrow> concrete s l t \<Longrightarrow> inv t"
    and step_simulated: "inv s \<Longrightarrow> concrete s l t \<Longrightarrow> abstract (abs_of s) l (abs_of t)"
begin

lemma inv_runs: "runs concrete s ls t \<Longrightarrow> inv s \<Longrightarrow> inv t"
  by (induction rule: runs.induct) (auto intro: inv_step)

lemma runs_simulated: "runs concrete s ls t \<Longrightarrow> inv s \<Longrightarrow> runs abstract (abs_of s) ls (abs_of t)"
  by (induction rule: runs.induct) (auto intro: runs_snoc step_simulated dest: inv_runs)

end

end
