(* ===== verification/Frame_Mailbox.thy ===== *)
theory Frame_Mailbox
  imports Labelled_Steps Conditional_Stream
begin

text \<open>
  The abstract specification of a \<open>ConditionalBufferedStream\<close>: a mailbox with one box of frames
  per condition. Bytes arrive, are cut off the front into a box or dropped, and leave the boxes
  first in, first out. It knows no buffer, no \<open>eventfd\<close>, no lock and no thread;
  \<open>Conditional_Runs\<close> shows that every run of the class's threads is one of its runs.
\<close>

section \<open>The mailbox\<close>

text \<open>
  What a step does to the bytes: nothing (\<open>Internal\<close>), a frame cut for a condition, bytes
  discarded, and the outcome of a call of \<open>read\<close>, by a reader that has taken a post
  (\<open>Handed\<close>) or by one that has not (\<open>Handed_Directly\<close>): a client may call \<open>read\<close> itself.
\<close>

datatype step_label =
    Internal
  | Cut fd "char list"
  | Discarded "char list"
  | Handed fd "error + char list"
  | Handed_Directly fd "error + char list"

record mailbox =
  arrived :: "char list"
  pending :: "char list"
  boxes :: "fd \<rightharpoonup> char list list"
  failure :: socket_exception_type

text \<open>The answer to a read on an empty or unknown box.\<close>

definition refusal :: "mailbox \<Rightarrow> fd \<Rightarrow> error" where
  "refusal m d =
     (if d \<notin> dom (boxes m) then socket_exception SOCKET_INVALID_CONDITION (-1) (-1)
      else if failure m \<noteq> SOCKET_OK then socket_exception (failure m) (-1) (-1)
      else Out_Of_Range (no_data_text d))"

definition box :: "mailbox \<Rightarrow> fd \<Rightarrow> char list list" where
  "box m d = (case boxes m d of None \<Rightarrow> [] | Some q \<Rightarrow> q)"

fun read_label :: "step_label \<Rightarrow> (fd \<times> (error + char list)) option" where
  "read_label (Handed d r) = Some (d, r)"
| "read_label (Handed_Directly d r) = Some (d, r)"
| "read_label _ = None"

inductive mailbox_step :: "mailbox \<Rightarrow> step_label \<Rightarrow> mailbox \<Rightarrow> bool" where
  arrive: "mailbox_step m Internal (m\<lparr>arrived := arrived m @ new, pending := pending m @ new\<rparr>)"
| fail: "t \<noteq> SOCKET_OK \<Longrightarrow> mailbox_step m Internal (m\<lparr>failure := t\<rparr>)"
| put: "pending m = x @ rest \<Longrightarrow> boxes m d = Some q \<Longrightarrow>
    mailbox_step m (Cut d x) (m\<lparr>pending := rest, boxes := (boxes m)(d \<mapsto> q @ [x])\<rparr>)"
| drop: "pending m = x @ rest \<Longrightarrow> mailbox_step m (Discarded x) (m\<lparr>pending := rest\<rparr>)"
| get: "boxes m d = Some (x # q) \<Longrightarrow> read_label l = Some (d, Inr x) \<Longrightarrow>
    mailbox_step m l (m\<lparr>boxes := (boxes m)(d \<mapsto> q)\<rparr>)"
| refuse: "box m d = [] \<Longrightarrow> read_label l = Some (d, Inl (refusal m d)) \<Longrightarrow> mailbox_step m l m"

inductive_cases mailbox_stepE: "mailbox_step m l m'"

text \<open>A step in which nothing happens.\<close>

lemma mailbox_idle: "mailbox_step m Internal m"
  using mailbox_step.arrive [of m "[]"] by simp

section \<open>What labels say\<close>

text \<open>
  The bytes taken off the front with the condition they went to, and the frames handed out with
  the condition they were read on, in the order of the steps.
\<close>

type_synonym cut = "fd option \<times> char list"

fun label_cut :: "step_label \<Rightarrow> cut list" where
  "label_cut (Cut d x) = [(Some d, x)]"
| "label_cut (Discarded x) = [(None, x)]"
| "label_cut _ = []"

fun label_handed :: "step_label \<Rightarrow> (fd \<times> char list) list" where
  "label_handed (Handed d (Inr x)) = [(d, x)]"
| "label_handed (Handed_Directly d (Inr x)) = [(d, x)]"
| "label_handed _ = []"

definition cuts :: "step_label list \<Rightarrow> cut list" where
  "cuts ls = concat (map label_cut ls)"

abbreviation bytes_of :: "cut list \<Rightarrow> char list" where
  "bytes_of xs \<equiv> concat (map snd xs)"

definition frames_for :: "fd \<Rightarrow> cut list \<Rightarrow> char list list" where
  "frames_for d xs = map snd (filter (\<lambda>x. fst x = Some d) xs)"

definition handed_on :: "fd \<Rightarrow> step_label list \<Rightarrow> char list list" where
  "handed_on d ls = map snd (filter (\<lambda>x. fst x = d) (concat (map label_handed ls)))"

lemma cuts_simps [simp]:
  "cuts [] = []" "cuts (ls @ ms) = cuts ls @ cuts ms" "cuts (l # ls) = label_cut l @ cuts ls"
  by (simp_all add: cuts_def)

lemma frames_for_simps [simp]:
  "frames_for d [] = []" "frames_for d (xs @ ys) = frames_for d xs @ frames_for d ys"
  "frames_for d (x # xs) = (if fst x = Some d then [snd x] else []) @ frames_for d xs"
  by (simp_all add: frames_for_def)

lemma handed_on_simps [simp]:
  "handed_on d [] = []" "handed_on d (ls @ ms) = handed_on d ls @ handed_on d ms"
  by (simp_all add: handed_on_def)

lemma label_handed_read: "read_label l = Some (d, r) \<Longrightarrow>
    label_handed l = (case r of Inl e \<Rightarrow> [] | Inr x \<Rightarrow> [(d, x)]) \<and> label_cut l = []"
  by (cases l) (auto split: sum.split)

section \<open>The laws of the mailbox\<close>

text \<open>Conservation of bytes, and each box is first in, first out, by induction over runs.\<close>

lemma mailbox_bytes:
  assumes "runs mailbox_step m ls m'"
  shows "\<exists>new. arrived m' = arrived m @ new \<and> pending m @ new = bytes_of (cuts ls) @ pending m'"
  using assms
proof (induction rule: runs.induct)
  case (runs_snoc m ls t l u)
  then obtain new where new: "arrived t = arrived m @ new" "pending m @ new = bytes_of (cuts ls) @ pending t"
    by blast
  from runs_snoc(2) show ?case
  proof (cases rule: mailbox_step.cases)
    case (arrive more)
    with new show ?thesis by (intro exI [of _ "new @ more"]) simp
  qed (use new in \<open>auto dest: label_handed_read intro!: exI [of _ new]\<close>)
qed simp

lemma mailbox_fifo:
  assumes "runs mailbox_step m ls m'"
  shows "box m d @ frames_for d (cuts ls) = handed_on d ls @ box m' d"
  using assms
proof (induction rule: runs.induct)
  case (runs_snoc m ls t l u)
  have "box t d @ frames_for d (label_cut l) = handed_on d [l] @ box u d"
    using runs_snoc(2)
    by (cases rule: mailbox_step.cases) (auto simp: box_def handed_on_def dest!: label_handed_read)
  with runs_snoc.IH show ?case by (metis append.assoc cuts_simps(1-3) append_Nil2 frames_for_simps(2) handed_on_simps(2))
qed simp

lemma mailbox_boxes:
  "runs mailbox_step m ls m' \<Longrightarrow> dom (boxes m') = dom (boxes m)"
  by (erule runs_constant, erule mailbox_stepE) (auto split: if_splits)

lemma mailbox_failure:
  "runs mailbox_step m ls m' \<Longrightarrow> failure m \<noteq> SOCKET_OK \<Longrightarrow> failure m' \<noteq> SOCKET_OK"
  by (induction rule: runs.induct) (auto elim: mailbox_stepE)

end
