(* ===== verification/Conditional_Turns.thy ===== *)
theory Conditional_Turns
  imports Frame_Mailbox Conditional_Errors
begin

text \<open>
  \<open>processDataSendSignals\<close> with any number of conditions of any kind: what it does is a sequence
  of turns in which one handler takes bytes off the buffer, and whatever holds of a turn and can
  be chained holds of the whole recursion (locale \<open>handler_turns\<close>).
\<close>

section \<open>Well-formed objects\<close>

text \<open>
  The buffer is within its bounds, and the queues are those of the conditions: no operation adds
  or removes a queue but \<open>createEventfdOnCondition\<close>.
\<close>

definition handler_fds :: "ConditionalBufferedStream \<Rightarrow> fd list" where
  "handler_fds c = map handler_fd (buffer_event_handlers c)"

definition cbs_wf :: "ConditionalBufferedStream \<Rightarrow> bool" where
  "cbs_wf c = (bs_wf (cbs_stream c) \<and> dom (received_data_per_condition c) = set (handler_fds c))"

lemma cbs_wf_fields [simp]:
  "cbs_wf (c\<lparr>last_ex := e\<rparr>) = cbs_wf c" "cbs_wf (c\<lparr>termination_requested := b\<rparr>) = cbs_wf c"
  "cbs_wf (c\<lparr>worker_joinable := b\<rparr>) = cbs_wf c"
  by (simp_all add: cbs_wf_def handler_fds_def)

lemma cbs_wf_buffer: "cbs_wf c \<Longrightarrow> bs_wf (cbs_stream c)"
  by (simp add: cbs_wf_def)

lemma cbs_wf_stream: "cbs_wf c \<Longrightarrow> bs_wf b \<Longrightarrow> cbs_wf (c\<lparr>cbs_stream := b\<rparr>)"
  by (simp add: cbs_wf_def handler_fds_def)

lemma cbs_wf_construct:
  "bs_wf b \<Longrightarrow> cbs_wf (fst (ConditionalBufferedStream_construct b))"
  by (cases "stream_buffer b") (simp_all add: cbs_wf_def handler_fds_def
      ConditionalBufferedStream_construct_def BufferedStream_move_def Stream_move_def bs_wf_def)

lemma cbs_wf_create:
  "createEventfdOnCondition l k cond (c, p) = (r, (c', p')) \<Longrightarrow> cbs_wf c \<Longrightarrow> cbs_wf c'"
  by (auto simp: createEventfdOnCondition_def split: prod.splits option.splits)
    (simp_all add: cbs_wf_def handler_fds_def)

lemma cbs_wf_known: "cbs_wf c \<Longrightarrow> d \<in> set (handler_fds c) \<Longrightarrow> \<exists>q. received_data_per_condition c d = Some q"
  by (auto simp: cbs_wf_def)

lemma cbs_wf_queue:
  "d \<in> set (handler_fds c) \<Longrightarrow> cbs_wf c \<Longrightarrow>
     cbs_wf (c\<lparr>received_data_per_condition := (received_data_per_condition c)(d \<mapsto> q)\<rparr>)"
  by (simp add: cbs_wf_def handler_fds_def insert_absorb)

lemma cbs_wf_push: "d \<in> set (handler_fds c) \<Longrightarrow> cbs_wf c \<Longrightarrow> cbs_wf (push_frame d x c)"
  by (simp add: push_frame_def cbs_wf_queue)

lemma cbs_wf_read:
  "ConditionalBufferedStream_read d c = (r, c') \<Longrightarrow> cbs_wf c \<Longrightarrow> cbs_wf c'"
  by (auto simp: ConditionalBufferedStream_read_def split: option.splits list.splits if_splits)
    (rule cbs_wf_queue; auto simp: cbs_wf_def)

lemma pop_spec:
  assumes "cbs_wf c" and "on_stream (PopFromBuffer n) (c, p) = (Inr x, (c', p'))"
  shows "cbs_wf c' \<and> bs_contents (cbs_stream c) = x @ bs_contents (cbs_stream c')"
proof -
  note wf = cbs_wf_buffer [OF assms(1)]
  with assms(2) have n: "n \<le> buffer_write_offset (cbs_stream c)"
    by (auto simp: on_stream_def PopFromBuffer_spec split: if_splits)
  from assms(2) wf n popped_spec [OF wf n refl] show ?thesis
    by (auto simp: on_stream_def PopFromBuffer_spec intro: cbs_wf_stream [OF assms(1)])
qed

section \<open>Turns of the handlers\<close>

text \<open>The part of a handler's turn that touches the object, and the whole turn.\<close>

definition take_bytes :: "kernel \<Rightarrow> buffer_event_handler \<Rightarrow> 32 word \<Rightarrow> (cbs_state, error, unit) action" where
  "take_bytes k h b = bindA (on_stream (PopFromBuffer (abs_size b)))
     (\<lambda>x. if 0 < sint b then signal_frame k (handler_fd h) x else ret ())"

lemma process_handlers_turn:
  "process_handlers k data (h # hs) cp =
     (let b = condition h data; n = abs_size b in
      if b = INT_MIN then (Inl Undefined_Behaviour, cp)
      else if length data < n then
        (Inl (Logic_Error
          ''a condition on a ConditionalBufferedStream tried to read more data, than exists''), cp)
      else if b \<noteq> 0 then
        bindA (take_bytes k h b)
          (\<lambda>_. bindA (processDataSendSignals k (drop n data)) (\<lambda>_. process_handlers k data hs)) cp
      else process_handlers k data hs cp)"
  by (simp add: process_handlers.simps(2) [of k data] take_bytes_def bindA_def Let_def
      split: sum.split prod.split)

text \<open>A turn: nothing to pop, a frame that was signalled, or bytes that were dropped.\<close>

lemma take_bytes_cases:
  assumes "take_bytes k h b (c, p) = (r, cq)"
  obtains (short) w where "r = Inl (Out_Of_Range w)" "cq = (c, p)"
    | (broken) "r = Inl Undefined_Behaviour" "cq = (c, p)" "stream_buffer (cbs_stream c) = None"
    | (framed) x c' where "on_stream (PopFromBuffer (abs_size b)) (c, p) = (Inr x, (c', p))"
        "0 < sint b" "post_event k (handler_fd h) (push_frame (handler_fd h) x c', p) = (r, cq)"
    | (dropped) x c' where "on_stream (PopFromBuffer (abs_size b)) (c, p) = (Inr x, (c', p))"
        "\<not> 0 < sint b" "r = Inr ()" "cq = (c', p)"
proof -
  obtain v c' p' where pop: "on_stream (PopFromBuffer (abs_size b)) (c, p) = (v, (c', p'))"
    by (metis prod_cases3)
  then have same: "p' = p" and fail: "\<And>e. v = Inl e \<Longrightarrow> c' = c \<and>
      ((\<exists>w. e = Out_Of_Range w) \<or> e = Undefined_Behaviour \<and> stream_buffer (cbs_stream c) = None)"
    by (auto simp: on_stream_def PopFromBuffer_def Let_def split: prod.splits if_splits option.splits)
  show thesis
  proof (cases v)
    case (Inl e)
    with assms pop same fail [OF Inl] have "r = Inl e" "cq = (c, p)"
      by (auto simp: take_bytes_def)
    with fail [OF Inl] show thesis by (elim conjE disjE exE) (rule short broken; simp)+
  next
    case (Inr x)
    show thesis
    proof (cases "0 < sint b")
      case True
      with assms pop same Inr show thesis
        by (intro framed [of x c']) (simp_all add: take_bytes_def signal_frame_def)
    next
      case False
      with assms pop same Inr show thesis
        by (intro dropped [of x c']) (simp_all add: take_bytes_def)
    qed
  qed
qed

lemma take_bytes_handlers:
  "buffer_event_handlers (fst (snd (take_bytes k h b cp))) = buffer_event_handlers (fst cp)"
proof -
  obtain c p where cp: "cp = (c, p)" by (cases cp)
  obtain r cq where run: "take_bytes k h b (c, p) = (r, cq)" by (meson surj_pair)
  then have "buffer_event_handlers (fst cq) = buffer_event_handlers c"
    by (cases rule: take_bytes_cases)
      (auto simp: on_stream_def push_frame_def elim!: post_event_cases split: prod.splits)
  with run cp show ?thesis by simp
qed

locale handler_turns =
  fixes k :: kernel and R :: "cbs_state \<Rightarrow> (error + unit) \<times> cbs_state \<Rightarrow> bool"
  assumes stay: "R cp (Inr (), cp)"
    and refuse: "\<forall>ex. e \<noteq> Socket_Exception ex \<Longrightarrow> R cp (Inl e, cp)"
    and turn: "h \<in> set (buffer_event_handlers (fst cp)) \<Longrightarrow> b \<noteq> 0 \<Longrightarrow> R cp (take_bytes k h b cp)"
    and follow: "R cp (Inr (), cq) \<Longrightarrow> R cq out \<Longrightarrow> R cp out"
begin

definition conforms :: "(cbs_state, error, unit) action \<Rightarrow> cbs_state \<Rightarrow> bool" where
  "conforms m cp = (R cp (m cp) \<and>
     buffer_event_handlers (fst (snd (m cp))) = buffer_event_handlers (fst cp))"

lemma conforms_bind:
  assumes "conforms m cp"
    and "\<And>cq. buffer_event_handlers (fst cq) = buffer_event_handlers (fst cp) \<Longrightarrow> conforms n cq"
  shows "conforms (bindA m (\<lambda>_. n)) cp"
proof -
  obtain r cq where m: "m cp = (r, cq)" by (meson surj_pair)
  with assms(1) have "R cp (r, cq)" and same: "buffer_event_handlers (fst cq) = buffer_event_handlers (fst cp)"
    by (simp_all add: conforms_def)
  with m assms(2) [OF same] same show ?thesis
    by (cases r) (auto simp: conforms_def intro: follow)
qed

lemma handlers_conform:
  assumes "\<And>rest cp. length rest < length data \<Longrightarrow> conforms (processDataSendSignals k rest) cp"
    and "set hs \<subseteq> set (buffer_event_handlers (fst cp))"
  shows "conforms (process_handlers k data hs) cp"
  using assms(2)
proof (induction hs arbitrary: cp)
  case (Cons h hs)
  let ?b = "condition h data"
  have "conforms (bindA (take_bytes k h ?b) (\<lambda>_. bindA (processDataSendSignals k (drop (abs_size ?b) data))
      (\<lambda>_. process_handlers k data hs))) cp" if "?b \<noteq> 0" "\<not> length data < abs_size ?b"
  proof (intro conforms_bind)
    show "conforms (take_bytes k h ?b) cp"
      using turn [OF _ that(1), of h cp] Cons.prems by (simp add: conforms_def take_bytes_handlers)
    fix cq :: cbs_state assume same: "buffer_event_handlers (fst cq) = buffer_event_handlers (fst cp)"
    show "conforms (processDataSendSignals k (drop (abs_size ?b) data)) cq"
      using that abs_size_pos [OF that(1)] by (intro assms(1)) auto
    fix cr :: cbs_state assume "buffer_event_handlers (fst cr) = buffer_event_handlers (fst cq)"
    with same Cons.prems show "conforms (process_handlers k data hs) cr" by (intro Cons.IH) simp
  qed
  moreover have "conforms (process_handlers k data hs) cp" using Cons by simp
  ultimately show ?case
    by (auto simp: process_handlers_turn conforms_def Let_def intro: refuse)
qed (simp add: process_handlers.simps conforms_def stay)

lemma process_conforms: "conforms (processDataSendSignals k data) cp"
proof (induction "length data" arbitrary: data cp rule: less_induct)
  case (less data cp)
  have "conforms (process_handlers k data (buffer_event_handlers (fst cp))) cp"
    by (rule handlers_conform) (auto intro: less.hyps)
  then show ?case by (simp add: processDataSendSignals.simps [of k data] conforms_def stay)
qed

lemma process: "R cp (processDataSendSignals k data cp)"
  using process_conforms by (simp add: conforms_def)

end

section \<open>Any conditions\<close>

text \<open>
  What chains: the buffer loses the bytes that were cut off its front, in order; every queue
  grows by its own frames; and every frame is posted once, unless the posting itself failed.
\<close>

definition cuts_account :: "cbs_state \<Rightarrow> (error + unit) \<times> cbs_state \<Rightarrow> bool" where
  "cuts_account cp out = (let (c, p) = cp; (r, (c', p')) = out in cbs_wf c \<longrightarrow>
     cbs_wf c' \<and> frozen c' = frozen c \<and> (\<forall>a. received a (history p') = received a (history p)) \<and>
     (\<exists>xs. bs_contents (cbs_stream c) = bytes_of xs @ bs_contents (cbs_stream c') \<and>
        list_all (\<lambda>x. snd x \<noteq> []) xs \<and>
        (\<forall>d q. received_data_per_condition c d = Some q \<longrightarrow>
           received_data_per_condition c' d = Some (q @ frames_for d xs)) \<and>
        ((\<forall>ex. r \<noteq> Inl (Socket_Exception ex)) \<longrightarrow> (\<forall>d. efd_count d (history p') =
           map_option (\<lambda>n. n + int (length (frames_for d xs))) (efd_count d (history p))))))"

lemma cuts_account_stay: "cuts_account cp (r, cp)"
  by (cases cp) (auto simp: cuts_account_def option.map_ident intro!: exI [of _ "[]"])

lemma cuts_account_follow:
  assumes "cuts_account cp (Inr (), cq)" and "cuts_account cq out"
  shows "cuts_account cp out"
proof -
  obtain c p c1 p1 r c' p' where [simp]: "cp = (c, p)" "cq = (c1, p1)" "out = (r, (c', p'))"
    by (metis surj_pair)
  show ?thesis
  proof (cases "cbs_wf c")
    case True
    with assms(1) obtain xs where xs: "cbs_wf c1" "bs_contents (cbs_stream c) = bytes_of xs @ bs_contents (cbs_stream c1)"
      "list_all (\<lambda>x. snd x \<noteq> []) xs" "frozen c1 = frozen c" "\<forall>a. received a (history p1) = received a (history p)"
      "\<forall>d q. received_data_per_condition c d = Some q \<longrightarrow> received_data_per_condition c1 d = Some (q @ frames_for d xs)"
      "\<forall>d. efd_count d (history p1) = map_option (\<lambda>n. n + int (length (frames_for d xs))) (efd_count d (history p))"
      by (auto simp: cuts_account_def)
    with assms(2) obtain ys where ys: "cbs_wf c'" "bs_contents (cbs_stream c1) = bytes_of ys @ bs_contents (cbs_stream c')"
      "list_all (\<lambda>x. snd x \<noteq> []) ys" "frozen c' = frozen c1" "\<forall>a. received a (history p') = received a (history p1)"
      "\<forall>d q. received_data_per_condition c1 d = Some q \<longrightarrow> received_data_per_condition c' d = Some (q @ frames_for d ys)"
      "(\<forall>ex. r \<noteq> Inl (Socket_Exception ex)) \<longrightarrow> (\<forall>d. efd_count d (history p') =
         map_option (\<lambda>n. n + int (length (frames_for d ys))) (efd_count d (history p1)))"
      by (auto simp: cuts_account_def)
    with xs show ?thesis
      by (auto simp: cuts_account_def option.map_comp o_def add.assoc intro!: exI [of _ "xs @ ys"])
  qed (simp add: cuts_account_def)
qed

lemma pop_account:
  assumes "cbs_wf c" and "on_stream (PopFromBuffer n) (c, p) = (Inr x, (c', p'))" and "0 < n"
  shows "cbs_wf c'" and "bs_contents (cbs_stream c) = x @ bs_contents (cbs_stream c')" and "x \<noteq> []"
    and "frozen c' = frozen c" and "received_data_per_condition c' = received_data_per_condition c"
    and "p' = p"
proof -
  from pop_spec [OF assms(1,2)] show "cbs_wf c'"
    and "bs_contents (cbs_stream c) = x @ bs_contents (cbs_stream c')" by simp_all
  have "bs_wf (cbs_stream c)" using assms(1) by (rule cbs_wf_buffer)
  moreover from this assms(2) have n: "n \<le> buffer_write_offset (cbs_stream c)"
    by (auto simp: on_stream_def PopFromBuffer_spec split: if_splits)
  ultimately have "bs_contents (cbs_stream c) \<noteq> []"
    using assms(3) length_bs_contents [of "cbs_stream c"] by (metis le_zero_eq length_0_conv less_irrefl)
  with \<open>bs_wf (cbs_stream c)\<close> n assms(2,3) show "x \<noteq> []" and "frozen c' = frozen c"
    and "received_data_per_condition c' = received_data_per_condition c" and "p' = p"
    by (auto simp: on_stream_def PopFromBuffer_spec frozen_def)
qed

lemma cuts_account_turn:
  assumes "h \<in> set (buffer_event_handlers (fst cp))" and "b \<noteq> 0"
  shows "cuts_account cp (take_bytes k h b cp)"
proof -
  obtain c p where cp: "cp = (c, p)" by (cases cp)
  obtain r cq where run: "take_bytes k h b (c, p) = (r, cq)" by (meson surj_pair)
  have "cuts_account (c, p) (r, cq)" if wf: "cbs_wf c"
    using run
  proof (cases rule: take_bytes_cases)
    case (framed x c')
    note pop = pop_account [OF wf framed(1) abs_size_pos [OF assms(2)]]
    let ?c = "push_frame (handler_fd h) x c'"
    have "handler_fd h \<in> set (handler_fds c')"
      using assms(1) cp pop(4) by (auto simp: frozen_def handler_fds_def)
    with pop(1) obtain q where q: "received_data_per_condition c' (handler_fd h) = Some q"
      and "cbs_wf ?c" using cbs_wf_known cbs_wf_push by blast
    moreover have "\<exists>p'. cq = (?c, p') \<and> (\<forall>a. received a (history p') = received a (history p)) \<and>
        ((\<forall>ex. r \<noteq> Inl (Socket_Exception ex)) \<longrightarrow> (\<forall>d. efd_count d (history p') =
           map_option (\<lambda>n. n + (if d = handler_fd h then 1 else 0)) (efd_count d (history p))))"
      using framed(3) by (cases rule: post_event_cases) (auto simp: option.map_ident socket_exception_def)
    ultimately show ?thesis using pop
      by (auto simp: cuts_account_def push_frame_def frozen_def intro!: exI [of _ "[(Some (handler_fd h), x)]"])
  next
    case (dropped x c')
    with pop_account [OF wf dropped(1) abs_size_pos [OF assms(2)]] show ?thesis
      by (auto simp: cuts_account_def option.map_ident intro!: exI [of _ "[(None, x)]"])
  qed (simp_all add: cuts_account_stay)
  then show ?thesis using run cp by (auto simp: cuts_account_def)
qed

interpretation turns_account: handler_turns k cuts_account for k
  by unfold_locales (auto simp: cuts_account_stay cuts_account_turn intro: cuts_account_follow)

text \<open>
  Cutting, for any number of conditions that are any functions. Whatever
  \<open>processDataSendSignals\<close> returns or throws, on whatever bytes it is called: the front of the
  buffer was cut into non-empty pieces, in order, and the rest is still there; each condition's
  queue has grown by exactly its own pieces, in order (pieces without a condition are those a
  negative answer discards); and unless a post failed, each descriptor was posted once per piece.
\<close>

theorem any_conditions_lose_no_byte:
  assumes "cbs_wf c" and "processDataSendSignals k data (c, p) = (r, (c', p'))"
  shows "cbs_wf c' \<and> (\<exists>xs. bs_contents (cbs_stream c) = bytes_of xs @ bs_contents (cbs_stream c') \<and>
    list_all (\<lambda>x. snd x \<noteq> []) xs \<and>
    (\<forall>d q. received_data_per_condition c d = Some q \<longrightarrow>
       received_data_per_condition c' d = Some (q @ frames_for d xs)) \<and>
    ((\<forall>ex. r \<noteq> Inl (Socket_Exception ex)) \<longrightarrow> (\<forall>d. efd_count d (history p') =
       map_option (\<lambda>n. n + int (length (frames_for d xs))) (efd_count d (history p)))))"
  using turns_account.process [of "(c, p)" k data] assms by (simp add: cuts_account_def)

theorem any_conditions_lose_no_byte_witness:
  "\<exists>xs c' p'. bs_contents (cbs_stream demo_two_conditions) = bytes_of xs @ bs_contents (cbs_stream c') \<and>
    received_data_per_condition c' 7 = Some (frames_for 7 xs) \<and>
    received_data_per_condition c' 8 = Some (frames_for 8 xs) \<and>
    snd (processDataSendSignals (reference_kernel demo_lines) ''a;bc;d''
      (demo_two_conditions, demo_conditional_process)) = (c', p')"
proof -
  obtain r c' p' where run: "processDataSendSignals (reference_kernel demo_lines) ''a;bc;d''
      (demo_two_conditions, demo_conditional_process) = (r, (c', p'))" by (metis prod_cases3)
  have "cbs_wf demo_two_conditions"
    by (auto simp: cbs_wf_def handler_fds_def demo_two_conditions_def demo_filled_def
        demo_conditional_def demo_buffered_def BufferedStream_construct_def Stream_move_def
        ConditionalBufferedStream_construct_def BufferedStream_move_def bs_wf_def)
  from any_conditions_lose_no_byte [OF this run] obtain xs where
    "bs_contents (cbs_stream demo_two_conditions) = bytes_of xs @ bs_contents (cbs_stream c')"
    "\<And>d q. received_data_per_condition demo_two_conditions d = Some q \<Longrightarrow>
       received_data_per_condition c' d = Some (q @ frames_for d xs)" by blast
  moreover have "received_data_per_condition demo_two_conditions 7 = Some []"
    "received_data_per_condition demo_two_conditions 8 = Some []" by code_simp+
  ultimately show ?thesis using run by (intro exI [of _ xs] exI [of _ c'] exI [of _ p']) fastforce
qed

section \<open>One condition: a functional reference\<close>

text \<open>
  What one condition makes of a sequence of bytes, without buffer, queue, process or posts: the
  result, the pieces with the descriptor they go to, and the bytes left over.
\<close>

function split_frames :: "fd \<Rightarrow> buffer_event_condition \<Rightarrow> char list \<Rightarrow>
    (error + unit) \<times> cut list \<times> char list" where
  "split_frames d cond data =
     (let b = cond data; n = abs_size b in
      if data = [] then (Inr (), [], [])
      else if b = INT_MIN then (Inl Undefined_Behaviour, [], data)
      else if length data < n then
        (Inl (Logic_Error
          ''a condition on a ConditionalBufferedStream tried to read more data, than exists''), [], data)
      else if b = 0 then (Inr (), [], data)
      else (let (r, xs, rest) = split_frames d cond (drop n data)
            in (r, ((if 0 < sint b then Some d else None), take n data) # xs, rest)))"
  by pat_completeness auto
termination
  by (relation "measure (\<lambda>(d, cond, data). length data)") (auto dest: abs_size_pos)

declare split_frames.simps [simp del]

text \<open>The single handler's recursion is a tail call.\<close>

lemma single_handler_step:
  assumes "buffer_event_handlers (fst cp) = [\<lparr>condition = cond, handler_fd = d\<rparr>]" and "data \<noteq> []"
  shows "processDataSendSignals k data cp =
     (let b = cond data; n = abs_size b in
      if b = INT_MIN then (Inl Undefined_Behaviour, cp)
      else if length data < n then
        (Inl (Logic_Error
          ''a condition on a ConditionalBufferedStream tried to read more data, than exists''), cp)
      else if b = 0 then (Inr (), cp)
      else bindA (take_bytes k \<lparr>condition = cond, handler_fd = d\<rparr> b)
          (\<lambda>_. processDataSendSignals k (drop n data)) cp)"
proof -
  have "bindA m (\<lambda>_. process_handlers k data []) = m" for m
    by (rule ext) (auto simp: bindA_def process_handlers.simps(1) split: prod.split sum.split)
  with assms show ?thesis
    by (simp add: processDataSendSignals.simps [of k data] process_handlers_turn
        process_handlers.simps(1) Let_def)
qed

text \<open>One piece: what a turn of the handler does when the descriptor takes the post.\<close>

lemma take_bytes_ok:
  assumes "eventfd_writable k" and "cbs_wf c" and "b \<noteq> 0"
    and "abs_size b \<le> length (bs_contents (cbs_stream c))"
    and "buffer_event_handlers c = [\<lparr>condition = cond, handler_fd = d\<rparr>]"
    and "received_data_per_condition c d = Some q"
    and "efd_count d (history p) = Some m" and "m < 2 ^ 64 - 2"
  shows "\<exists>c' p'. take_bytes k \<lparr>condition = cond, handler_fd = d\<rparr> b (c, p) = (Inr (), (c', p')) \<and>
    cbs_wf c' \<and> buffer_event_handlers c' = buffer_event_handlers c \<and>
    bs_contents (cbs_stream c') = drop (abs_size b) (bs_contents (cbs_stream c)) \<and>
    (let fs = frames_for d [(if 0 < sint b then Some d else None, take (abs_size b) (bs_contents (cbs_stream c)))]
     in received_data_per_condition c' = (received_data_per_condition c)(d \<mapsto> q @ fs) \<and>
       efd_count d (history p') = Some (m + int (length fs)))"
proof -
  let ?n = "abs_size b"
  note wf = cbs_wf_buffer [OF assms(2)]
  from assms(4) wf have n: "?n \<le> buffer_write_offset (cbs_stream c)" by simp
  then obtain c1 where pop: "on_stream (PopFromBuffer ?n) (c, p) = (Inr (take ?n (bs_contents (cbs_stream c))), (c1, p))"
    using wf by (simp add: on_stream_def PopFromBuffer_spec)
  note popped = pop_account [OF assms(2) pop abs_size_pos [OF assms(3)]]
  have rest: "bs_contents (cbs_stream c1) = drop ?n (bs_contents (cbs_stream c))"
    using popped(2) by (metis append_eq_conv_conj append_take_drop_id same_append_eq)
  have handlers: "buffer_event_handlers c1 = buffer_event_handlers c"
    using popped(4) by (simp add: frozen_def)
  show ?thesis
  proof (cases "0 < sint b")
    case True
    have "d \<in> set (handler_fds c1)" using handlers assms(5) by (simp add: handler_fds_def)
    then have "cbs_wf (push_frame d (take ?n (bs_contents (cbs_stream c))) c1)"
      using popped(1) by (rule cbs_wf_push)
    with True pop popped(5) rest handlers assms(6,7) post_event_ok [OF assms(1,7,8)] show ?thesis
      by (simp add: take_bytes_def signal_frame_def push_frame_def)
  next
    case False
    with pop popped rest handlers assms(6,7) show ?thesis
      by (auto simp: take_bytes_def map_upd_triv)
  qed
qed

lemma split_frames_Cons:
  assumes "data \<noteq> []" and "cond data \<noteq> INT_MIN" and "\<not> length data < abs_size (cond data)"
    and "cond data \<noteq> 0" and "split_frames d cond (drop (abs_size (cond data)) data) = (r, xs, rest)"
  shows "split_frames d cond data =
    (r, (if 0 < sint (cond data) then Some d else None, take (abs_size (cond data)) data) # xs, rest)"
  using assms by (simp add: split_frames.simps [of d cond data] Let_def)

lemma single_condition_splits:
  assumes "eventfd_writable k" and "cbs_wf c"
    and "buffer_event_handlers c = [\<lparr>condition = cond, handler_fd = d\<rparr>]"
    and "bs_contents (cbs_stream c) = data" and "received_data_per_condition c d = Some q"
    and "efd_count d (history p) = Some m" and "m + int (length data) < 2 ^ 64 - 1"
    and "split_frames d cond data = (r, xs, rest)"
  shows "\<exists>c' p'. processDataSendSignals k data (c, p) = (r, (c', p')) \<and>
    bs_contents (cbs_stream c') = rest \<and>
    received_data_per_condition c' = (received_data_per_condition c)(d \<mapsto> q @ frames_for d xs) \<and>
    efd_count d (history p') = Some (m + int (length (frames_for d xs)))"
  using assms(2-8)
proof (induction "length data" arbitrary: data c p q m xs rule: less_induct)
  case less
  let ?b = "cond data"
  let ?n = "abs_size ?b"
  note handlers = less.prems(2)
  show ?case
  proof (cases "data = [] \<or> ?b = INT_MIN \<or> length data < ?n \<or> ?b = 0")
    case True
    with less.prems(3-7) single_handler_step [of "(c, p)", OF _ , of cond d data k] handlers show ?thesis
      by (auto simp: processDataSendSignals.simps [of k "[]"] split_frames.simps [of d cond data]
          Let_def map_upd_triv INT_MIN_def split: if_splits)
  next
    case False
    then have b: "data \<noteq> []" "?b \<noteq> INT_MIN" "\<not> length data < ?n" "?b \<noteq> 0" by auto
    have pos: "0 < ?n" using b(4) by (rule abs_size_pos)
    obtain r' ys rest' where ys: "split_frames d cond (drop ?n data) = (r', ys, rest')" by (metis prod_cases3)
    from split_frames_Cons [OF b ys] less.prems(7) have eq: "r' = r" "rest' = rest"
      "xs = (if 0 < sint ?b then Some d else None, take ?n data) # ys" by simp_all
    let ?fs = "frames_for d [(if 0 < sint ?b then Some d else None, take ?n data)]"
    have "m < 2 ^ 64 - 2" using less.prems(6) b(1) by (cases data) auto
    from take_bytes_ok [OF assms(1) less.prems(1) b(4) _ handlers less.prems(4,5) this] b(3) less.prems(3)
    obtain c1 p1 where turn: "take_bytes k \<lparr>condition = cond, handler_fd = d\<rparr> ?b (c, p) = (Inr (), (c1, p1))"
      "cbs_wf c1" "buffer_event_handlers c1 = buffer_event_handlers c"
      "bs_contents (cbs_stream c1) = drop ?n data"
      "received_data_per_condition c1 = (received_data_per_condition c)(d \<mapsto> q @ ?fs)"
      "efd_count d (history p1) = Some (m + int (length ?fs))"
      by (auto simp: Let_def)
    have "m + int (length ?fs) + int (length (drop ?n data)) < 2 ^ 64 - 1"
      using less.prems(6) b(3) pos by (auto simp: frames_for_def)
    from less.hyps [OF _ turn(2) turn(3) [unfolded handlers] turn(4) _ turn(6) this ys [unfolded eq],
        of "q @ ?fs"] turn(5) b pos
    obtain c' p' where "processDataSendSignals k (drop ?n data) (c1, p1) = (r, (c', p'))"
      "bs_contents (cbs_stream c') = rest"
      "received_data_per_condition c' = (received_data_per_condition c)(d \<mapsto> (q @ ?fs) @ frames_for d ys)"
      "efd_count d (history p') = Some (m + int (length ?fs) + int (length (frames_for d ys)))"
      by auto
    with single_handler_step [of "(c, p)" cond d data k] handlers b turn(1) eq(3) show ?thesis
      by (simp add: Let_def add.assoc)
  qed
qed

text \<open>
  C11: \<open>processDataSendSignals\<close> with one condition, any function at all, computes \<open>split_frames\<close>:
  the same result or exception, the pieces with a positive answer appended to the queue and posted
  once each, the left-over bytes in the buffer.
\<close>

theorem single_condition_equals_split:
  assumes "eventfd_writable k" and "cbs_wf c"
    and "buffer_event_handlers c = [\<lparr>condition = cond, handler_fd = d\<rparr>]"
    and "bs_contents (cbs_stream c) = data" and "received_data_per_condition c d = Some q"
    and "efd_count d (history p) = Some m" and "m + int (length data) < 2 ^ 64 - 1"
    and "split_frames d cond data = (r, xs, rest)"
  shows "\<exists>c' p'. processDataSendSignals k data (c, p) = (r, (c', p')) \<and>
    bs_contents (cbs_stream c') = rest \<and>
    received_data_per_condition c' = (received_data_per_condition c)(d \<mapsto> q @ frames_for d xs) \<and>
    efd_count d (history p') = Some (m + int (length (frames_for d xs)))"
  using assms by (rule single_condition_splits)

text \<open>
  A condition with all three kinds of answers: skip one byte at a blank, take three bytes if
  there are as many, and otherwise ask for too many.
\<close>

definition demo_condition :: buffer_event_condition where
  "demo_condition data = (if take 1 data = '' '' then -1 else if 3 \<le> length data then 3 else 9)"

definition demo_packets :: ConditionalBufferedStream where
  "demo_packets = demo_filled\<lparr>buffer_event_handlers := [\<lparr>condition = demo_condition, handler_fd = 7\<rparr>],
     cbs_stream := (cbs_stream demo_filled)\<lparr>stream_buffer := Some '' abc de.'', buffer_write_offset := 7\<rparr>\<rparr>"

theorem single_condition_equals_split_witness:
  "\<exists>c' p'. processDataSendSignals (reference_kernel demo_lines) '' abc de''
      (demo_packets, demo_conditional_process) =
      (Inl (Logic_Error
        ''a condition on a ConditionalBufferedStream tried to read more data, than exists''), (c', p')) \<and>
    bs_contents (cbs_stream c') = ''de'' \<and> received_data_per_condition c' = [7 \<mapsto> [''abc'']]"
proof -
  have "split_frames 7 demo_condition '' abc de'' = (Inl (Logic_Error
      ''a condition on a ConditionalBufferedStream tried to read more data, than exists''),
      [(None, '' ''), (Some 7, ''abc''), (None, '' '')], ''de'')" by code_simp
  moreover have "cbs_wf demo_packets"
    by (simp add: cbs_wf_def handler_fds_def demo_packets_def demo_filled_def demo_conditional_def bs_wf_def
        ConditionalBufferedStream_construct_def demo_buffered_def BufferedStream_construct_def
        BufferedStream_move_def Stream_move_def)
  moreover have "bs_contents (cbs_stream demo_packets) = '' abc de''"
    "efd_count 7 (history demo_conditional_process) = Some 0" by code_simp+
  ultimately show ?thesis
    using single_condition_equals_split [OF reference_eventfd_writable, of demo_packets demo_condition 7
        "'' abc de''" "[]" demo_conditional_process 0 _ _ _ demo_lines]
    by (fastforce simp: demo_packets_def demo_filled_def demo_conditional_def)
qed

section \<open>Round trip of delimited messages\<close>

text \<open>Messages written one after the other, each followed by the delimiter.\<close>

definition delimited_text :: "char \<Rightarrow> char list list \<Rightarrow> char list" where
  "delimited_text \<delta> ms = concat (map (\<lambda>m. m @ [\<delta>]) ms)"

lemma delimited_text_simps [simp]:
  "delimited_text \<delta> [] = []" "delimited_text \<delta> (m # ms) = m @ \<delta> # delimited_text \<delta> ms"
  "delimited_text \<delta> (ms @ ns) = delimited_text \<delta> ms @ delimited_text \<delta> ns"
  by (simp_all add: delimited_text_def)

lemma split_delimited:
  assumes "\<forall>m \<in> set ms. \<delta> \<notin> set m" and "\<delta> \<notin> set rest"
    and "length (delimited_text \<delta> ms @ rest) < 2 ^ 31 - 1"
  shows "split_frames d (getDelimiterCondition \<delta>) (delimited_text \<delta> ms @ rest) =
    (Inr (), map (\<lambda>m. (Some d, m @ [\<delta>])) ms, rest)"
  using assms
proof (induction ms)
  case Nil
  then show ?case
    by (simp add: split_frames.simps getDelimiterCondition_absent INT_MIN_def)
next
  case (Cons m ms)
  let ?data = "delimited_text \<delta> (m # ms) @ rest"
  have pos: "find_index \<delta> ?data = length m" using Cons.prems(1) by (simp add: find_index_append)
  note small = getDelimiterCondition_small [OF Cons.prems(3)]
  have "split_frames d (getDelimiterCondition \<delta>) (drop (abs_size (getDelimiterCondition \<delta> ?data)) ?data) =
      (Inr (), map (\<lambda>m. (Some d, m @ [\<delta>])) ms, rest)"
    using Cons small(2) pos by simp
  from split_frames_Cons [OF _ _ _ _ this] small pos show ?case by simp
qed

text \<open>
  C13: messages survive framing. If the buffer holds messages that do not contain the delimiter,
  each followed by it, and the start of another, then \<open>processDataSendSignals\<close> returns normally
  with exactly these messages, each with its delimiter, appended to the queue in order, one post
  per message, and the incomplete message left in the buffer.
\<close>

theorem delimited_messages_roundtrip:
  assumes "eventfd_writable k" and "cbs_wf c" and "buffer_event_handlers c = [delimiter_handler \<delta> d]"
    and "bs_contents (cbs_stream c) = delimited_text \<delta> ms @ rest"
    and "\<forall>m \<in> set ms. \<delta> \<notin> set m" and "\<delta> \<notin> set rest"
    and "length (delimited_text \<delta> ms @ rest) < 2 ^ 31 - 1"
    and "received_data_per_condition c d = Some q"
    and "efd_count d (history p) = Some n" and "n + int (length (delimited_text \<delta> ms @ rest)) < 2 ^ 64 - 1"
  shows "\<exists>c' p'. processDataSendSignals k (delimited_text \<delta> ms @ rest) (c, p) = (Inr (), (c', p')) \<and>
    received_data_per_condition c' = (received_data_per_condition c)(d \<mapsto> q @ map (\<lambda>m. m @ [\<delta>]) ms) \<and>
    bs_contents (cbs_stream c') = rest \<and> efd_count d (history p') = Some (n + int (length ms))"
proof -
  have "frames_for d (map (\<lambda>m. (Some d, m @ [\<delta>])) ms) = map (\<lambda>m. m @ [\<delta>]) ms"
    by (induction ms) simp_all
  with single_condition_splits [OF assms(1-4,8-10) split_delimited [OF assms(5-7)]] show ?thesis
    by auto
qed

theorem delimited_messages_roundtrip_witness:
  "\<exists>c' p'. processDataSendSignals (reference_kernel demo_lines) ''a;bc;d''
      (demo_filled, demo_conditional_process) = (Inr (), (c', p')) \<and>
    received_data_per_condition c' = [7 \<mapsto> [''a;'', ''bc;'']] \<and> bs_contents (cbs_stream c') = ''d''"
proof -
  have "cbs_wf demo_filled"
    by (simp add: cbs_wf_def handler_fds_def demo_filled_def demo_conditional_def bs_wf_def
        ConditionalBufferedStream_construct_def demo_buffered_def BufferedStream_construct_def
        BufferedStream_move_def Stream_move_def)
  moreover have "bs_contents (cbs_stream demo_filled) = delimited_text (CHR '';'') [''a'', ''bc''] @ ''d''"
    "efd_count 7 (history demo_conditional_process) = Some 0" by code_simp+
  ultimately show ?thesis
    using delimited_messages_roundtrip [OF reference_eventfd_writable, of demo_filled "CHR '';''" 7
        "[''a'', ''bc'']" "''d''" "[]" demo_conditional_process 0 demo_lines]
    by (fastforce simp: demo_filled_def demo_conditional_def)
qed

end
