(* ===== verification/Conditional_Concurrency.thy ===== *)
theory Conditional_Concurrency
  imports Conditional_Errors Conditional_Turns
begin

text \<open>
  The worker of a \<open>ConditionalBufferedStream\<close> and the threads of its clients, step by step. A
  step is what a thread does between two releases of a mutex, or one system call: the worker
  refills the buffer, cuts a frame and queues it (lines 50 to 56 of
  \<open>ConditionalBufferedStream.cpp\<close>, under the lock), posts it (57 to 63), or, after an exception,
  records it and posts every condition (24 to 35); a reader polls, takes a post off the \<open>eventfd\<close>
  (132) and then calls \<open>read\<close> (136, under the lock); other threads write to the stream or stop
  its reads. Between any two steps of one thread the others may take any number of steps.
\<close>

section \<open>States and steps\<close>

datatype worker_pc = Running | Posting fd | Notifying "fd list" | Ended

text \<open>
  \<open>taking d\<close> counts the readers that have taken a post of condition \<open>d\<close> and have not called
  \<open>read\<close> yet.
\<close>

record concurrent_state =
  object :: ConditionalBufferedStream
  proc :: process
  worker :: worker_pc
  taking :: "fd \<Rightarrow> nat"

inductive concurrent_event :: "kernel \<Rightarrow> concurrent_state \<Rightarrow> step_label \<Rightarrow> concurrent_state \<Rightarrow> bool"
  for k where
  refill: "worker s = Running \<Longrightarrow>
    on_stream (readAvailableDataIntoBuffer k (-1)) (object s, proc s) = (Inr n, (c, p)) \<Longrightarrow>
    concurrent_event k s Internal (s\<lparr>object := c, proc := p\<rparr>)"
| refill_stopped: "worker s = Running \<Longrightarrow>
    on_stream (readAvailableDataIntoBuffer k (-1)) (object s, proc s) = (Inl (Socket_Exception ex), (c, p)) \<Longrightarrow>
    exception_type ex = SOCKET_TERMINATION_REQUEST \<Longrightarrow>
    concurrent_event k s Internal (s\<lparr>object := c, proc := p, worker := Ended\<rparr>)"
| refill_failed: "worker s = Running \<Longrightarrow>
    on_stream (readAvailableDataIntoBuffer k (-1)) (object s, proc s) = (Inl (Socket_Exception ex), (c, p)) \<Longrightarrow>
    exception_type ex \<noteq> SOCKET_TERMINATION_REQUEST \<Longrightarrow>
    concurrent_event k s Internal (s\<lparr>object := c\<lparr>last_ex := exception_type ex\<rparr>, proc := p,
      worker := Notifying (handler_fds c)\<rparr>)"
| discard: "worker s = Running \<Longrightarrow>
    on_stream (PopFromBuffer n) (object s, proc s) = (Inr x, (c, p)) \<Longrightarrow>
    concurrent_event k s (Discarded x) (s\<lparr>object := c, proc := p\<rparr>)"
| cut: "worker s = Running \<Longrightarrow> d \<in> set (handler_fds (object s)) \<Longrightarrow>
    on_stream (PopFromBuffer n) (object s, proc s) = (Inr x, (c, p)) \<Longrightarrow>
    concurrent_event k s (Cut d x) (s\<lparr>object := push_frame d x c, proc := p, worker := Posting d\<rparr>)"
| post: "worker s = Posting d \<Longrightarrow> sys_eventfd_write k d 1 (proc s) = (Some u, p) \<Longrightarrow>
    concurrent_event k s Internal (s\<lparr>proc := p, worker := Running\<rparr>)"
| post_failed: "worker s = Posting d \<Longrightarrow> sys_eventfd_write k d 1 (proc s) = (None, p) \<Longrightarrow>
    concurrent_event k s Internal (s\<lparr>object := (object s)\<lparr>last_ex := SOCKET_WRITE\<rparr>, proc := p,
      worker := Notifying (handler_fds (object s))\<rparr>)"
| notify: "worker s = Notifying (d # ds) \<Longrightarrow> sys_eventfd_write k d 1 (proc s) = (Some u, p) \<Longrightarrow>
    concurrent_event k s Internal (s\<lparr>proc := p, worker := Notifying ds\<rparr>)"
| notified: "worker s = Notifying [] \<Longrightarrow> concurrent_event k s Internal (s\<lparr>worker := Ended\<rparr>)"
| polled: "sys_poll k ds t (proc s) = (v, p) \<Longrightarrow> concurrent_event k s Internal (s\<lparr>proc := p\<rparr>)"
| take_post: "sys_eventfd_read k d (proc s) = (Some v, p) \<Longrightarrow>
    concurrent_event k s Internal (s\<lparr>proc := p, taking := (taking s)(d := Suc (taking s d))\<rparr>)"
| take_failed: "sys_eventfd_read k d (proc s) = (None, p) \<Longrightarrow>
    concurrent_event k s Internal (s\<lparr>proc := p\<rparr>)"
| read: "0 < taking s d \<Longrightarrow> ConditionalBufferedStream_read d (object s) = (r, c) \<Longrightarrow>
    concurrent_event k s (Handed d r) (s\<lparr>object := c, taking := (taking s)(d := taking s d - 1)\<rparr>)"
| read_directly: "ConditionalBufferedStream_read d (object s) = (r, c) \<Longrightarrow>
    concurrent_event k s (Handed_Directly d r) (s\<lparr>object := c\<rparr>)"
| send: "sys_write k (bs_fd (cbs_stream (object s))) bs (proc s) = (w, p) \<Longrightarrow>
    concurrent_event k s Internal (s\<lparr>proc := p\<rparr>)"
| pause: "concurrent_event k s Internal (s\<lparr>proc := sys_sleep ms (proc s)\<rparr>)"
| stop: "ConditionalBufferedStream_stopReads k (object s, proc s) = (r, (c, p)) \<Longrightarrow>
    concurrent_event k s Internal (s\<lparr>object := c, proc := p\<rparr>)"

text \<open>
  What a label says is defined in \<open>Frame_Mailbox\<close>. The steps of clients that go through \<open>readBlocking\<close> with an \<open>eventfd\<close> that can be read: every
  call of \<open>read\<close> then follows a post that was taken.
\<close>

fun bypasses_post :: "step_label \<Rightarrow> bool" where
  "bypasses_post (Handed_Directly _ _) = True"
| "bypasses_post _ = False"

definition concurrent_step :: "kernel \<Rightarrow> concurrent_state \<Rightarrow> concurrent_state \<Rightarrow> bool" where
  "concurrent_step k s t = (\<exists>l. concurrent_event k s l t \<and> \<not> bypasses_post l)"

lemma concurrent_step_intro: "concurrent_event k s l t \<Longrightarrow> \<not> bypasses_post l \<Longrightarrow> concurrent_step k s t"
  by (auto simp: concurrent_step_def)

lemma runs_concurrent_steps:
  assumes "runs (concurrent_event k) s ls t" and "list_all (\<lambda>l. \<not> bypasses_post l) ls"
  shows "(concurrent_step k)\<^sup>*\<^sup>* s t"
proof -
  have "concurrent_step k = (\<lambda>s t. \<exists>l. concurrent_event k s l t \<and> \<not> bypasses_post l)"
    by (intro ext) (simp add: concurrent_step_def)
  with runs_rtranclp [OF assms] show ?thesis by simp
qed

inductive_cases concurrent_eventE: "concurrent_event k s l t"

text \<open>The state after \<open>start()\<close>: nothing queued, no posts, no readers.\<close>

definition concurrent_start :: "ConditionalBufferedStream \<Rightarrow> process \<Rightarrow> concurrent_state" where
  "concurrent_start c p = \<lparr>object = c, proc = p, worker = Running, taking = (\<lambda>_. 0)\<rparr>"

text \<open>
  \<open>eventfd(2)\<close> with \<open>EFD_SEMAPHORE\<close>: a read returns 1, and only when the counter is above zero.
\<close>

definition eventfd_semaphore :: "kernel \<Rightarrow> bool" where
  "eventfd_semaphore k = (\<forall>h d v. k_eventfd_read k h d = Inr v \<longrightarrow>
     v = 1 \<and> (\<exists>n. efd_count d h = Some n \<and> 0 < n))"

lemma reference_eventfd_semaphore [simp]: "eventfd_semaphore (reference_kernel sc)"
  by (auto simp: eventfd_semaphore_def reference_kernel_def reference_efd_read_def
      split: option.splits if_splits)

section \<open>The invariant\<close>

text \<open>
  As long as the worker has not failed, the queue of a condition is exactly as long as the
  posts that are not taken, the readers on their way to \<open>read\<close>, and the one post the worker
  still owes.
\<close>

definition owed :: "worker_pc \<Rightarrow> fd \<Rightarrow> int" where
  "owed w d = (if w = Posting d then 1 else 0)"

abbreviation stop_fd :: "ConditionalBufferedStream \<Rightarrow> fd" where
  "stop_fd c \<equiv> stop_all_operations_event_fd (bs_stream (cbs_stream c))"

definition posts_match :: "fd \<Rightarrow> concurrent_state \<Rightarrow> bool" where
  "posts_match d s = (stop_fd (object s) \<noteq> d \<and> (last_ex (object s) = SOCKET_OK \<longrightarrow>
     (\<forall>ds. worker s \<noteq> Notifying ds) \<and>
     (\<exists>q n. received_data_per_condition (object s) d = Some q \<and>
        efd_count d (history (proc s)) = Some n \<and> 0 \<le> n \<and>
        n + int (taking s d) + owed (worker s) d = int (length q))))"

text \<open>Exceptions of a refill are never of type \<open>SOCKET_OK\<close>.\<close>

lemma Stream_read_loop_type:
  assumes "Stream_read_loop k s off max_bytes min_bytes t read_bytes (m, p) = (r, mp')"
    and "r = Inl e"
  shows "\<exists>ex. e = Socket_Exception ex \<and> exception_type ex \<noteq> SOCKET_OK"
  using assms
proof (induction "min_bytes - read_bytes" arbitrary: read_bytes m p rule: less_induct)
  case less
  from less.prems(1) show ?case
  proof (cases rule: Stream_read_loop_cases)
    case (more rs bs)
    have "min_bytes - (read_bytes + length bs) < min_bytes - read_bytes"
      using more(1,4) by (simp add: diff_less_mono2)
    from less.hyps [OF this more(6) less.prems(2)] show ?thesis .
  qed (use less.prems(2) in \<open>auto simp: socket_exception_def\<close>)
qed

lemma refill_keeps:
  assumes "on_stream (readAvailableDataIntoBuffer k t) (c, p) = (r, (c', p'))"
  shows "received_data_per_condition c' = received_data_per_condition c"
    and "last_ex c' = last_ex c" and "efd_count d (history p') = efd_count d (history p)"
    and "r = Inl (Socket_Exception ex) \<Longrightarrow> exception_type ex \<noteq> SOCKET_OK"
    and "bs_stream (cbs_stream c') = bs_stream (cbs_stream c)"
    and "buffer_event_handlers c' = buffer_event_handlers c"
    and "r = Inl e \<Longrightarrow> (\<exists>ex. e = Socket_Exception ex) \<or> (c', p') = (c, p)"
proof -
  obtain v b q where run: "readAvailableDataIntoBuffer k t (cbs_stream c, p) = (v, (b, q))"
    by (metis prod_cases3)
  with assms have eq: "c' = c\<lparr>cbs_stream := b\<rparr>" "p' = q" "r = v"
    by (auto simp: on_stream_def)
  then show "received_data_per_condition c' = received_data_per_condition c"
    and "last_ex c' = last_ex c"
    and "buffer_event_handlers c' = buffer_event_handlers c" by simp_all
  from run eq(1) show "bs_stream (cbs_stream c') = bs_stream (cbs_stream c)"
    by (auto simp: readAvailableDataIntoBuffer_def Let_def split: option.splits prod.splits sum.splits)
  from readAvailable_count [OF run] eq show "efd_count d (history p') = efd_count d (history p)" by simp
  show "exception_type ex \<noteq> SOCKET_OK" if "r = Inl (Socket_Exception ex)"
    using run that eq(3)
    by (auto simp: readAvailableDataIntoBuffer_def Let_def Stream_read_def
        dest: Stream_read_loop_type split: option.splits prod.splits sum.splits)
  show "(\<exists>ex. e = Socket_Exception ex) \<or> (c', p') = (c, p)" if "r = Inl e"
    using run that eq
    by (auto simp: readAvailableDataIntoBuffer_def Let_def Stream_read_def
        dest: Stream_read_loop_type split: option.splits prod.splits sum.splits)
qed

lemma pop_keeps:
  assumes "on_stream (PopFromBuffer n) (c, p) = (r, (c', p'))"
  shows "received_data_per_condition c' = received_data_per_condition c"
    and "last_ex c' = last_ex c" and "p' = p"
    and "bs_stream (cbs_stream c') = bs_stream (cbs_stream c)"
    and "buffer_event_handlers c' = buffer_event_handlers c"
  using assms by (auto simp: on_stream_def PopFromBuffer_def Let_def split: prod.splits if_splits option.splits)

lemma read_keeps:
  assumes "ConditionalBufferedStream_read d c = (r, c')"
  shows "last_ex c' = last_ex c" and "cbs_stream c' = cbs_stream c"
    and "buffer_event_handlers c' = buffer_event_handlers c"
  using assms by (auto simp: ConditionalBufferedStream_read_def split: option.splits list.splits if_splits)

lemma stop_keeps:
  assumes "ConditionalBufferedStream_stopReads k (c, p) = (r, (c', p'))"
  shows "c' = c\<lparr>termination_requested := True\<rparr>"
    and "d \<noteq> stop_fd c \<Longrightarrow> efd_count d (history p') = efd_count d (history p)"
    and "received a (history p') = received a (history p)"
  using assms
  by (auto simp: ConditionalBufferedStream_stopReads_def on_stream_def BufferedStream_stopReads_def
      Stream_stopReads_def ignore_result_def sys_eventfd_write_def syscall_def split: sum.splits)

text \<open>The reader's step is the one with an argument to make: its queue is not empty.\<close>

lemma posts_match_read:
  assumes "posts_match d s" and "0 < taking s e"
    and "ConditionalBufferedStream_read e (object s) = (r, c)"
  shows "posts_match d (s\<lparr>object := c, taking := (taking s)(e := taking s e - 1)\<rparr>)"
proof (cases "last_ex (object s) = SOCKET_OK")
  case False
  with assms(1) read_keeps [OF assms(3)] show ?thesis by (simp add: posts_match_def)
next
  case True
  with assms(1) obtain q n where inv: "received_data_per_condition (object s) d = Some q"
    "efd_count d (history (proc s)) = Some n" "0 \<le> n" "stop_fd (object s) \<noteq> d"
    "n + int (taking s d) + owed (worker s) d = int (length q)" "\<forall>ds. worker s \<noteq> Notifying ds"
    by (auto simp: posts_match_def)
  show ?thesis
  proof (cases "e = d")
    case True
    with inv assms(2) have "q \<noteq> []" by (auto simp: owed_def split: if_splits)
    then obtain x q' where "q = x # q'" by (cases q) auto
    with assms(2,3) True inv show ?thesis
      by (auto simp: posts_match_def ConditionalBufferedStream_read_def)
  next
    case False
    with assms(2,3) inv show ?thesis
      by (auto simp: posts_match_def ConditionalBufferedStream_read_def
          split: option.splits list.splits if_splits)
  qed
qed

lemma posts_match_take:
  assumes "eventfd_semaphore k" and "posts_match d s" and "sys_eventfd_read k e (proc s) = (Some v, p)"
  shows "posts_match d (s\<lparr>proc := p, taking := (taking s)(e := Suc (taking s e))\<rparr>)"
proof -
  from assms(3) have "k_eventfd_read k (history (proc s)) e = Inr v"
    and p: "p = log_event (Ev_Eventfd_Read e (Inr v)) (proc s)"
    by (auto simp: sys_eventfd_read_def syscall_def split: sum.splits)
  with assms(1) have "v = 1" and "\<exists>n. efd_count e (history (proc s)) = Some n \<and> 0 < n"
    by (auto simp: eventfd_semaphore_def)
  with assms(2) p show ?thesis by (auto simp: posts_match_def)
qed

lemma posts_match_event:
  assumes "eventfd_semaphore k" and "concurrent_event k s l t" and "\<not> bypasses_post l"
    and "posts_match d s"
  shows "posts_match d t"
  using assms(2)
proof (cases rule: concurrent_event.cases)
  case (refill n c p)
  with assms(4) refill_keeps [OF refill(4)] show ?thesis by (auto simp: posts_match_def)
next
  case (refill_stopped ex c p)
  with assms(4) refill_keeps [OF refill_stopped(4)] show ?thesis
    by (auto simp: posts_match_def owed_def)
next
  case (refill_failed ex c p)
  with assms(4) refill_keeps [OF refill_failed(4)] show ?thesis by (simp add: posts_match_def)
next
  case (discard n x c p)
  with assms(4) pop_keeps [OF discard(4)] show ?thesis by (auto simp: posts_match_def)
next
  case (cut e n x c p)
  with assms(4) pop_keeps [OF cut(5)] show ?thesis
    by (auto simp: posts_match_def push_frame_def owed_def)
next
  case (post e u p)
  with assms(4) show ?thesis
    by (auto simp: posts_match_def owed_def sys_eventfd_write_def syscall_def split: sum.splits)
next
  case (take_post e v p)
  with posts_match_take [OF assms(1,4)] show ?thesis by simp
next
  case (read e r c)
  with posts_match_read [OF assms(4)] show ?thesis by simp
next
  case (stop r c p)
  with assms(4) stop_keeps [OF stop(3)] show ?thesis by (auto simp: posts_match_def)
qed (use assms(3,4) in \<open>auto simp: posts_match_def sys_poll_def sys_eventfd_read_def sys_write_def
    sys_sleep_def syscall_def split: sum.splits\<close>)

lemma posts_match_step:
  "eventfd_semaphore k \<Longrightarrow> concurrent_step k s t \<Longrightarrow> posts_match d s \<Longrightarrow> posts_match d t"
  by (auto simp: concurrent_step_def intro: posts_match_event)

lemma posts_match_reachable:
  assumes "eventfd_semaphore k" and "(concurrent_step k)\<^sup>*\<^sup>* s t" and "posts_match d s"
  shows "posts_match d t"
  using assms(2,3) by (induction rule: rtranclp_induct) (auto intro: posts_match_step [OF assms(1)])

lemma posts_match_start:
  assumes "last_ex c = SOCKET_OK" and "received_data_per_condition c d = Some []"
    and "efd_count d (history p) = Some 0" and "d \<noteq> stop_fd c"
  shows "posts_match d (concurrent_start c p)"
  using assms by (simp add: posts_match_def concurrent_start_def owed_def)

text \<open>
  C5: no lost and no spurious wake-ups. However the worker, any number of readers in
  \<open>readBlocking\<close>, writers and calls of \<open>stopReads\<close> interleave after \<open>start()\<close>: as long as the
  worker has not failed, every queued frame is accounted for by a post that is still to be
  taken, a reader on its way, or the post the worker is about to make; and a reader that has
  taken a post always gets a frame, or the worker's error, and never the \<open>std::out_of_range\<close> of
  an empty queue.
\<close>

theorem readers_find_their_frame:
  assumes "eventfd_semaphore k" and "last_ex c = SOCKET_OK"
    and "received_data_per_condition c d = Some []" and "efd_count d (history p) = Some 0"
    and "d \<noteq> stop_fd c" and "(concurrent_step k)\<^sup>*\<^sup>* (concurrent_start c p) s"
  shows "(last_ex (object s) = SOCKET_OK \<longrightarrow> (\<exists>q n. received_data_per_condition (object s) d = Some q \<and>
      efd_count d (history (proc s)) = Some n \<and>
      int (length q) = n + int (taking s d) + owed (worker s) d)) \<and>
    (0 < taking s d \<longrightarrow> (case fst (ConditionalBufferedStream_read d (object s)) of
        Inr frame \<Rightarrow> True
      | Inl e \<Rightarrow> last_ex (object s) \<noteq> SOCKET_OK \<and> (\<forall>text. e \<noteq> Out_Of_Range text)))"
proof -
  have inv: "posts_match d s"
    using posts_match_reachable [OF assms(1,6) posts_match_start [OF assms(2-5)]] .
  show ?thesis
  proof (cases "last_ex (object s) = SOCKET_OK")
    case True
    with inv obtain q n where "received_data_per_condition (object s) d = Some q"
      "efd_count d (history (proc s)) = Some n" "0 \<le> n"
      "n + int (taking s d) + owed (worker s) d = int (length q)"
      by (auto simp: posts_match_def)
    moreover from this have "0 < taking s d \<Longrightarrow> q \<noteq> []" by (auto simp: owed_def split: if_splits)
    ultimately show ?thesis by (cases q) (auto simp: ConditionalBufferedStream_read_def)
  next
    case False
    then show ?thesis
      by (auto simp: ConditionalBufferedStream_read_def socket_exception_def
          split: option.splits list.splits sum.splits)
  qed
qed

text \<open>A run of the example: the worker cuts the first frame and posts it, a reader takes the post.\<close>

lemma demo_run:
  "\<exists>s t. runs (concurrent_event (reference_kernel demo_lines))
      (concurrent_start demo_conditional demo_conditional_process) [Internal, Cut 7 ''a;'', Internal] s \<and>
    taking s 7 = 0 \<and> worker s = Running \<and> last_ex (object s) = SOCKET_OK \<and>
    received_data_per_condition (object s) 7 = Some [''a;''] \<and>
    k_poll (reference_kernel demo_lines) (history (proc s)) [7] (-1) = Inr [1] \<and>
    concurrent_event (reference_kernel demo_lines) s Internal t \<and>
    taking t 7 = 1 \<and> received_data_per_condition (object t) 7 = Some [''a;'']"
proof -
  let ?k = "reference_kernel demo_lines"
  let ?s0 = "concurrent_start demo_conditional demo_conditional_process"
  let ?r1 = "on_stream (readAvailableDataIntoBuffer ?k (-1)) (demo_conditional, demo_conditional_process)"
  let ?c1 = "fst (snd ?r1)" and ?p1 = "snd (snd ?r1)"
  let ?s1 = "?s0\<lparr>object := ?c1, proc := ?p1\<rparr>"
  let ?r2 = "on_stream (PopFromBuffer 2) (?c1, ?p1)"
  let ?c2 = "push_frame 7 ''a;'' (fst (snd ?r2))" and ?p2 = "snd (snd ?r2)"
  let ?s2 = "?s1\<lparr>object := ?c2, proc := ?p2, worker := Posting 7\<rparr>"
  let ?r3 = "sys_eventfd_write ?k 7 1 ?p2"
  let ?s3 = "?s2\<lparr>proc := snd ?r3, worker := Running\<rparr>"
  let ?r4 = "sys_eventfd_read ?k 7 (snd ?r3)"
  let ?s4 = "?s3\<lparr>proc := snd ?r4, taking := (taking ?s3)(7 := Suc (taking ?s3 7))\<rparr>"
  have results: "fst ?r1 = Inr 4" "fst ?r2 = Inr ''a;''" "fst ?r3 = Some ()" "fst ?r4 = Some 1"
    and handlers: "handler_fds ?c1 = [7]"
    and queue: "received_data_per_condition ?c2 7 = Some [''a;'']" "last_ex ?c2 = SOCKET_OK"
      "k_poll ?k (history (snd ?r3)) [7] (-1) = Inr [1]" by code_simp+
  have "concurrent_event ?k ?s0 Internal ?s1"
    using pair_of_fst [OF results(1)]
    by (intro concurrent_event.refill [where n = 4]) (simp_all add: concurrent_start_def)
  moreover have "concurrent_event ?k ?s1 (Cut 7 ''a;'') ?s2"
    using pair_of_fst [OF results(2)] handlers
    by (intro concurrent_event.cut [where n = 2]) (simp_all add: concurrent_start_def)
  moreover have "concurrent_event ?k ?s2 Internal ?s3"
    using pair_of_fst [OF results(3)] by (intro concurrent_event.post) simp_all
  moreover have "concurrent_event ?k ?s3 Internal ?s4"
    using pair_of_fst [OF results(4)] by (intro concurrent_event.take_post) simp
  ultimately show ?thesis
    using queue by (intro exI [of _ ?s3] exI [of _ ?s4])
      (auto simp: concurrent_start_def intro!: runs_Cons [OF _ runs_Cons [OF _ runs_single]])
qed

theorem readers_find_their_frame_witness:
  "\<exists>s. (concurrent_step (reference_kernel demo_lines))\<^sup>*\<^sup>*
      (concurrent_start demo_conditional demo_conditional_process) s \<and> 0 < taking s 7 \<and>
    (case fst (ConditionalBufferedStream_read 7 (object s)) of
        Inr frame \<Rightarrow> True
      | Inl e \<Rightarrow> last_ex (object s) \<noteq> SOCKET_OK \<and> (\<forall>text. e \<noteq> Out_Of_Range text))"
proof -
  obtain s u where "runs (concurrent_event (reference_kernel demo_lines))
      (concurrent_start demo_conditional demo_conditional_process) [Internal, Cut 7 ''a;'', Internal] u"
    and "concurrent_event (reference_kernel demo_lines) u Internal s" and "taking s 7 = 1"
    using demo_run by blast
  from runs_snoc [OF this(1,2)] have reach: "(concurrent_step (reference_kernel demo_lines))\<^sup>*\<^sup>*
      (concurrent_start demo_conditional demo_conditional_process) s"
    by (rule runs_concurrent_steps) simp
  have "last_ex demo_conditional = SOCKET_OK" "received_data_per_condition demo_conditional 7 = Some []"
    "efd_count 7 (history demo_conditional_process) = Some 0" "7 \<noteq> stop_fd demo_conditional"
    by code_simp+
  from readers_find_their_frame [OF reference_eventfd_semaphore this reach] reach \<open>taking s 7 = 1\<close>
  show ?thesis by (intro exI [of _ s]) simp
qed

section \<open>A queued frame can be read\<close>

lemma ready_reader:
  assumes "poll_reports k" and "poll_eventfd k" and "0 \<le> d"
    and "efd_count d (history p) = Some n" and "0 < n" and "k_poll k (history p) [d] t = Inr rs"
  shows "fst (readBlocking k d t (c, p)) = fst (ConditionalBufferedStream_read d c)"
    and "revents rs 0 AND POLLIN \<noteq> 0"
proof -
  have "rs ! 0 AND POLLIN \<noteq> 0"
    using poll_eventfdD(1) [OF assms(2,6), of 0 n] assms(3-5) by simp
  moreover obtain r where "rs = [r]"
    using poll_reportsD(1) [OF assms(1,6)] by (cases rs) auto
  ultimately show "revents rs 0 AND POLLIN \<noteq> 0"
    and "fst (readBlocking k d t (c, p)) = fst (ConditionalBufferedStream_read d c)"
    using assms(6) by (auto simp: readBlocking_def sys_poll_def poll_count_def Let_def split: prod.split)
qed

text \<open>
  C25: a queued frame is announced. In every reachable state in which the worker has not failed
  and a condition has more frames than the readers on their way and the worker's own next post
  account for, a \<open>readBlocking\<close> that gets an answer from \<open>poll\<close> at all, with any timeout, returns
  the oldest frame.
\<close>

theorem queued_frame_is_readable:
  assumes "poll_reports k" and "poll_eventfd k" and "eventfd_semaphore k" and "0 \<le> d"
    and "last_ex c = SOCKET_OK" and "received_data_per_condition c d = Some []"
    and "efd_count d (history p) = Some 0" and "d \<noteq> stop_fd c"
    and "(concurrent_step k)\<^sup>*\<^sup>* (concurrent_start c p) s"
    and "last_ex (object s) = SOCKET_OK" and "received_data_per_condition (object s) d = Some (x # q)"
    and "int (taking s d) + owed (worker s) d < int (length (x # q))"
    and "k_poll k (history (proc s)) [d] t = Inr rs"
  shows "fst (readBlocking k d t (object s, proc s)) = Inr x"
proof -
  have "posts_match d s"
    using posts_match_reachable [OF assms(3,9) posts_match_start [OF assms(5-8)]] .
  with assms(10-12) obtain n where "efd_count d (history (proc s)) = Some n" "0 < n"
    by (auto simp: posts_match_def)
  from ready_reader(1) [OF assms(1,2,4) this assms(13), of "object s"] assms(11)
  show "fst (readBlocking k d t (object s, proc s)) = Inr x"
    by (simp add: ConditionalBufferedStream_read_def)
qed

theorem queued_frame_is_readable_witness:
  "\<exists>s. (concurrent_step (reference_kernel demo_lines))\<^sup>*\<^sup>*
      (concurrent_start demo_conditional demo_conditional_process) s \<and>
    fst (readBlocking (reference_kernel demo_lines) 7 (-1) (object s, proc s)) = Inr ''a;''"
proof -
  obtain s where run: "runs (concurrent_event (reference_kernel demo_lines))
      (concurrent_start demo_conditional demo_conditional_process) [Internal, Cut 7 ''a;'', Internal] s"
    and s: "taking s 7 = 0" "worker s = Running" "last_ex (object s) = SOCKET_OK"
      "received_data_per_condition (object s) 7 = Some [''a;'']"
      "k_poll (reference_kernel demo_lines) (history (proc s)) [7] (-1) = Inr [1]"
    using demo_run by blast
  from run have reach: "(concurrent_step (reference_kernel demo_lines))\<^sup>*\<^sup>*
      (concurrent_start demo_conditional demo_conditional_process) s"
    by (rule runs_concurrent_steps) simp
  have "last_ex demo_conditional = SOCKET_OK" "received_data_per_condition demo_conditional 7 = Some []"
    "efd_count 7 (history demo_conditional_process) = Some 0" "7 \<noteq> stop_fd demo_conditional"
    by code_simp+
  from queued_frame_is_readable [OF reference_poll_reports reference_poll_eventfd
      reference_eventfd_semaphore _ this reach s(3,4) _ s(5)] reach s(1,2)
  show ?thesis by (intro exI [of _ s]) (simp add: owed_def)
qed

text \<open>Once the worker has ended, only the clients move, and no queue grows.\<close>

lemma ended_worker_is_quiet:
  assumes "concurrent_event k s l t" and "worker s = Ended"
  shows "worker t = Ended \<and>
    (\<forall>d q. received_data_per_condition (object s) d = Some q \<longrightarrow>
       (\<exists>q'. received_data_per_condition (object t) d = Some q' \<and> length q' \<le> length q))"
  using assms(1)
  by (rule concurrent_eventE)
    (use assms(2) in \<open>auto simp: ConditionalBufferedStream_read_def dest: stop_keeps(1)
      split: option.splits list.splits if_splits\<close>)

end
