(* ===== verification/Conditional_Runs.thy ===== *)
theory Conditional_Runs
  imports Conditional_Concurrency
begin

text \<open>
  What holds of every run of the threads of a \<open>ConditionalBufferedStream\<close>, whatever its
  conditions: each step is a step of the mailbox specification, and the sequential definitions of
  \<open>Conditional_Stream\<close> are runs of the step relation.
\<close>

lemma refill_spec:
  assumes "read_bounded k" and "cbs_wf c"
    and "on_stream (readAvailableDataIntoBuffer k t) (c, p) = (r, (c', p'))"
  shows "cbs_wf c' \<and> (\<exists>new. received (bs_fd (cbs_stream c)) (history p') =
      received (bs_fd (cbs_stream c)) (history p) @ new \<and>
    bs_contents (cbs_stream c') = bs_contents (cbs_stream c) @ new \<and> ((\<exists>e. r = Inl e) \<longrightarrow> new = []))"
proof -
  obtain v b q where run: "readAvailableDataIntoBuffer k t (cbs_stream c, p) = (v, (b, q))"
    by (metis prod_cases3)
  from readAvailable_spec [OF assms(1) cbs_wf_buffer [OF assms(2)] run] assms(3) run show ?thesis
    by (cases r) (auto simp: on_stream_def cbs_wf_stream [OF assms(2)])
qed

section \<open>Refinement of the mailbox\<close>

definition mailbox_of :: "concurrent_state \<Rightarrow> mailbox" where
  "mailbox_of s =
     \<lparr>arrived = received (bs_fd (cbs_stream (object s))) (history (proc s)),
      pending = bs_contents (cbs_stream (object s)),
      boxes = received_data_per_condition (object s), failure = last_ex (object s)\<rparr>"

lemma mailbox_idle_iff: "m' = m \<Longrightarrow> mailbox_step m Internal m'"
  by (simp add: mailbox_idle)

lemma mailbox_read:
  assumes "ConditionalBufferedStream_read d c = (r, c')" and "object s = c"
    and "read_label l = Some (d, r)" and "object t = c'" and "proc t = proc s"
  shows "mailbox_step (mailbox_of s) l (mailbox_of t)"
proof -
  have "(\<exists>x q. received_data_per_condition c d = Some (x # q) \<and> r = Inr x \<and>
      c' = c\<lparr>received_data_per_condition := (received_data_per_condition c)(d \<mapsto> q)\<rparr>) \<or>
    box (mailbox_of s) d = [] \<and> r = Inl (refusal (mailbox_of s) d) \<and> c' = c"
    using assms(1,2) by (auto simp: ConditionalBufferedStream_read_def box_def mailbox_of_def refusal_def
        split: option.splits list.splits if_splits)
  then show ?thesis
  proof
    assume "\<exists>x q. received_data_per_condition c d = Some (x # q) \<and> r = Inr x \<and>
      c' = c\<lparr>received_data_per_condition := (received_data_per_condition c)(d \<mapsto> q)\<rparr>"
    then obtain x q where "received_data_per_condition c d = Some (x # q)" "r = Inr x"
      "c' = c\<lparr>received_data_per_condition := (received_data_per_condition c)(d \<mapsto> q)\<rparr>" by blast
    with assms mailbox_step.get [of "mailbox_of s" d x q l] show ?thesis by (simp add: mailbox_of_def)
  next
    assume "box (mailbox_of s) d = [] \<and> r = Inl (refusal (mailbox_of s) d) \<and> c' = c"
    with assms mailbox_step.refuse [of "mailbox_of s" d l] show ?thesis by (simp add: mailbox_of_def)
  qed
qed

lemma concurrent_event_refines:
  assumes "read_bounded k" and "cbs_wf (object s)" and "concurrent_event k s l t"
  shows "cbs_wf (object t) \<and> mailbox_step (mailbox_of s) l (mailbox_of t)"
  using assms(3)
proof (cases rule: concurrent_event.cases)
  case (refill n c p)
  from refill_spec [OF assms(1,2) refill(4)] refill refill_keeps [OF refill(4)]
    mailbox_step.arrive [of "mailbox_of s"] show ?thesis by (auto simp: mailbox_of_def)
next
  case (refill_stopped ex c p)
  with refill_spec [OF assms(1,2) refill_stopped(4)] refill_keeps [OF refill_stopped(4)] show ?thesis
    by (auto simp: mailbox_of_def intro: mailbox_idle_iff)
next
  case (refill_failed ex c p)
  with refill_spec [OF assms(1,2) refill_failed(4)] refill_keeps [OF refill_failed(4)]
    mailbox_step.fail [of "exception_type ex" "mailbox_of s"] show ?thesis
    by (auto simp: mailbox_of_def)
next
  case (discard n x c p)
  with pop_spec [OF assms(2) discard(4)] pop_keeps [OF discard(4)]
    mailbox_step.drop [of "mailbox_of s" x] show ?thesis by (auto simp: mailbox_of_def)
next
  case (cut d n x c p)
  have wf: "cbs_wf c" and contents: "bs_contents (cbs_stream (object s)) = x @ bs_contents (cbs_stream c)"
    using pop_spec [OF assms(2) cut(5)] by simp_all
  note same = pop_keeps [OF cut(5)]
  have d: "d \<in> set (handler_fds c)" using cut(4) same(5) by (simp add: handler_fds_def)
  with wf obtain q where "received_data_per_condition c d = Some q" by (auto simp: cbs_wf_def)
  with cut contents same mailbox_step.put [of "mailbox_of s" x "bs_contents (cbs_stream c)" d q]
    cbs_wf_push [OF d wf] show ?thesis by (simp add: mailbox_of_def push_frame_def)
next
  case (post_failed d p)
  with assms(2) mailbox_step.fail [of SOCKET_WRITE "mailbox_of s"] show ?thesis
    by (auto simp: mailbox_of_def sys_eventfd_write_def syscall_def split: sum.splits)
next
  case (read d r c)
  with mailbox_read [OF read(4) refl] cbs_wf_read [OF read(4) assms(2)] show ?thesis by auto
next
  case (read_directly d r c)
  with mailbox_read [OF read_directly(3) refl] cbs_wf_read [OF read_directly(3) assms(2)]
  show ?thesis by auto
next
  case (stop r c p)
  with assms(2) stop_keeps [OF stop(3)] show ?thesis by (auto simp: mailbox_of_def intro: mailbox_idle_iff)
qed (use assms(2) in \<open>auto simp: mailbox_of_def sys_eventfd_write_def sys_eventfd_read_def sys_poll_def
    sys_write_def sys_sleep_def syscall_def split: sum.splits intro: mailbox_idle_iff\<close>)

interpretation mailbox: simulation "concurrent_event k" mailbox_step mailbox_of
    "\<lambda>s. read_bounded k \<and> cbs_wf (object s)" for k
  by unfold_locales (auto dest: concurrent_event_refines)


section \<open>The member functions as runs\<close>

text \<open>
  The state the worker is in after an action of \<open>ConditionalBufferWorker\<close> inside its \<open>try\<close>: still
  running, or past the start of the \<open>catch\<close> clause.
\<close>

abbreviation at_worker :: "concurrent_state \<Rightarrow> cbs_state \<Rightarrow> worker_pc \<Rightarrow> concurrent_state" where
  "at_worker s cp w \<equiv> s\<lparr>object := fst cp, proc := snd cp, worker := w\<rparr>"

lemma at_worker_swap: "s\<lparr>worker := w, object := c, proc := p\<rparr> = at_worker s (c, p) w"
  by (cases s) simp

definition caught :: "concurrent_state \<Rightarrow> (error + 'a) \<times> cbs_state \<Rightarrow> concurrent_state" where
  "caught s out = (let cp = snd out in case fst out of
     Inl (Socket_Exception ex) \<Rightarrow>
       if exception_type ex = SOCKET_TERMINATION_REQUEST then at_worker s cp Ended
       else at_worker s ((fst cp)\<lparr>last_ex := exception_type ex\<rparr>, snd cp) (Notifying (handler_fds (fst cp)))
   | _ \<Rightarrow> at_worker s cp Running)"

lemma caught_Inr [simp]: "caught s (Inr x, cp) = at_worker s cp Running"
  by (simp add: caught_def)

lemma event_handlers: "concurrent_event k s l t \<Longrightarrow>
    buffer_event_handlers (object t) = buffer_event_handlers (object s)"
  by (erule concurrent_event.cases)
    (auto simp: push_frame_def dest: refill_keeps pop_keeps read_keeps stop_keeps)

lemma event_stream: "concurrent_event k s l t \<Longrightarrow>
    bs_stream (cbs_stream (object t)) = bs_stream (cbs_stream (object s))"
  by (erule concurrent_event.cases)
    (auto simp: push_frame_def dest: refill_keeps pop_keeps read_keeps stop_keeps)

lemmas runs_handlers = runs_constant [where f = "\<lambda>s. buffer_event_handlers (object s)", OF _ event_handlers]

lemma PopFromBuffer_Inl:
  "on_stream (PopFromBuffer n) cp = (Inl e, cq) \<Longrightarrow> cq = cp \<and> (\<forall>ex. e \<noteq> Socket_Exception ex)"
  by (cases cp) (auto simp: on_stream_def PopFromBuffer_def Let_def split: prod.splits if_splits option.splits)

text \<open>The labels of the worker's steps, and the results that are runs of it.\<close>

fun worker_label :: "step_label \<Rightarrow> bool" where
  "worker_label (Handed _ _) = False"
| "worker_label (Handed_Directly _ _) = False"
| "worker_label _ = True"

definition worker_run :: "kernel \<Rightarrow> concurrent_state \<Rightarrow> cbs_state \<Rightarrow> (error + 'a) \<times> cbs_state \<Rightarrow> bool" where
  "worker_run k s cp out = (\<exists>ls. runs (concurrent_event k) (at_worker s cp Running) ls (caught s out) \<and>
     list_all worker_label ls)"

lemma worker_run_stay [simp]: "worker_run k s cp (Inr x, cp)"
  unfolding worker_run_def by (intro exI [of _ "[]"]) simp

lemma worker_run_Inl:
  assumes "worker_run k s cp (Inl e :: error + 'x, cq)"
  shows "worker_run k s cp (Inl e :: error + 'y, cq)"
proof -
  have "caught s (Inl e :: error + 'x, cq) = caught s (Inl e :: error + 'y, cq)"
    by (cases e) (simp_all add: caught_def)
  with assms show ?thesis by (simp add: worker_run_def)
qed

lemma worker_run_trans:
  assumes "worker_run k s cp (Inr x, cq)" and "worker_run k s cq out"
  shows "worker_run k s cp out"
proof -
  from assms obtain ls ms where "runs (concurrent_event k) (at_worker s cp Running) ls (at_worker s cq Running)"
    "list_all worker_label ls" "runs (concurrent_event k) (at_worker s cq Running) ms (caught s out)"
    "list_all worker_label ms" by (auto simp: worker_run_def)
  then show ?thesis unfolding worker_run_def by (intro exI [of _ "ls @ ms"]) (auto intro: runs_append)
qed

lemma worker_run_handlers:
  assumes "worker_run k s cp (Inr x, cq)"
  shows "buffer_event_handlers (fst cq) = buffer_event_handlers (fst cp)"
  using assms runs_handlers unfolding worker_run_def by fastforce

lemma worker_run_pop:
  assumes "on_stream (PopFromBuffer n) cp = (r, cq)"
  shows "worker_run k s cp (r, cq)"
proof (cases r)
  case (Inl e)
  from PopFromBuffer_Inl [OF assms [unfolded Inl]] have "caught s (r, cq) = at_worker s cp Running"
    using Inl by (cases e) (auto simp: caught_def)
  then show ?thesis unfolding worker_run_def by (intro exI [of _ "[]"]) simp
next
  case (Inr x)
  obtain c p where cq: "cq = (c, p)" by (cases cq)
  have "concurrent_event k (at_worker s cp Running) (Discarded x) (at_worker s cq Running)"
    using concurrent_event.discard [of "at_worker s cp Running" n x c p k] assms Inr cq
    by (simp add: at_worker_swap)
  with Inr show ?thesis unfolding worker_run_def by (intro exI [of _ "[Discarded x]"]) auto
qed

lemma worker_run_signal:
  assumes "d \<in> set (handler_fds (fst cp))" and "on_stream (PopFromBuffer n) cp = (Inr x, cq)"
    and "signal_frame k d x cq = (r, cr)"
  shows "worker_run k s cp (r, cr)"
proof -
  obtain c p where cq: "cq = (c, p)" by (cases cq)
  let ?t = "at_worker s (push_frame d x c, p) (Posting d)"
  have "concurrent_event k (at_worker s cp Running) (Cut d x) ?t"
    using concurrent_event.cut [of "at_worker s cp Running" d n x c p k] assms(1,2) cq by simp
  moreover have "post_event k d (push_frame d x c, p) = (r, cr)"
    using assms(3) cq by (simp add: signal_frame_def)
  then have "concurrent_event k ?t Internal (caught s (r, cr))"
  proof (cases rule: post_event_cases)
    case posted
    then show ?thesis
      using concurrent_event.post [of ?t d k "()" "snd cr"] by (simp add: sys_eventfd_write_def)
  next
    case (refused e)
    then show ?thesis
      using concurrent_event.post_failed [of ?t d k "snd cr"]
      by (simp add: sys_eventfd_write_def caught_def socket_exception_def)
  qed
  ultimately have "runs (concurrent_event k) (at_worker s cp Running) [Cut d x, Internal] (caught s (r, cr))"
    by (intro runs_Cons [OF _ runs_single])
  then show ?thesis unfolding worker_run_def by (intro exI [of _ "[Cut d x, Internal]"]) simp
qed

lemma worker_run_bind:
  assumes "worker_run k s cp (m cp)"
    and "\<And>x cq. m cp = (Inr x, cq) \<Longrightarrow> worker_run k s cp (Inr x, cq) \<Longrightarrow> worker_run k s cq (f x cq)"
  shows "worker_run k s cp (bindA m f cp)"
proof -
  obtain r cq where Pair: "m cp = (r, cq)" by (meson surj_pair)
  show ?thesis
  proof (cases r)
    case (Inl e)
    with assms(1) Pair show ?thesis by (auto intro: worker_run_Inl)
  next
    case (Inr x)
    with assms Pair show ?thesis by (auto intro: worker_run_trans)
  qed
qed

lemma worker_run_take_bytes:
  assumes "h \<in> set (buffer_event_handlers (fst cp))"
  shows "worker_run k s cp (take_bytes k h b cp)"
proof -
  obtain r cq where pop: "on_stream (PopFromBuffer (abs_size b)) cp = (r, cq)" by (meson surj_pair)
  note popped = worker_run_pop [OF pop, of k s]
  have fd: "handler_fd h \<in> set (handler_fds (fst cp))" using assms by (auto simp: handler_fds_def)
  show ?thesis
  proof (cases r)
    case (Inl e)
    with pop popped show ?thesis by (auto simp: take_bytes_def intro: worker_run_Inl)
  next
    case (Inr x)
    with pop popped worker_run_signal [OF fd pop [unfolded Inr]] show ?thesis
      by (cases "0 < sint b"; cases "signal_frame k (handler_fd h) x cq")
        (auto simp: take_bytes_def worker_run_def)
  qed
qed

lemma worker_run_throw:
  "\<forall>ex. e \<noteq> Socket_Exception ex \<Longrightarrow> worker_run k s cp (Inl e, cp)"
  unfolding worker_run_def by (cases e) (auto simp: caught_def intro: exI [of _ "[]"])

interpretation worker_turns: handler_turns k "worker_run k s" for k s
  by unfold_locales (simp_all add: worker_run_take_bytes worker_run_throw worker_run_trans)

text \<open>A round of the worker, and its loop with the \<open>catch\<close> clause.\<close>

lemma refill_run:
  assumes "on_stream (readAvailableDataIntoBuffer k (-1)) cp = (r, cq)"
  shows "worker_run k s cp (r, cq)"
proof -
  obtain c p where cq: "cq = (c, p)" by (cases cq)
  let ?s = "at_worker s cp Running"
  have on: "on_stream (readAvailableDataIntoBuffer k (-1)) (object ?s, proc ?s) = (r, (c, p))"
    using assms cq by simp
  have "concurrent_event k ?s Internal (caught s (r, cq)) \<or> caught s (r, cq) = ?s"
  proof (cases r)
    case (Inr n)
    with concurrent_event.refill [of ?s k n c p] on cq show ?thesis by (simp add: at_worker_swap)
  next
    case (Inl e)
    show ?thesis
    proof (cases e)
      case (Socket_Exception ex)
      with Inl concurrent_event.refill_stopped [of ?s k ex c p] concurrent_event.refill_failed [of ?s k ex c p]
        on cq show ?thesis by (simp add: caught_def Let_def)
    qed (use Inl cq refill_keeps(7) [of k "-1" "fst cp" "snd cp" r c p e] assms in \<open>auto simp: caught_def\<close>)
  qed
  then show ?thesis
    unfolding worker_run_def by (auto intro: exI [of _ "[Internal]"] exI [of _ "[]"])
qed


lemma worker_round_run: "worker_run k s cp (worker_round k cp)"
proof -
  let ?refill = "on_stream (readAvailableDataIntoBuffer k (-1))"
  have "worker_round k cp = bindA ?refill (\<lambda>_ cq. processDataSendSignals k
      (take (buffer_write_offset (cbs_stream (fst cq))) (the (stream_buffer (cbs_stream (fst cq))))) cq) cp"
    by (simp add: worker_round_def bindA_def)
  moreover have "worker_run k s cp (?refill cp)" using refill_run by (metis surj_pair)
  ultimately show ?thesis by (simp add: worker_run_bind worker_turns.process)
qed

text \<open>Induction over the rounds of a loop that ends.\<close>

lemma worker_loop_rounds [consumes 1, case_names last again]:
  assumes "worker_loop k cp = Some y"
    and "\<And>cp e cq. worker_round k cp = (Inl e, cq) \<Longrightarrow> P cp (e, cq)"
    and "\<And>cp u cq y. worker_round k cp = (Inr u, cq) \<Longrightarrow> P cq y \<Longrightarrow> P cp y"
  shows "P cp y"
proof -
  let ?P = "\<lambda>k' cp y. k' = k \<longrightarrow> P cp y"
  have "?P k cp y"
  proof (rule worker_loop.raw_induct [where P = ?P])
    fix g k' cp y
    assume ih: "\<And>k' cp y. g k' cp = Some y \<Longrightarrow> ?P k' cp y"
      and body: "(case worker_round k' cp of (Inl e, cq) \<Rightarrow> Some (e, cq) | (Inr _, cq) \<Rightarrow> g k' cq) = Some y"
    show "?P k' cp y"
    proof
      assume [simp]: "k' = k"
      obtain r cq where step: "worker_round k cp = (r, cq)" by (meson surj_pair)
      show "P cp y"
        using step body assms(2) [of cp] assms(3) [of cp _ cq y] ih [of k cq y] by (cases r) auto
    qed
  qed (use assms(1) in simp)
  then show ?thesis by simp
qed

lemma worker_loop_run:
  assumes "worker_loop k cp = Some ecq"
  shows "worker_run k s cp (Inl (fst ecq) :: error + unit, snd ecq)"
  using assms
proof (induction rule: worker_loop_rounds)
  case (last cp e cq)
  with worker_round_run [of k s cp] show ?case by simp
next
  case (again cp u cq y)
  with worker_round_run [of k s cp] show ?case by (auto intro: worker_run_trans)
qed

lemma notify_run:
  assumes "notify_handlers k hs cp = (Inr u, cq)"
  shows "runs (concurrent_event k) (at_worker s cp (Notifying (map handler_fd hs)))
    (replicate (Suc (length hs)) Internal) (at_worker s cq Ended)"
  using assms
proof (induction hs arbitrary: cp)
  case Nil
  then show ?case using concurrent_event.notified [of "at_worker s cp (Notifying [])" k] by auto
next
  case (Cons h hs)
  obtain c p where cp: "cp = (c, p)" by (cases cp)
  from Cons.prems obtain v cr where post: "post_event k (handler_fd h) (c, p) = (Inr v, cr)"
    and rest: "notify_handlers k hs cr = (Inr u, cq)"
    by (auto simp: cp split: prod.splits sum.splits)
  from post have "concurrent_event k (at_worker s cp (Notifying (map handler_fd (h # hs)))) Internal
      (at_worker s cr (Notifying (map handler_fd hs)))"
  proof (cases rule: post_event_cases)
    case posted
    then show ?thesis
      using concurrent_event.notify [of "at_worker s cp (Notifying (map handler_fd (h # hs)))"
          "handler_fd h" "map handler_fd hs" k "()" "snd cr"] cp
      by (simp add: sys_eventfd_write_def)
  qed simp
  from runs_Cons [of "concurrent_event k", OF this Cons.IH [OF rest]] show ?case by simp
qed



lemma demo_conditional_wf: "cbs_wf demo_conditional"
  by (simp add: cbs_wf_def handler_fds_def demo_conditional_def bs_wf_def
      ConditionalBufferedStream_construct_def demo_buffered_def BufferedStream_construct_def
      BufferedStream_move_def Stream_move_def)

section \<open>What every run keeps\<close>

text \<open>
  C4: refinement of the mailbox. Whatever the conditions are and however the worker, the readers,
  the writers and calls of \<open>stopReads\<close> interleave, a run of the threads' steps is a run of the
  mailbox specification with the same labels, and the object stays well formed.
\<close>

theorem threads_refine_mailbox:
  assumes "read_bounded k" and "cbs_wf (object s)" and "runs (concurrent_event k) s ls t"
  shows "runs mailbox_step (mailbox_of s) ls (mailbox_of t) \<and> cbs_wf (object t)"
  using mailbox.runs_simulated [OF assms(3)] mailbox.inv_runs [OF assms(3)] assms(1,2) by blast

theorem threads_refine_mailbox_witness:
  "\<exists>t. runs (concurrent_event (reference_kernel demo_lines))
      (concurrent_start demo_conditional demo_conditional_process) [Internal, Cut 7 ''a;'', Internal] t \<and>
    runs mailbox_step (mailbox_of (concurrent_start demo_conditional demo_conditional_process))
      [Internal, Cut 7 ''a;'', Internal] (mailbox_of t)"
proof -
  obtain t where run: "runs (concurrent_event (reference_kernel demo_lines))
      (concurrent_start demo_conditional demo_conditional_process) [Internal, Cut 7 ''a;'', Internal] t"
    using demo_run by blast
  from threads_refine_mailbox [OF reference_read_bounded _ run] run demo_conditional_wf show ?thesis
    by (auto simp: concurrent_start_def)
qed

text \<open>
  C3: every byte is delivered once, in order, to one condition. Over every run of the threads,
  with any conditions: the buffer at the start followed by what the socket delivered since is
  the bytes cut off it, in order, followed by the buffer at the end; and on every condition, the
  frames queued at the start followed by those cut for it are, in the same order, the frames its
  readers got followed by those still queued.
\<close>

theorem frames_reach_readers_in_order:
  assumes "read_bounded k" and "cbs_wf (object s)" and "runs (concurrent_event k) s ls t"
  shows "(\<exists>new. received (bs_fd (cbs_stream (object s))) (history (proc t)) =
        received (bs_fd (cbs_stream (object s))) (history (proc s)) @ new \<and>
      bs_contents (cbs_stream (object s)) @ new = bytes_of (cuts ls) @ bs_contents (cbs_stream (object t))) \<and>
    (\<forall>d q. received_data_per_condition (object s) d = Some q \<longrightarrow>
      (\<exists>q'. received_data_per_condition (object t) d = Some q' \<and>
        q @ frames_for d (cuts ls) = handed_on d ls @ q'))"
proof -
  have runs: "runs mailbox_step (mailbox_of s) ls (mailbox_of t)"
    using mailbox.runs_simulated [OF assms(3)] assms(1,2) by blast
  have "bs_stream (cbs_stream (object t)) = bs_stream (cbs_stream (object s))"
    using assms(3) by (rule runs_constant) (rule event_stream)
  then have fd: "bs_fd (cbs_stream (object t)) = bs_fd (cbs_stream (object s))" by simp
  have "\<exists>q'. received_data_per_condition (object t) d = Some q' \<and> q @ frames_for d (cuts ls) = handed_on d ls @ q'"
    if "received_data_per_condition (object s) d = Some q" for d q
  proof -
    from that mailbox_boxes [OF runs] obtain q' where "received_data_per_condition (object t) d = Some q'"
      by (fastforce simp: mailbox_of_def)
    with that mailbox_fifo [OF runs, of d] show ?thesis by (simp add: box_def mailbox_of_def)
  qed
  with mailbox_bytes [OF runs] fd show ?thesis by (auto simp: mailbox_of_def)
qed

theorem frames_reach_readers_in_order_witness:
  "\<exists>t q'. runs (concurrent_event (reference_kernel demo_lines))
      (concurrent_start demo_conditional demo_conditional_process) [Internal, Cut 7 ''a;'', Internal] t \<and>
    received_data_per_condition (object t) 7 = Some q' \<and>
    [] @ frames_for 7 (cuts [Internal, Cut 7 ''a;'', Internal]) = handed_on 7 [Internal, Cut 7 ''a;'', Internal] @ q'"
proof -
  obtain t where run: "runs (concurrent_event (reference_kernel demo_lines))
      (concurrent_start demo_conditional demo_conditional_process) [Internal, Cut 7 ''a;'', Internal] t"
    using demo_run by blast
  have "received_data_per_condition demo_conditional 7 = Some []" by code_simp
  with conjunct2 [OF frames_reach_readers_in_order [OF reference_read_bounded _ run], rule_format, of 7 "[]"]
    demo_conditional_wf
  have "\<exists>q'. received_data_per_condition (object t) 7 = Some q' \<and>
      [] @ frames_for 7 (cuts [Internal, Cut 7 ''a;'', Internal]) = handed_on 7 [Internal, Cut 7 ''a;'', Internal] @ q'"
    by (simp add: concurrent_start_def)
  with run show ?thesis by blast
qed

section \<open>Every operation keeps the object well formed\<close>

lemma worker_round_wf:
  assumes "read_bounded k" and "cbs_wf (fst cp)"
  shows "cbs_wf (fst (snd (worker_round k cp)))"
proof -
  obtain r c p where refill: "on_stream (readAvailableDataIntoBuffer k (-1)) (fst cp, snd cp) = (r, (c, p))"
    by (metis prod_cases3)
  have wf: "cbs_wf c" using refill_spec [OF assms refill] by simp
  have "cbs_wf (fst (snd (processDataSendSignals k data (c, p))))" for data
    using turns_account.process [of "(c, p)" k data] wf
    by (cases "processDataSendSignals k data (c, p)") (auto simp: cuts_account_def)
  with refill wf show ?thesis by (cases r) (simp_all add: worker_round_def)
qed

lemma notify_handlers_object: "fst (snd (notify_handlers k hs cp)) = fst cp"
proof (induction hs arbitrary: cp)
  case (Cons h hs)
  obtain c p r cq where "cp = (c, p)" and post: "post_event k (handler_fd h) (c, p) = (r, cq)"
    by (metis surj_pair)
  moreover from post have "fst cq = c" by (cases rule: post_event_cases) simp_all
  ultimately show ?case using Cons.IH [of cq] by (cases r) simp_all
qed simp

lemma worker_catch_wf: "cbs_wf (fst cp) \<Longrightarrow> cbs_wf (fst (snd (worker_catch k e cp)))"
  using notify_handlers_object [of k "buffer_event_handlers (fst cp)"]
  by (auto simp: worker_catch_def split: error.splits prod.splits sum.splits) (metis cbs_wf_fields(1) fst_conv snd_conv)+

lemma readBlocking_wf: "cbs_wf (fst cp) \<Longrightarrow> cbs_wf (fst (snd (readBlocking k d t cp)))"
  by (auto simp: readBlocking_def Let_def dest: cbs_wf_read split: prod.split)

text \<open>
  C24: the type invariant of \<open>ConditionalBufferedStream\<close>. A new object over a well-formed buffer is
  well formed, and every operation, whether it returns or throws, keeps it so: the buffer within
  its bounds, and exactly one queue per condition.
\<close>

theorem operations_keep_well_formed:
  assumes "read_bounded k"
  shows "(bs_wf b \<longrightarrow> cbs_wf (fst (ConditionalBufferedStream_construct b))) \<and>
    (cbs_wf (fst cp) \<longrightarrow>
      cbs_wf (fst (snd (createEventfdOnCondition l k cond cp))) \<and>
      cbs_wf (fst (snd (ConditionalBufferedStream_start cp))) \<and>
      cbs_wf (fst (snd (worker_round k cp))) \<and> cbs_wf (fst (snd (worker_catch k e cp))) \<and>
      cbs_wf (snd (ConditionalBufferedStream_read d (fst cp))) \<and>
      cbs_wf (fst (snd (readBlocking k d t cp))) \<and>
      cbs_wf (fst (snd (ConditionalBufferedStream_write k bs cp))) \<and>
      cbs_wf (fst (snd (ConditionalBufferedStream_stopReads k cp))))"
proof -
  have "cbs_wf (fst (snd (createEventfdOnCondition l k cond cp)))" if "cbs_wf (fst cp)"
    using that cbs_wf_create [of l k cond "fst cp" "snd cp"]
    by (cases "createEventfdOnCondition l k cond cp") auto
  moreover have "cbs_wf (snd (ConditionalBufferedStream_read d (fst cp)))" if "cbs_wf (fst cp)"
    using that cbs_wf_read by (metis surj_pair snd_conv)
  moreover have "cbs_wf (fst (snd (ConditionalBufferedStream_stopReads k cp)))" if "cbs_wf (fst cp)"
    using that stop_keeps(1) [of k "fst cp" "snd cp"]
    by (cases "ConditionalBufferedStream_stopReads k cp") auto
  moreover have "fst (snd (ConditionalBufferedStream_write k bs cp)) = fst cp"
    by (simp add: ConditionalBufferedStream_write_def on_stream_def BufferedStream_write_def split: prod.split)
  ultimately show ?thesis
    using cbs_wf_construct worker_round_wf [OF assms] worker_catch_wf readBlocking_wf
    by (auto simp: ConditionalBufferedStream_start_def)
qed

theorem operations_keep_well_formed_witness:
  "cbs_wf (fst (ConditionalBufferedStream_construct demo_buffered)) \<and>
   cbs_wf (fst (snd (worker_round (reference_kernel demo_lines) (demo_conditional, demo_conditional_process))))"
proof -
  have "bs_wf demo_buffered"
    by (simp add: demo_buffered_def BufferedStream_construct_def Stream_move_def bs_wf_def)
  with operations_keep_well_formed [OF reference_read_bounded, where b = demo_buffered
      and cp = "(demo_conditional, demo_conditional_process)"] demo_conditional_wf
  show ?thesis by auto
qed

section \<open>Reading after polling\<close>

text \<open>
  The use the class comment proposes, \<open>poll\<close> on a condition's descriptor and then \<open>read\<close>,
  takes the frame but leaves its post: the descriptor stays readable although nothing is queued,
  and the next \<open>readBlocking\<close> does not block but throws \<open>std::out_of_range\<close>.
\<close>

theorem polled_read_leaves_post:
  assumes "poll_reports k" and "poll_eventfd k" and "0 \<le> d" and "last_ex c = SOCKET_OK"
    and "received_data_per_condition c d = Some [x]" and "efd_count d (history p) = Some 1"
    and "ConditionalBufferedStream_read d c = (r, c')" and "k_poll k (history p) [d] t = Inr rs"
  shows "r = Inr x \<and> received_data_per_condition c' d = Some [] \<and> revents rs 0 AND POLLIN \<noteq> 0 \<and>
    fst (readBlocking k d t (c', p)) = Inl (Out_Of_Range (no_data_text d))"
proof -
  have c': "r = Inr x" "c' = c\<lparr>received_data_per_condition := (received_data_per_condition c)(d \<mapsto> [])\<rparr>"
    using assms(5,7) by (simp_all add: ConditionalBufferedStream_read_def)
  with ready_reader(1) [OF assms(1-3,6) _ assms(8), of c'] ready_reader(2) [OF assms(1-3,6) _ assms(8)]
    assms(4) show ?thesis
    by (simp add: ConditionalBufferedStream_read_def)
qed

theorem polled_read_leaves_post_witness:
  "\<exists>s :: concurrent_state. fst (ConditionalBufferedStream_read 7 (object s)) = Inr ''a;'' \<and>
    fst (readBlocking (reference_kernel demo_lines) 7 (-1)
      (snd (ConditionalBufferedStream_read 7 (object s)), proc s)) = Inl (Out_Of_Range (no_data_text 7))"
proof -
  let ?k = "reference_kernel demo_lines"
  let ?c = "demo_conditional\<lparr>received_data_per_condition := [7 \<mapsto> [''a;'']]\<rparr>"
  let ?p = "log_event (Ev_Eventfd_Write 7 1 (Inr ())) demo_conditional_process"
  have "k_poll ?k (history ?p) [7] (-1) = Inr [1]" "efd_count 7 (history ?p) = Some 1"
    "last_ex ?c = SOCKET_OK" by code_simp+
  with polled_read_leaves_post [OF reference_poll_reports reference_poll_eventfd, of 7 ?c "''a;''" ?p
      "fst (ConditionalBufferedStream_read 7 ?c)" "snd (ConditionalBufferedStream_read 7 ?c)" demo_lines "-1" "[1]"]
  show ?thesis
    by (intro exI [of _ "concurrent_start ?c ?p"]) (simp add: concurrent_start_def)
qed

end
