(* ===== verification/Conditional_Effects.thy ===== *)
theory Conditional_Effects
  imports Conditional_Runs
begin

text \<open>
  Conditions with effects. The condition of a handler is any \<open>std::function\<close> of the client: it may
  keep a state from one call to the next, use the system, and throw. Here a condition is an action on
  a state \<open>'u\<close> of the client and on the process. Conditions that only compute are the special
  case of \<open>Conditional_Stream\<close>, and the functions there agree with those here on them.
\<close>

section \<open>The worker with such conditions\<close>

text \<open>The conditions are given by the descriptor of their handler.\<close>

type_synonym 'u effect_condition = "char list \<Rightarrow> ('u \<times> process, error, 32 word) action"

type_synonym 'u effect_state = "'u \<times> cbs_state"

definition call_condition :: "'u effect_condition \<Rightarrow> char list \<Rightarrow> ('u effect_state, error, 32 word) action" where
  "call_condition cond data s =
     (let (u, (c, p)) = s; (r, (v, q)) = cond data (u, p) in (r, (v, (c, q))))"

definition on_object :: "(cbs_state, error, 'a) action \<Rightarrow> ('u effect_state, error, 'a) action" where
  "on_object f s = (let (r, cq) = f (snd s) in (r, (fst s, cq)))"

function (sequential)
  processDataSendSignals_with ::
    "kernel \<Rightarrow> (fd \<Rightarrow> 'u effect_condition) \<Rightarrow> char list \<Rightarrow> ('u effect_state, error, unit) action" and
  process_handlers_with ::
    "kernel \<Rightarrow> (fd \<Rightarrow> 'u effect_condition) \<Rightarrow> char list \<Rightarrow> buffer_event_handler list \<Rightarrow>
       ('u effect_state, error, unit) action"
where
  "processDataSendSignals_with k conds data s =
     (if data = [] then (Inr (), s)
      else process_handlers_with k conds data (buffer_event_handlers (fst (snd s))) s)"
| "process_handlers_with k conds data [] s = (Inr (), s)"
| "process_handlers_with k conds data (h # hs) s =
     (case call_condition (conds (handler_fd h)) data s of
        (Inl e, t) \<Rightarrow> (Inl e, t)
      | (Inr b, t) \<Rightarrow>
          if b = INT_MIN then (Inl Undefined_Behaviour, t)
          else if length data < abs_size b then
            (Inl (Logic_Error
              ''a condition on a ConditionalBufferedStream tried to read more data, than exists''), t)
          else if b \<noteq> 0 then
            (case on_object (take_bytes k h b) t of
               (Inl e, v) \<Rightarrow> (Inl e, v)
             | (Inr _, v) \<Rightarrow>
                 (case processDataSendSignals_with k conds (drop (abs_size b) data) v of
                    (Inl e, w) \<Rightarrow> (Inl e, w)
                  | (Inr _, w) \<Rightarrow> process_handlers_with k conds data hs w))
          else process_handlers_with k conds data hs t)"
  by pat_completeness auto

termination
  by (relation "measures [case_sum (\<lambda>(k, conds, data, s). length data) (\<lambda>(k, conds, data, hs, s). length data),
        case_sum (\<lambda>(k, conds, data, s). Suc (length (buffer_event_handlers (fst (snd s)))))
          (\<lambda>(k, conds, data, hs, s). length hs)]")
    (auto dest: abs_size_pos)

declare processDataSendSignals_with.simps [simp del] process_handlers_with.simps [simp del]

definition worker_round_with ::
    "kernel \<Rightarrow> (fd \<Rightarrow> 'u effect_condition) \<Rightarrow> ('u effect_state, error, unit) action" where
  "worker_round_with k conds s =
     (case on_object (on_stream (readAvailableDataIntoBuffer k (-1))) s of
        (Inl e, t) \<Rightarrow> (Inl e, t)
      | (Inr _, t) \<Rightarrow>
          processDataSendSignals_with k conds
            (take (buffer_write_offset (cbs_stream (fst (snd t)))) (the (stream_buffer (cbs_stream (fst (snd t))))))
            t)"

partial_function (option) worker_loop_with ::
    "kernel \<Rightarrow> (fd \<Rightarrow> 'u effect_condition) \<Rightarrow> 'u effect_state \<Rightarrow> (error \<times> 'u effect_state) option" where
  "worker_loop_with k conds s =
     (case worker_round_with k conds s of
        (Inl e, t) \<Rightarrow> Some (e, t)
      | (Inr _, t) \<Rightarrow> worker_loop_with k conds t)"

definition ConditionalBufferWorker_with ::
    "kernel \<Rightarrow> (fd \<Rightarrow> 'u effect_condition) \<Rightarrow> 'u effect_state \<Rightarrow> ((error + unit) \<times> 'u effect_state) option" where
  "ConditionalBufferWorker_with k conds s =
     (case worker_loop_with k conds s of
        None \<Rightarrow> None
      | Some (e, t) \<Rightarrow> Some (on_object (worker_catch k e) t))"

section \<open>Conditions that only compute\<close>

text \<open>
  Such a condition answers as the one of the handler does, and leaves the process alone; its own
  state it may change.
\<close>

definition computes :: "(fd \<Rightarrow> 'u effect_condition) \<Rightarrow> buffer_event_handler \<Rightarrow> bool" where
  "computes conds h = (\<forall>data u p. \<exists>v. conds (handler_fd h) data (u, p) = (Inr (condition h data), (v, p)))"

lemma computes_call:
  "computes conds h \<Longrightarrow> \<exists>v. call_condition (conds (handler_fd h)) data (u, cp) = (Inr (condition h data), (v, cp))"
proof (cases cp)
  case (Pair c p)
  assume "computes conds h"
  then obtain v where "conds (handler_fd h) data (u, p) = (Inr (condition h data), (v, p))"
    unfolding computes_def by blast
  with Pair show ?thesis by (simp add: call_condition_def)
qed

lemma handlers_with_computes:
  assumes "\<And>rest u cp. length rest < length data \<Longrightarrow> list_all (computes conds) (buffer_event_handlers (fst cp)) \<Longrightarrow>
      \<exists>v. processDataSendSignals_with k conds rest (u, cp) =
        (fst (processDataSendSignals k rest cp), (v, snd (processDataSendSignals k rest cp)))"
    and "list_all (computes conds) hs" and "list_all (computes conds) (buffer_event_handlers (fst cp))"
  shows "\<exists>v. process_handlers_with k conds data hs (u, cp) =
    (fst (process_handlers k data hs cp), (v, snd (process_handlers k data hs cp)))"
  using assms(2,3)
proof (induction hs arbitrary: u cp)
  case Nil
  then show ?case by (simp add: process_handlers_with.simps process_handlers.simps)
next
  case (Cons h hs)
  let ?b = "condition h data"
  from Cons.prems obtain v where call: "call_condition (conds (handler_fd h)) data (u, cp) = (Inr ?b, (v, cp))"
    using computes_call by fastforce
  consider "?b = INT_MIN \<or> length data < abs_size ?b" | "?b = 0" |
    (takes) "?b \<noteq> 0" "?b \<noteq> INT_MIN" "\<not> length data < abs_size ?b" by blast
  then show ?case
  proof cases
    case takes
    obtain r cq where take: "take_bytes k h ?b cp = (r, cq)" by (meson surj_pair)
    show ?thesis
    proof (cases r)
      case (Inl e)
      with takes take call show ?thesis
        by (simp add: process_handlers_with.simps process_handlers_turn on_object_def)
    next
      case (Inr x)
      have "buffer_event_handlers (fst cq) = buffer_event_handlers (fst cp)"
        using take_bytes_handlers [of k h ?b cp] take by simp
      with Cons.prems have all: "list_all (computes conds) (buffer_event_handlers (fst cq))" by simp
      have "length (drop (abs_size ?b) data) < length data"
        using takes abs_size_pos [OF takes(1)] by auto
      from assms(1) [OF this all] obtain w where nested:
        "processDataSendSignals_with k conds (drop (abs_size ?b) data) (v, cq) =
          (fst (processDataSendSignals k (drop (abs_size ?b) data) cq), (w, snd (processDataSendSignals k (drop (abs_size ?b) data) cq)))"
        by blast
      obtain r' cr where plain: "processDataSendSignals k (drop (abs_size ?b) data) cq = (r', cr)" by (meson surj_pair)
      have "list_all (computes conds) (buffer_event_handlers (fst cr))"
        using all turns_account.process_conforms [of k "drop (abs_size ?b) data" cq] plain
        by (simp add: turns_account.conforms_def)
      with Cons.IH [of cr w] Cons.prems(1) takes take call Inr nested plain show ?thesis
        by (cases r') (auto simp: process_handlers_with.simps process_handlers_turn on_object_def)
    qed
  qed (use call Cons in \<open>auto simp: process_handlers_with.simps process_handlers_turn Let_def\<close>)
qed

lemma process_with_computes:
  "list_all (computes conds) (buffer_event_handlers (fst cp)) \<Longrightarrow>
    \<exists>v. processDataSendSignals_with k conds data (u, cp) =
      (fst (processDataSendSignals k data cp), (v, snd (processDataSendSignals k data cp)))"
proof (induction "length data" arbitrary: data u cp rule: less_induct)
  case (less data u cp)
  then have "\<exists>v. process_handlers_with k conds data (buffer_event_handlers (fst cp)) (u, cp) =
      (fst (process_handlers k data (buffer_event_handlers (fst cp)) cp),
        (v, snd (process_handlers k data (buffer_event_handlers (fst cp)) cp)))"
    by (intro handlers_with_computes) auto
  then show ?case
    by (simp add: processDataSendSignals_with.simps [of k conds data] processDataSendSignals.simps [of k data])
qed

lemma round_with_computes:
  assumes "list_all (computes conds) (buffer_event_handlers (fst cp))"
  shows "\<exists>v. worker_round_with k conds (u, cp) = (fst (worker_round k cp), (v, snd (worker_round k cp)))"
    and "buffer_event_handlers (fst (snd (worker_round k cp))) = buffer_event_handlers (fst cp)"
proof -
  obtain r cq where refill: "on_stream (readAvailableDataIntoBuffer k (-1)) cp = (r, cq)" by (meson surj_pair)
  then have same: "buffer_event_handlers (fst cq) = buffer_event_handlers (fst cp)"
    by (auto simp: on_stream_def split: prod.splits)
  let ?data = "take (buffer_write_offset (cbs_stream (fst cq))) (the (stream_buffer (cbs_stream (fst cq))))"
  from assms same have "list_all (computes conds) (buffer_event_handlers (fst cq))" by simp
  from process_with_computes [OF this, of k ?data u] refill
  show "\<exists>v. worker_round_with k conds (u, cp) = (fst (worker_round k cp), (v, snd (worker_round k cp)))"
    by (cases r) (auto simp: worker_round_with_def worker_round_def on_object_def)
  show "buffer_event_handlers (fst (snd (worker_round k cp))) = buffer_event_handlers (fst cp)"
    using refill same turns_account.process_conforms [of k ?data cq]
    by (cases r) (simp_all add: worker_round_def turns_account.conforms_def)
qed

lemma loop_with_Some:
  assumes "worker_loop k cp = Some y" and "list_all (computes conds) (buffer_event_handlers (fst cp))"
  shows "\<exists>v. worker_loop_with k conds (u, cp) = Some (fst y, (v, snd y))"
  using assms
proof (induction arbitrary: u rule: worker_loop_rounds)
  case (last cp e cq)
  with round_with_computes(1) [OF last(2), of k u] show ?case by (subst worker_loop_with.simps) auto
next
  case (again cp x cq y)
  with round_with_computes(1) [OF again(3), of k u] round_with_computes(2) [OF again(3), of k] obtain v where
    v: "worker_round_with k conds (u, cp) = (Inr x, (v, cq))" and "list_all (computes conds) (buffer_event_handlers (fst cq))"
    by fastforce
  with again(2) [of v] show ?case by (subst worker_loop_with.simps) simp
qed

lemma loop_with_only:
  assumes "worker_loop_with k conds s = Some y" and "list_all (computes conds) (buffer_event_handlers (fst (snd s)))"
  shows "\<exists>ecq. worker_loop k (snd s) = Some ecq"
proof -
  let ?P = "\<lambda>k' conds' s y. k' = k \<longrightarrow> conds' = conds \<longrightarrow>
    list_all (computes conds) (buffer_event_handlers (fst (snd s))) \<longrightarrow> (\<exists>ecq. worker_loop k (snd s) = Some ecq)"
  have "?P k conds s y"
  proof (rule worker_loop_with.raw_induct [where P = ?P])
    fix g k' conds' s y
    assume ih: "\<And>k' conds' s y. g k' conds' s = Some y \<Longrightarrow> ?P k' conds' s y"
      and body: "(case worker_round_with k' conds' s of (Inl e, t) \<Rightarrow> Some (e, t) | (Inr _, t) \<Rightarrow> g k' conds' t) = Some y"
    show "?P k' conds' s y"
    proof (intro impI)
      assume [simp]: "k' = k" "conds' = conds"
        and pure: "list_all (computes conds) (buffer_event_handlers (fst (snd s)))"
      obtain r cq where plain: "worker_round k (snd s) = (r, cq)" by (meson surj_pair)
      from round_with_computes(1) [OF pure, of k "fst s"] round_with_computes(2) [OF pure, of k] plain pure obtain v where
        v: "worker_round_with k conds s = (r, (v, cq))" "list_all (computes conds) (buffer_event_handlers (fst cq))" by auto
      show "\<exists>ecq. worker_loop k (snd s) = Some ecq"
        using body v plain ih [of k conds "(v, cq)" y] by (cases r) (auto simp: worker_loop.simps [of k "snd s"])
    qed
  qed (use assms(1) in simp)
  with assms(2) show ?thesis by simp
qed


section \<open>Conditions that keep a state, use the system, or throw\<close>

text \<open>What such conditions cannot break: the bytes, the queues and the rest of the object.\<close>

definition cuts_object :: "ConditionalBufferedStream \<Rightarrow> ConditionalBufferedStream \<Rightarrow> bool" where
  "cuts_object c c' = (cbs_wf c \<longrightarrow> cbs_wf c' \<and> frozen c' = frozen c \<and>
     (\<exists>xs. bs_contents (cbs_stream c) = bytes_of xs @ bs_contents (cbs_stream c') \<and>
        list_all (\<lambda>x. snd x \<noteq> []) xs \<and>
        (\<forall>d q. received_data_per_condition c d = Some q \<longrightarrow>
           received_data_per_condition c' d = Some (q @ frames_for d xs))))"

lemma cuts_object_refl [simp]: "cuts_object c c"
  by (auto simp: cuts_object_def intro!: exI [of _ "[]"])

lemma cuts_object_trans:
  assumes "cuts_object c c1" and "cuts_object c1 c2"
  shows "cuts_object c c2"
proof (cases "cbs_wf c")
  case True
  with assms obtain xs ys where "cbs_wf c1 \<and> frozen c1 = frozen c" "cbs_wf c2 \<and> frozen c2 = frozen c1"
    "bs_contents (cbs_stream c) = bytes_of xs @ bs_contents (cbs_stream c1)"
    "bs_contents (cbs_stream c1) = bytes_of ys @ bs_contents (cbs_stream c2)"
    "list_all (\<lambda>x. snd x \<noteq> []) xs" "list_all (\<lambda>x. snd x \<noteq> []) ys"
    "\<forall>d q. received_data_per_condition c d = Some q \<longrightarrow> received_data_per_condition c1 d = Some (q @ frames_for d xs)"
    "\<forall>d q. received_data_per_condition c1 d = Some q \<longrightarrow> received_data_per_condition c2 d = Some (q @ frames_for d ys)"
    unfolding cuts_object_def by blast
  then show ?thesis by (auto simp: cuts_object_def intro!: exI [of _ "xs @ ys"])
qed (simp add: cuts_object_def)

lemma cuts_object_turn:
  assumes "h \<in> set (buffer_event_handlers c)" and "b \<noteq> 0" and "take_bytes k h b (c, p) = (r, (c', p'))"
  shows "cuts_object c c'"
  using cuts_account_turn [of h "(c, p)" b k] assms by (auto simp: cuts_account_def cuts_object_def)

lemma cuts_object_handlers: "cuts_object c c' \<Longrightarrow> cbs_wf c \<Longrightarrow> buffer_event_handlers c' = buffer_event_handlers c"
  by (auto simp: cuts_object_def frozen_def)

lemma call_condition_object: "call_condition cond data s = (r, t) \<Longrightarrow> fst (snd t) = fst (snd s)"
  by (auto simp: call_condition_def split: prod.splits)

text \<open>The recursive call and the rest of the handlers, after a turn that took bytes.\<close>

lemma nested_account:
  assumes "\<And>rest s. length rest < n \<Longrightarrow> cbs_wf (fst (snd s)) \<Longrightarrow>
      cuts_object (fst (snd s)) (fst (snd (snd (processDataSendSignals_with k conds rest s))))"
    and "length rest < n" and "cbs_wf c" and "processDataSendSignals_with k conds rest (v, (c, p)) = (r, w)"
  shows "cuts_object c (fst (snd w)) \<and> cbs_wf (fst (snd w)) \<and>
    buffer_event_handlers (fst (snd w)) = buffer_event_handlers c"
proof -
  have "cuts_object c (fst (snd w))" using assms(1) [of rest "(v, (c, p))"] assms(2-4) by simp
  with cuts_object_handlers [OF this assms(3)] assms(3) show ?thesis by (auto simp: cuts_object_def)
qed

lemma handlers_with_account:
  assumes "\<And>rest s. length rest < length data \<Longrightarrow> cbs_wf (fst (snd s)) \<Longrightarrow>
      cuts_object (fst (snd s)) (fst (snd (snd (processDataSendSignals_with k conds rest s))))"
    and "cbs_wf (fst (snd s))" and "set hs \<subseteq> set (buffer_event_handlers (fst (snd s)))"
  shows "cuts_object (fst (snd s)) (fst (snd (snd (process_handlers_with k conds data hs s))))"
  using assms(2,3)
proof (induction hs arbitrary: s)
  case Nil
  then show ?case by (simp add: process_handlers_with.simps)
next
  case (Cons h hs)
  obtain r t where call: "call_condition (conds (handler_fd h)) data s = (r, t)" by (meson surj_pair)
  note same = call_condition_object [OF call]
  consider (ends) "\<not> (\<exists>b. r = Inr b \<and> b \<noteq> INT_MIN \<and> \<not> length data < abs_size b)"
    | (nothing) "r = Inr 0" | (takes) b where "r = Inr b" "b \<noteq> INT_MIN" "\<not> length data < abs_size b" "b \<noteq> 0"
    by blast
  then show ?case
  proof cases
    case ends
    with call same show ?thesis by (cases r) (auto simp: process_handlers_with.simps)
  next
    case nothing
    with Cons.IH [of t] Cons.prems call same show ?thesis
      by (cases "\<not> length data < abs_size 0") (auto simp: process_handlers_with.simps)
  next
    case (takes b)
    obtain v c p r' c' p' where t: "t = (v, (c, p))" and turn: "take_bytes k h b (c, p) = (r', (c', p'))"
      by (metis prod_cases3)
    have first: "cuts_object c c'" using cuts_object_turn [OF _ takes(4) turn] Cons.prems same t by simp
    have wf: "cbs_wf c'" "buffer_event_handlers c' = buffer_event_handlers c"
      using first cuts_object_handlers [OF first] Cons.prems same t by (auto simp: cuts_object_def)
    show ?thesis
    proof (cases r')
      case (Inl e)
      with takes call turn t same first show ?thesis by (simp add: process_handlers_with.simps on_object_def)
    next
      case (Inr x)
      let ?rest = "drop (abs_size b) data"
      obtain r'' w where nested: "processDataSendSignals_with k conds ?rest (v, (c', p')) = (r'', w)" by (meson surj_pair)
      have "length ?rest < length data" using takes abs_size_pos [OF takes(4)] by auto
      note second = nested_account [OF assms(1) this wf(1) nested]
      have "cuts_object (fst (snd w)) (fst (snd (snd (process_handlers_with k conds data hs w))))"
        using Cons.IH [of w] second wf Cons.prems same t by simp
      with second first cuts_object_trans show ?thesis using takes call turn t same nested Inr
        by (cases r'') (simp_all add: process_handlers_with.simps on_object_def, blast+)
    qed
  qed
qed

lemma process_with_account:
  "cbs_wf (fst (snd s)) \<Longrightarrow> cuts_object (fst (snd s)) (fst (snd (snd (processDataSendSignals_with k conds data s))))"
proof (induction "length data" arbitrary: data s rule: less_induct)
  case (less data s)
  then have "cuts_object (fst (snd s))
      (fst (snd (snd (process_handlers_with k conds data (buffer_event_handlers (fst (snd s))) s))))"
    by (intro handlers_with_account) auto
  then show ?case by (simp add: processDataSendSignals_with.simps [of k conds data])
qed


text \<open>
  An exception of a condition is taken for one of the socket. If the condition that is asked
  first throws on the bytes that a refill leaves in the buffer, the worker ends, and nothing is taken
  off the buffer. (1) A \<open>SocketException\<close> becomes the error of the connection: \<open>last_ex\<close>
  has its type, the conditions are posted, and readers without a frame throw it, although the socket
  is in order. (2) One of type \<open>SOCKET_TERMINATION_REQUEST\<close> ends the worker in silence: no post is
  made and \<open>last_ex\<close> stays. (3) Any other exception ends the program.
\<close>

theorem condition_exception_ends_worker:
  assumes "on_stream (readAvailableDataIntoBuffer k (-1)) (c, p) = (Inr n, (c', p'))" and "cbs_wf c'"
    and "bs_contents (cbs_stream c') \<noteq> []" and "buffer_event_handlers c' = h # hs"
    and "conds (handler_fd h) (bs_contents (cbs_stream c')) (u, p') = (Inl e, (v, q))"
  shows "\<exists>r c'' q'. ConditionalBufferWorker_with k conds (u, (c, p)) = Some (r, (v, (c'', q'))) \<and>
    bs_contents (cbs_stream c'') = bs_contents (cbs_stream c') \<and>
    received_data_per_condition c'' = received_data_per_condition c' \<and>
    (\<forall>ex. e = Socket_Exception ex \<longrightarrow> exception_type ex \<noteq> SOCKET_TERMINATION_REQUEST \<longrightarrow>
       last_ex c'' = exception_type ex \<and>
       (\<exists>w. notify_handlers k (h # hs) (c'', q) = (w, (c'', q')) \<and>
          r = (case w of Inl _ \<Rightarrow> Inl Terminate | Inr _ \<Rightarrow> Inr ())) \<and>
       (\<forall>d. received_data_per_condition c' d = Some [] \<longrightarrow> exception_type ex \<noteq> SOCKET_OK \<longrightarrow>
          ConditionalBufferedStream_read d c'' = (Inl (socket_exception (exception_type ex) (-1) (-1)), c''))) \<and>
    (\<forall>ex. e = Socket_Exception ex \<longrightarrow> exception_type ex = SOCKET_TERMINATION_REQUEST \<longrightarrow>
       r = Inr () \<and> c'' = c' \<and> q' = q) \<and>
    ((\<forall>ex. e \<noteq> Socket_Exception ex) \<longrightarrow> r = Inl (if e = Undefined_Behaviour then e else Terminate))"
proof -
  let ?data = "bs_contents (cbs_stream c')"
  have data: "take (buffer_write_offset (cbs_stream c')) (the (stream_buffer (cbs_stream c'))) = ?data"
    using cbs_wf_buffer [OF assms(2)] by (auto elim: bs_wfE)
  have "call_condition (conds (handler_fd h)) ?data (u, (c', p')) = (Inl e, (v, (c', q)))"
    using assms(5) by (simp add: call_condition_def)
  with assms(3,4) have "processDataSendSignals_with k conds ?data (u, (c', p')) = (Inl e, (v, (c', q)))"
    by (simp add: processDataSendSignals_with.simps process_handlers_with.simps)
  with assms(1) data have "worker_round_with k conds (u, (c, p)) = (Inl e, (v, (c', q)))"
    by (simp add: worker_round_with_def on_object_def)
  then have run: "ConditionalBufferWorker_with k conds (u, (c, p)) = Some (on_object (worker_catch k e) (v, (c', q)))"
    by (simp add: ConditionalBufferWorker_with_def worker_loop_with.simps [of k conds "(u, (c, p))"])
  show ?thesis
  proof (cases "\<exists>ex. e = Socket_Exception ex \<and> exception_type ex \<noteq> SOCKET_TERMINATION_REQUEST")
    case True
    then obtain ex where ex: "e = Socket_Exception ex" "exception_type ex \<noteq> SOCKET_TERMINATION_REQUEST" by blast
    let ?c = "c'\<lparr>last_ex := exception_type ex\<rparr>"
    obtain r c'' q' where "notify_handlers k (h # hs) (?c, q) = (r, (c'', q'))" by (metis prod_cases3)
    with notify_handlers_object [of k "h # hs" "(?c, q)"]
    have notify: "notify_handlers k (h # hs) (?c, q) = (r, (?c, q'))" by (simp only: fst_conv snd_conv)
    with run ex assms(4) show ?thesis
      by (intro exI [of _ "case r of Inl e \<Rightarrow> Inl Terminate | Inr x \<Rightarrow> Inr ()"] exI [of _ ?c] exI [of _ q'])
        (cases r; simp add: on_object_def worker_catch_def ConditionalBufferedStream_read_def)
  next
    case False
    with run show ?thesis
      by (cases e) (simp_all add: on_object_def worker_catch_def)
  qed
qed

section \<open>Examples\<close>

text \<open>A condition that counts its calls, and throws from the second call on.\<close>

definition counting_condition :: "nat effect_condition" where
  "counting_condition data up = (Inr (getDelimiterCondition (CHR '';'') data), (Suc (fst up), snd up))"

definition tiring_condition :: "nat effect_condition" where
  "tiring_condition data up =
     (if fst up = 0 then counting_condition data up else (Inl (socket_exception SOCKET_CLOSED 0 (-1)), up))"



theorem condition_exception_ends_worker_witness:
  "\<exists>r c'' q'. ConditionalBufferWorker_with (reference_kernel demo_lines) (\<lambda>_. tiring_condition)
      (1, (demo_conditional, demo_conditional_process)) = Some (r, (1, (c'', q'))) \<and>
    ConditionalBufferedStream_read 7 c'' = (Inl (socket_exception SOCKET_CLOSED (-1) (-1)), c'')"
proof -
  let ?k = "reference_kernel demo_lines"
  let ?r = "on_stream (readAvailableDataIntoBuffer ?k (-1)) (demo_conditional, demo_conditional_process)"
  let ?c = "fst (snd ?r)"
  have "fst ?r = Inr 4" by code_simp
  then have r: "?r = (Inr 4, (?c, snd (snd ?r)))" by (simp add: prod_eq_iff)
  have wf: "cbs_wf ?c"
    using refill_spec [OF reference_read_bounded demo_conditional_wf r] by blast
  have h: "buffer_event_handlers ?c = [delimiter_handler (CHR '';'') 7]"
    by (simp add: on_stream_def demo_conditional_def split: prod.split)
  have ne: "bs_contents (cbs_stream ?c) \<noteq> []" by code_simp
  have q: "received_data_per_condition ?c 7 = Some []" by code_simp
  have throws: "tiring_condition (bs_contents (cbs_stream ?c)) (1, snd (snd ?r)) =
      (Inl (socket_exception SOCKET_CLOSED 0 (-1)), (1, snd (snd ?r)))" by (simp add: tiring_condition_def)
  from condition_exception_ends_worker [OF r wf ne h, of "\<lambda>_. tiring_condition" 1, OF throws] q
  show ?thesis by (fastforce simp: socket_exception_def)
qed

end
