(* ===== verification/System_Calls.thy ===== *)
theory System_Calls
  imports Conditional_Turns
begin

text \<open>
  What a member function does to the process, as a run of single system calls that the kernel
  answered: so a fact that every system call keeps holds across every member function, whatever
  it computes. Used for properties of what two ends of a connection have sent and received.
\<close>

section \<open>System calls as steps\<close>

fun answered :: "kernel \<Rightarrow> history \<Rightarrow> event \<Rightarrow> bool" where
  "answered k h (Ev_Eventfd a) = (a = k_eventfd k h)"
| "answered k h (Ev_Eventfd_Write d v a) = (a = k_eventfd_write k h d v)"
| "answered k h (Ev_Eventfd_Read d a) = (a = k_eventfd_read k h d)"
| "answered k h (Ev_Poll ds t a) = (a = k_poll k h ds t)"
| "answered k h (Ev_Read d n a) = (a = k_read k h d n)"
| "answered k h (Ev_Write d bs a) = (a = k_write k h d bs)"
| "answered k h (Ev_Close d a) = (a = k_close k h d)"
| "answered k h (Ev_Sleep ms) = True"
| "answered k h (Ev_Socket f t pr a) = (a = k_socket k h f t pr)"
| "answered k h (Ev_Socketpair f t pr a) = (a = k_socketpair k h f t pr)"
| "answered k h (Ev_Setsockopt d opt a) = (a = k_setsockopt k h d opt)"
| "answered k h (Ev_Bind d ad a) = (a = k_bind k h d ad)"
| "answered k h (Ev_Listen d n a) = (a = k_listen k h d n)"
| "answered k h (Ev_Accept d a) = (a = k_accept k h d)"
| "answered k h (Ev_Connect d ad a) = (a = k_connect k h d ad)"
| "answered k h (Ev_Recvmsg d n a) = (a = k_recvmsg k h d n)"
| "answered k h (Ev_Sendto d bs ad a) = (a = k_sendto k h d bs ad)"
| "answered k h Ev_Free = True"

definition system_call :: "kernel \<Rightarrow> process \<Rightarrow> event \<Rightarrow> process \<Rightarrow> bool" where
  "system_call k p ev q = (history q = history p @ [ev] \<and> answered k (history p) ev)"

text \<open>
  \<open>executes k P p q\<close>: the process got from \<open>p\<close> to \<open>q\<close> by system calls, all of the kind \<open>P\<close>.
\<close>

definition executes :: "kernel \<Rightarrow> (event \<Rightarrow> bool) \<Rightarrow> process \<Rightarrow> process \<Rightarrow> bool" where
  "executes k P p q = (\<exists>evs. runs (system_call k) p evs q \<and> list_all P evs)"

lemma executes_refl [simp, intro]: "executes k P p p"
  unfolding executes_def by (intro exI [of _ "[]"]) simp

lemma executes_trans [trans]: "executes k P p q \<Longrightarrow> executes k P q r \<Longrightarrow> executes k P p r"
  unfolding executes_def by (metis runs_append list_all_append)

lemma executes_weaken: "executes k P p q \<Longrightarrow> (\<And>ev. P ev \<Longrightarrow> Q ev) \<Longrightarrow> executes k Q p q"
  unfolding executes_def by (auto simp: list_all_iff)

lemma executes_call: "system_call k p ev q \<Longrightarrow> P ev \<Longrightarrow> executes k P p q"
  unfolding executes_def by (intro exI [of _ "[ev]"]) auto

text \<open>A property of the history that every call of kind \<open>P\<close> keeps.\<close>

lemma executes_keeps:
  assumes "executes k P p q" and "I (history p)"
    and "\<And>h ev. I h \<Longrightarrow> answered k h ev \<Longrightarrow> P ev \<Longrightarrow> I (h @ [ev])"
  shows "I (history q)"
proof -
  from assms(1) obtain evs where "runs (system_call k) p evs q" "list_all P evs"
    by (auto simp: executes_def)
  then show ?thesis
    using assms(2) by (induction rule: runs.induct) (auto simp: system_call_def intro: assms(3))
qed

text \<open>The calls of the sources.\<close>

lemma executes_syscall:
  "answered k (history p) (ev a) \<Longrightarrow> P (ev a) \<Longrightarrow> executes k P p (snd (syscall ev a p))"
  by (rule executes_call [of _ _ "ev a"]) (simp_all add: system_call_def syscall_history)

lemma executes_sys:
  "P (Ev_Poll ds t (k_poll k (history p) ds t)) \<Longrightarrow> executes k P p (snd (sys_poll k ds t p))"
  "P (Ev_Read d n (k_read k (history p) d n)) \<Longrightarrow> executes k P p (snd (sys_read k d n p))"
  "P (Ev_Write d bs (k_write k (history p) d bs)) \<Longrightarrow> executes k P p (snd (sys_write k d bs p))"
  "P (Ev_Eventfd_Write d v (k_eventfd_write k (history p) d v)) \<Longrightarrow>
     executes k P p (snd (sys_eventfd_write k d v p))"
  "P (Ev_Eventfd_Read d (k_eventfd_read k (history p) d)) \<Longrightarrow>
     executes k P p (snd (sys_eventfd_read k d p))"
  by (simp_all add: syscall_defs executes_syscall)

lemma executes_sleep: "P (Ev_Sleep ms) \<Longrightarrow> executes k P p (sys_sleep ms p)"
  by (rule executes_call [of _ _ "Ev_Sleep ms"]) (simp_all add: system_call_def sys_sleep_def)

lemma executes_of: "f p = (r, q) \<Longrightarrow> executes k P p (snd (f p)) \<Longrightarrow> executes k P p q"
  by simp

section \<open>The member functions\<close>

text \<open>Reading and writing only on one descriptor.\<close>

fun io_only :: "fd \<Rightarrow> event \<Rightarrow> bool" where
  "io_only d (Ev_Read e _ _) = (e = d)"
| "io_only d (Ev_Write e _ _) = (e = d)"
| "io_only d _ = True"

lemma executes_log:
  "answered k (history p) ev \<Longrightarrow> P ev \<Longrightarrow> executes k P p (log_event ev p)"
  "answered k (history p) ev \<Longrightarrow> P ev \<Longrightarrow> executes k P p (log_failure ev e p)"
  by (auto intro!: executes_call [of _ _ ev] simp: system_call_def)

lemma Stream_read_loop_executes:
  assumes "Stream_read_loop k s off max_bytes min_bytes t n (m, p) = (r, mq)"
  shows "executes k (io_only (stream_file_descriptor s)) p (snd mq)"
  using assms
proof (induction "min_bytes - n" arbitrary: n m p rule: less_induct)
  case less
  have polled: "executes k (io_only (stream_file_descriptor s)) p (log_event (Ev_Poll (read_fds s) t (Inr rs)) p)"
    if "k_poll k (history p) (read_fds s) t = Inr rs" for rs
    using that by (simp add: executes_log)
  from less.prems show ?case
  proof (cases rule: Stream_read_loop_cases)
    case (poll_failed e)
    then show ?thesis by (simp add: executes_log)
  next
    case (read_failed rs e)
    with executes_trans [OF polled [OF read_failed(2)] executes_log(2) [of k _ "Ev_Read (stream_file_descriptor s)
      (size_minus max_bytes n) (Inl e)"], of e] show ?thesis by simp
  next
    case (closed rs)
    with executes_trans [OF polled [OF closed(2)] executes_log(1) [of k _ "Ev_Read (stream_file_descriptor s)
      (size_minus max_bytes n) (Inr [])"]] show ?thesis by simp
  next
    case (more rs bs)
    have "min_bytes - (n + length bs) < min_bytes - n" using more(1,4) by (simp add: diff_less_mono2)
    from executes_trans [OF polled [OF more(2)] executes_trans [OF executes_log(1) less.hyps [OF this more(6)]]]
      more(5) show ?thesis by simp
  qed (simp_all add: polled)
qed

lemma Stream_write_loop_executes:
  "Stream_write_loop k s bs attempts written p = (r, q) \<Longrightarrow> executes k (io_only (stream_file_descriptor s)) p q"
proof (induction k s bs attempts written p rule: Stream_write_loop.induct)
  case (1 k s bs attempts written p)
  obtain w u where wr: "sys_write k (stream_file_descriptor s) (drop written bs) p = (w, u)"
    by (meson surj_pair)
  then have call: "executes k (io_only (stream_file_descriptor s)) p u" using executes_sys(3) [where P = "io_only (stream_file_descriptor s)" and k = k and p = p
        and d = "stream_file_descriptor s" and bs = "drop written bs"] by simp
  note unfolded = "1.prems" [unfolded Stream_write_loop.simps [of k s bs attempts written p] wr prod.case]
  show ?case
  proof (cases "attempts = 0")
    case True
    with unfolded show ?thesis by simp
  next
    case more: False
    show ?thesis
    proof (cases w)
      case None
      with unfolded more call show ?thesis by simp
    next
      case (Some n)
      have "executes k (io_only (stream_file_descriptor s)) u q" if "written + n \<noteq> length bs"
        using 1(1) [OF more wr [symmetric] Some that] unfolded more Some that
          executes_trans [OF executes_sleep [of "io_only (stream_file_descriptor s)"]] by simp
      with unfolded more Some call executes_trans [OF call] show ?thesis
        by (cases "written + n = length bs") simp_all
    qed
  qed
qed

lemma Stream_write_executes:
  assumes "Stream_write k s bs attempts p = (r, q)"
  shows "executes k (io_only (stream_file_descriptor s)) p q"
proof -
  obtain v u where loop: "Stream_write_loop k s bs attempts 0 p = (v, u)" by (meson surj_pair)
  with assms have "q = u" by (auto simp: Stream_write_def bindA_def split: sum.splits if_splits)
  with Stream_write_loop_executes [OF loop] show ?thesis by simp
qed

lemma readAvailable_executes:
  assumes "readAvailableDataIntoBuffer k t (b, p) = (r, bq)"
  shows "executes k (io_only (bs_fd b)) p (snd bq)"
proof (cases "stream_buffer b")
  case None
  with assms show ?thesis by (auto simp: readAvailableDataIntoBuffer_def Let_def)
next
  case (Some m)
  let ?off = "buffer_write_offset b"
  obtain v mq where loop: "Stream_read_loop k (bs_stream b) ?off (size_minus (stream_buffer_size b) ?off) 1 t 0
      (m, p) = (v, mq)" by (meson surj_pair)
  with assms Some have "snd bq = snd mq"
    by (cases mq; cases v) (auto simp: readAvailableDataIntoBuffer_def Stream_read_def Let_def)
  with Stream_read_loop_executes [OF loop] show ?thesis by simp
qed

text \<open>Posting, and everything \<open>processDataSendSignals\<close> does: only posts on descriptors.\<close>

fun is_post :: "event \<Rightarrow> bool" where
  "is_post (Ev_Eventfd_Write _ _ _) = True"
| "is_post _ = False"

lemma is_post_io_only: "executes k is_post p q \<Longrightarrow> executes k (io_only d) p q"
  by (erule executes_weaken) (erule is_post.elims(2); simp)

lemma post_event_executes:
  assumes "post_event k d (c, p) = (r, cq)"
  shows "executes k is_post p (snd cq)"
  using assms by (cases rule: post_event_cases) (simp_all add: executes_log)

lemma take_bytes_executes: "executes k is_post (snd cp) (snd (snd (take_bytes k h b cp)))"
proof -
  obtain c p where cp: "cp = (c, p)" by (cases cp)
  obtain r cq where run: "take_bytes k h b (c, p) = (r, cq)" by (meson surj_pair)
  then have "executes k is_post p (snd cq)"
    by (cases rule: take_bytes_cases) (auto dest: post_event_executes)
  with run cp show ?thesis by simp
qed

interpretation posting: handler_turns k "\<lambda>cp out. executes k is_post (snd cp) (snd (snd out))" for k
  by unfold_locales (auto simp: take_bytes_executes intro: executes_trans)

lemma worker_round_executes:
  assumes "worker_round k cp = (r, cq)"
  shows "executes k (io_only (bs_fd (cbs_stream (fst cp)))) (snd cp) (snd cq)"
proof -
  obtain v b q where refill: "readAvailableDataIntoBuffer k (-1) (cbs_stream (fst cp), snd cp) = (v, (b, q))"
    by (metis prod_cases3)
  let ?c = "(fst cp)\<lparr>cbs_stream := b\<rparr>"
  have first: "executes k (io_only (bs_fd (cbs_stream (fst cp)))) (snd cp) q" using readAvailable_executes [OF refill] by simp
  have rest: "executes k (io_only (bs_fd (cbs_stream (fst cp)))) q (snd (snd (processDataSendSignals k data (?c, q))))" for data
    using is_post_io_only [OF posting.process [of k "(?c, q)" data]] by simp
  show ?thesis
  proof (cases v)
    case (Inl e)
    with assms refill have "cq = (?c, q)" by (simp add: worker_round_def on_stream_def)
    with first show ?thesis by simp
  next
    case (Inr n)
    with assms refill obtain data where "processDataSendSignals k data (?c, q) = (r, cq)"
      by (auto simp: worker_round_def on_stream_def)
    with executes_trans [OF first rest [of data]] show ?thesis by simp
  qed
qed

lemma readBlocking_executes: "executes k (io_only a) (snd cp) (snd (snd (readBlocking k d t cp)))"
proof -
  obtain v q where poll: "sys_poll k [d] t (snd cp) = (v, q)" by (meson surj_pair)
  then have "executes k (io_only a) (snd cp) q"
    using executes_sys(1) [where P = "io_only a" and k = k and p = "snd cp" and ds = "[d]" and t = t] by simp
  moreover from this have "executes k (io_only a) (snd cp) (snd (sys_eventfd_read k d q))"
    by (rule executes_trans) (simp add: executes_sys)
  ultimately show ?thesis
    using poll by (auto simp: readBlocking_def Let_def split: prod.split)
qed

lemma Stream_stopReads_executes:
  "Stream_stopReads k s p = (r, q) \<Longrightarrow> executes k is_post p q"
  by (auto simp: Stream_stopReads_def ignore_result_def intro: executes_sys)

lemma cbs_exec_executes:
  assumes "cbs_exec k x cp = (r, cq)"
  shows "executes k (io_only (bs_fd (cbs_stream (fst cp)))) (snd cp) (snd cq)"
proof (cases x)
  case Worker_Round
  then obtain v where "worker_round k cp = (v, cq)"
    using assms by (auto simp: cbs_exec_def bindA_def split: prod.splits sum.splits)
  then show ?thesis by (rule worker_round_executes)
next
  case (Call_Frame e)
  with assms show ?thesis by (auto simp: cbs_exec_def split: prod.splits)
next
  case (Call_Blocking e t)
  with assms readBlocking_executes [of k _ cp e t] show ?thesis
    by (auto simp: cbs_exec_def bindA_def split: prod.splits sum.splits)
next
  case (Call_Send bs)
  with assms show ?thesis
    by (auto simp: cbs_exec_def bindA_def ConditionalBufferedStream_write_def BufferedStream_write_def
        on_stream_def split: prod.splits sum.splits dest: Stream_write_executes)
next
  case Call_Stop
  with assms show ?thesis
    by (auto simp: cbs_exec_def bindA_def ConditionalBufferedStream_stopReads_def
        BufferedStream_stopReads_def on_stream_def split: prod.splits sum.splits
        dest!: Stream_stopReads_executes intro: is_post_io_only)
qed

end
