(* ===== verification/Message_Link.thy ===== *)
theory Message_Link
  imports System_Calls "HOL-Library.Sublist"
begin

text \<open>
  Two objects at the two ends of a connection: a \<open>BufferedStream\<close> whose client writes messages,
  each followed by the delimiter, and a \<open>ConditionalBufferedStream\<close> that frames at that delimiter.
  The frames its readers get are the messages that were written.
\<close>

section \<open>The connection\<close>

text \<open>
  A connected pair of stream sockets: what can be read on \<open>b\<close> is what was written on \<open>a\<close> and not
  yet read, in order.
\<close>

definition connected :: "kernel \<Rightarrow> fd \<Rightarrow> fd \<Rightarrow> bool" where
  "connected k a b = (\<forall>h n bs. k_read k h b n = Inr bs \<longrightarrow> prefix (received b h @ bs) (sent a h))"

definition in_transit :: "fd \<Rightarrow> fd \<Rightarrow> history \<Rightarrow> bool" where
  "in_transit a b h = prefix (received b h) (sent a h)"

lemma connected_event:
  assumes "connected k a b" and "in_transit a b h" and "answered k h ev"
  shows "in_transit a b (h @ [ev])"
proof (cases ev)
  case (Ev_Read d n r)
  then have "k_read k h d n = r" using assms(3) by simp
  with assms(1,2) Ev_Read show ?thesis by (cases r) (auto simp: in_transit_def connected_def)
next
  case (Ev_Write d bs r)
  with assms(2) show ?thesis by (cases r) (auto simp: in_transit_def)
qed (use assms(2) in \<open>simp_all add: in_transit_def\<close>)

lemma connected_executes:
  "connected k a b \<Longrightarrow> executes k P p q \<Longrightarrow> in_transit a b (history p) \<Longrightarrow> in_transit a b (history q)"
  by (erule executes_keeps) (auto intro: connected_event)

lemma sent_executes:
  assumes "executes k (io_only b) p q" and "a \<noteq> b"
  shows "sent a (history q) = sent a (history p)"
proof (rule executes_keeps [OF assms(1), where I = "\<lambda>h. sent a h = sent a (history p)"])
  fix h ev
  assume "sent a h = sent a (history p)" and "io_only b ev"
  with assms(2) show "sent a (h @ [ev]) = sent a (history p)"
    by (cases "(a, ev)" rule: event_sent.cases) auto
qed simp

section \<open>Messages and frames\<close>

text \<open>Delimited frames are determined by the bytes: they are the first messages of the text.\<close>

lemma delimited_first:
  assumes "delimited \<delta> f" and "\<delta> \<notin> set m" and "f @ xs = m @ \<delta> # ys"
  shows "f = m @ [\<delta>] \<and> xs = ys"
proof -
  from assms(1) obtain g where g: "f = g @ [\<delta>]" "\<delta> \<notin> set g"
    by (metis append_butlast_last_id delimited_def)
  with assms(3) have eq: "g @ \<delta> # xs = m @ \<delta> # ys" by simp
  have before: "takeWhile (\<lambda>c. c \<noteq> \<delta>) (l @ \<delta> # zs) = l" if "\<delta> \<notin> set l" for l zs
    using that by (induction l) auto
  from before [OF g(2)] before [OF assms(2)] eq have "g = m" by metis
  with eq g(1) show ?thesis by simp
qed

lemma delimited_text_absent: "\<delta> \<notin> set (delimited_text \<delta> ms) \<Longrightarrow> ms = []"
  by (cases ms) auto

lemma frames_are_messages:
  assumes "\<forall>f \<in> set fs. delimited \<delta> f" and "\<forall>m \<in> set ms. \<delta> \<notin> set m"
    and "concat fs @ rest = delimited_text \<delta> ms"
  shows "fs = map (\<lambda>m. m @ [\<delta>]) (take (length fs) ms) \<and> rest = delimited_text \<delta> (drop (length fs) ms)"
  using assms
proof (induction fs arbitrary: ms)
  case (Cons f fs)
  from Cons.prems(1) have "f \<noteq> []" by (simp add: delimited_def)
  with Cons.prems(3) obtain m ms' where ms: "ms = m # ms'" by (cases ms) auto
  have "f = m @ [\<delta>] \<and> concat fs @ rest = delimited_text \<delta> ms'"
    using Cons.prems ms by (intro delimited_first) auto
  with Cons.IH [of ms'] Cons.prems(1,2) ms show ?case by simp
qed simp

section \<open>A run of both ends\<close>

text \<open>
  The sender's messages and the calls at the receiving end, in any order, in one process. The
  result is the messages that were sent and the frames that were handed out; \<open>None\<close> if a
  \<open>write\<close> threw.
\<close>

datatype link_call = Send "char list" | Receive cbs_call

fun link_run :: "kernel \<Rightarrow> BufferedStream \<Rightarrow> char \<Rightarrow> link_call list \<Rightarrow> char list list \<times> char list list \<Rightarrow>
    cbs_state \<Rightarrow> ((char list list \<times> char list list) \<times> cbs_state) option" where
  "link_run k a \<delta> [] out cp = Some (out, cp)"
| "link_run k a \<delta> (Send m # xs) out cp =
     (case BufferedStream_write k (m @ [\<delta>]) (a, snd cp) of
        (Inl e, _) \<Rightarrow> None
      | (Inr _, (_, q)) \<Rightarrow> link_run k a \<delta> xs (fst out @ [m], snd out) (fst cp, q))"
| "link_run k a \<delta> (Receive x # xs) out cp =
     (case cbs_exec k x cp of
        (Inl e, cq) \<Rightarrow> link_run k a \<delta> xs out cq
      | (Inr fs, cq) \<Rightarrow> link_run k a \<delta> xs (fst out, snd out @ fs) cq)"

definition link_inv :: "fd \<Rightarrow> char \<Rightarrow> fd \<Rightarrow> fd \<Rightarrow> char list list \<times> char list list \<Rightarrow> cbs_state \<Rightarrow> bool" where
  "link_inv a \<delta> d b out cp = (frame_ledger [] \<delta> d (snd out) cp \<and> bs_fd (cbs_stream (fst cp)) = b \<and>
     sent a (history (snd cp)) = delimited_text \<delta> (fst out) \<and> in_transit a b (history (snd cp)))"

lemma Stream_write_sent:
  assumes "write_bounded k" and "Stream_write k s bs attempts p = (Inr u, q)"
  shows "sent (stream_file_descriptor s) (history q) = sent (stream_file_descriptor s) (history p) @ bs"
proof -
  obtain v r where loop: "Stream_write_loop k s bs attempts 0 p = (v, r)" by fastforce
  with assms(2) have "v = Inr (length bs)" "r = q"
    by (auto simp: Stream_write_def bindA_def split: sum.splits if_splits)
  with Stream_write_loop_sent [OF assms(1) _ loop] show ?thesis by auto
qed

lemma cbs_exec_stream:
  assumes "read_bounded k" and "frame_ledger [] \<delta> d taken cp" and "cbs_exec k x cp = (r, cq)"
  shows "bs_stream (cbs_stream (fst cq)) = bs_stream (cbs_stream (fst cp))"
proof (cases x)
  case Worker_Round
  with assms(3) worker_round_ledger [OF assms(1,2)] show ?thesis
    by (auto simp: cbs_exec_def bindA_def frozen_def split: prod.splits sum.splits)
next
  case (Call_Frame e)
  with assms(3) show ?thesis
    by (auto simp: cbs_exec_def ConditionalBufferedStream_read_def
        split: prod.splits option.splits list.splits if_splits)
next
  case (Call_Blocking e t)
  have same: "cbs_stream (fst (snd (readBlocking k e t cp))) = cbs_stream (fst cp)"
    by (auto simp: readBlocking_def Let_def ConditionalBufferedStream_read_def
        split: prod.splits option.splits list.splits)
  with Call_Blocking assms(3) show ?thesis
    by (auto simp: cbs_exec_def bindA_def split: prod.splits sum.splits)
qed (use assms(3) in \<open>auto simp: cbs_exec_def bindA_def on_stream_def ConditionalBufferedStream_write_def
    BufferedStream_write_def ConditionalBufferedStream_stopReads_def BufferedStream_stopReads_def
    split: prod.splits sum.splits\<close>)

lemma link_send:
  assumes "write_bounded k" and "connected k (bs_fd a) b" and "link_inv (bs_fd a) \<delta> d b out (c, p)"
    and "BufferedStream_write k (m @ [\<delta>]) (a, p) = (Inr u, (a', q))"
  shows "link_inv (bs_fd a) \<delta> d b (fst out @ [m], snd out) (c, q)"
proof -
  from assms(4) have wr: "Stream_write k (bs_stream a) (m @ [\<delta>]) 2 p = (Inr u, q)"
    by (auto simp: BufferedStream_write_def split: prod.splits)
  from Stream_write_sent [OF assms(1) wr]
  have sent: "sent (bs_fd a) (history q) = sent (bs_fd a) (history p) @ m @ [\<delta>]" by simp
  have "frame_ledger [] \<delta> d (snd out) (c, q)"
    using assms(3) Stream_write_received [OF wr]
    by (intro ledger_same_stream [of "[]" \<delta> d "snd out" c p c q]) (auto simp: link_inv_def)
  moreover have "in_transit (bs_fd a) b (history q)"
    using connected_executes [OF assms(2) Stream_write_executes [OF wr]] assms(3)
    by (simp add: link_inv_def)
  ultimately show ?thesis using assms(3) sent by (simp add: link_inv_def)
qed

lemma link_receive:
  assumes "read_bounded k" and "connected k a b" and "a \<noteq> b" and "link_inv a \<delta> d b out cp"
    and "cbs_exec k x cp = (r, cq)"
  shows "link_inv a \<delta> d b (fst out, case r of Inr fs \<Rightarrow> snd out @ fs | Inl _ \<Rightarrow> snd out) cq"
proof -
  have led: "frame_ledger [] \<delta> d (snd out) cp" and fd: "bs_fd (cbs_stream (fst cp)) = b"
    using assms(4) by (simp_all add: link_inv_def)
  note ex = cbs_exec_executes [OF assms(5), unfolded fd]
  from cbs_exec_ledger [OF assms(1) led assms(5)] connected_executes [OF assms(2) ex]
    sent_executes [OF ex assms(3)] cbs_exec_stream [OF assms(1) led assms(5)] assms(4) fd
  show ?thesis by (simp add: link_inv_def)
qed

lemma link_run_inv:
  assumes "read_bounded k" and "write_bounded k" and "connected k (bs_fd a) b" and "bs_fd a \<noteq> b"
    and "link_inv (bs_fd a) \<delta> d b out cp" and "link_run k a \<delta> xs out cp = Some (out', cq)"
  shows "link_inv (bs_fd a) \<delta> d b out' cq"
  using assms(5,6)
proof (induction xs arbitrary: out cp)
  case (Cons x xs)
  show ?case
  proof (cases x)
    case (Send m)
    with Cons.prems(2) obtain u a' q where "BufferedStream_write k (m @ [\<delta>]) (a, snd cp) = (Inr u, (a', q))"
      and rest: "link_run k a \<delta> xs (fst out @ [m], snd out) (fst cp, q) = Some (out', cq)"
      by (auto split: prod.splits sum.splits)
    with link_send [OF assms(2,3), of \<delta> d out "fst cp" "snd cp" m u a' q] Cons.prems(1)
    have "link_inv (bs_fd a) \<delta> d b (fst out @ [m], snd out) (fst cp, q)" by simp
    from Cons.IH [OF this rest] show ?thesis .
  next
    case (Receive y)
    obtain r cr where exec: "cbs_exec k y cp = (r, cr)" by (meson surj_pair)
    from link_receive [OF assms(1,3,4) Cons.prems(1) exec] Cons Receive exec show ?thesis
      by (cases r) auto
  qed
qed simp

lemma link_delivers:
  assumes "link_inv a \<delta> d b (ms, fs) (c, p)" and "\<forall>m \<in> set ms. \<delta> \<notin> set m"
  shows "\<exists>queue. received_data_per_condition c = [d \<mapsto> queue] \<and>
    prefix (fs @ queue) (map (\<lambda>m. m @ [\<delta>]) ms) \<and>
    (received b (history p) = sent a (history p) \<and> \<delta> \<notin> set (bs_contents (cbs_stream c)) \<longrightarrow>
       fs @ queue = map (\<lambda>m. m @ [\<delta>]) ms \<and> bs_contents (cbs_stream c) = [])"
proof -
  from assms(1) obtain q where q: "received_data_per_condition c = [d \<mapsto> q]" "\<forall>f \<in> set (fs @ q). delimited \<delta> f"
      "received b (history p) = concat fs @ concat q @ bs_contents (cbs_stream c)"
      "sent a (history p) = delimited_text \<delta> ms"
    by (auto simp: link_inv_def frame_ledger_def)
  have "prefix (received b (history p)) (sent a (history p))"
    using assms(1) by (auto simp: link_inv_def in_transit_def)
  then obtain unread where "sent a (history p) = received b (history p) @ unread" by (rule prefixE)
  with q(3,4) have "concat (fs @ q) @ bs_contents (cbs_stream c) @ unread = delimited_text \<delta> ms" by simp
  note messages = frames_are_messages [OF q(2) assms(2) this]
  have "prefix (fs @ q) (map (\<lambda>m. m @ [\<delta>]) ms)"
    using messages by (metis take_is_prefix take_map)
  moreover have "fs @ q = map (\<lambda>m. m @ [\<delta>]) ms \<and> bs_contents (cbs_stream c) = []"
    if "received b (history p) = sent a (history p)" "\<delta> \<notin> set (bs_contents (cbs_stream c))"
  proof -
    have "unread = []" using that(1) \<open>sent a (history p) = received b (history p) @ unread\<close> by simp
    with conjunct2 [OF messages] have rest: "bs_contents (cbs_stream c) = delimited_text \<delta> (drop (length (fs @ q)) ms)"
      by simp
    with that(2) have none: "drop (length (fs @ q)) ms = []" by (metis delimited_text_absent)
    then have "take (length (fs @ q)) ms = ms" by simp
    with conjunct1 [OF messages] none rest show ?thesis by simp
  qed
  ultimately show ?thesis using q(1) by blast
qed

text \<open>
  C2: end to end. Messages without the delimiter, written one after the other with
  \<open>BufferedStream::write\<close> at one end of a connection, reach the readers of a
  \<open>ConditionalBufferedStream\<close> at the other end in order, each as one frame, none twice and none
  torn, however sending, worker rounds and client calls interleave and whatever exceptions the
  receiving end meets; and once everything sent has arrived and been framed, they are all there.
\<close>

theorem messages_arrive_in_order:
  assumes "read_bounded k" and "write_bounded k" and "connected k (bs_fd a) (stream_file_descriptor s)"
    and "bs_fd a \<noteq> stream_file_descriptor s" and "buffer_size < 2 ^ 31 - 1"
    and "received (stream_file_descriptor s) (history p) = []" and "sent (bs_fd a) (history p) = []"
    and "createEventfdOnCondition l k (getDelimiterCondition \<delta>)
      (fst (ConditionalBufferedStream_construct (fst (BufferedStream_construct s buffer_size))), p) = (Inr d, cp)"
    and "link_run k a \<delta> calls ([], []) cp = Some ((ms, fs), (c', p'))"
    and "\<forall>m \<in> set ms. \<delta> \<notin> set m"
  shows "\<exists>queue. received_data_per_condition c' = [d \<mapsto> queue] \<and>
    prefix (fs @ queue) (map (\<lambda>m. m @ [\<delta>]) ms) \<and>
    (received (stream_file_descriptor s) (history p') = sent (bs_fd a) (history p') \<and>
       \<delta> \<notin> set (bs_contents (cbs_stream c')) \<longrightarrow>
     fs @ queue = map (\<lambda>m. m @ [\<delta>]) ms \<and> bs_contents (cbs_stream c') = [])"
proof -
  let ?b = "fst (BufferedStream_construct s buffer_size)"
  have "frame_ledger (received (bs_fd ?b) (history p)) \<delta> d [] cp"
    using assms(5) by (intro fresh_ledger [OF _ _ _ assms(8)])
      (simp_all add: BufferedStream_construct_def Stream_move_def bs_wf_def)
  moreover have "received (bs_fd ?b) (history p) = []"
    using assms(6) by (simp add: BufferedStream_construct_def Stream_move_def)
  ultimately have "frame_ledger [] \<delta> d [] cp" by simp
  moreover have "bs_fd (cbs_stream (fst cp)) = stream_file_descriptor s"
    "sent (bs_fd a) (history (snd cp)) = []" "received (stream_file_descriptor s) (history (snd cp)) = []"
    using assms(6-8)
    by (auto simp: createEventfdOnCondition_def sys_eventfd_def syscall_def ConditionalBufferedStream_construct_def
        BufferedStream_move_def BufferedStream_construct_def Stream_move_def split: sum.splits)
  ultimately have "link_inv (bs_fd a) \<delta> d (stream_file_descriptor s) ([], []) cp"
    by (simp add: link_inv_def in_transit_def)
  from link_run_inv [OF assms(1-4) this assms(9)] assms(10) show ?thesis
    by (rule link_delivers)
qed

text \<open>A kernel in which descriptors 4 and 5 are connected and a write moves at most two bytes.\<close>

definition pipe_rest :: "history \<Rightarrow> char list" where
  "pipe_rest h = (if prefix (received 5 h) (sent 4 h) then drop (length (received 5 h)) (sent 4 h) else [])"

definition pipe_kernel :: kernel where
  "pipe_kernel = (reference_kernel demo_script)
     \<lparr>k_read := (\<lambda>h d n. if d = 5 \<and> pipe_rest h \<noteq> [] then Inr (take n (pipe_rest h)) else Inl EAGAIN),
      k_poll := (\<lambda>h ds t. Inr (map (\<lambda>d. if d = 5 \<and> pipe_rest h \<noteq> [] then 1 else 0) ds))\<rparr>"

lemma pipe_connected: "connected pipe_kernel 4 5"
  by (auto simp: connected_def pipe_kernel_def pipe_rest_def prefix_def split: if_splits)
    (metis append_take_drop_id)

definition demo_sender :: BufferedStream where
  "demo_sender = fst (BufferedStream_construct \<lparr>stream_file_descriptor = 4, stop_all_operations_event_fd = 3\<rparr> 8)"

definition demo_link_calls :: "link_call list" where
  "demo_link_calls = [Send ''ab'', Receive Worker_Round, Send ''c'', Receive (Call_Frame 7), Receive Worker_Round]"

theorem messages_arrive_in_order_witness:
  "\<exists>c' p'. link_run pipe_kernel demo_sender (CHR '';'') demo_link_calls ([], [])
      (demo_conditional, demo_conditional_process) = Some (([''ab'', ''c''], [''ab;'']), (c', p')) \<and>
    received_data_per_condition c' = [7 \<mapsto> [''c;'']]"
proof -
  let ?r = "link_run pipe_kernel demo_sender (CHR '';'') demo_link_calls ([], [])
    (demo_conditional, demo_conditional_process)"
  have out: "map_option fst ?r = Some ([''ab'', ''c''], [''ab;''])" by code_simp
  have all: "map_option (\<lambda>(out, c, p). (received 5 (history p) = sent 4 (history p),
      CHR '';'' \<in> set (bs_contents (cbs_stream c)))) ?r = Some (True, False)" by code_simp
  from out all obtain c' p' where run: "?r = Some (([''ab'', ''c''], [''ab;'']), (c', p'))"
    and "received 5 (history p') = sent 4 (history p')" "CHR '';'' \<notin> set (bs_contents (cbs_stream c'))"
    by fastforce
  moreover have "read_bounded pipe_kernel" "write_bounded pipe_kernel"
    by (auto simp: read_bounded_def write_bounded_def pipe_kernel_def reference_kernel_def split: if_splits)
  moreover have "k_eventfd pipe_kernel (history demo_process) = Inr 7" by code_simp
  then have "createEventfdOnCondition reference_libc pipe_kernel (getDelimiterCondition (CHR '';''))
      (fst (ConditionalBufferedStream_construct (fst (BufferedStream_construct demo_stream 8))),
       demo_process) = (Inr 7, (demo_conditional, demo_conditional_process))"
    by (simp add: createEventfdOnCondition_def sys_eventfd_def demo_process_def
        demo_conditional_process_def demo_conditional_def demo_buffered_def
        ConditionalBufferedStream_construct_def case_prod_unfold Let_def)
  moreover have "bs_fd demo_sender = 4" "stream_file_descriptor demo_stream = 5"
    "received 5 (history demo_process) = []" "sent 4 (history demo_process) = []" by code_simp+
  ultimately show ?thesis
    using messages_arrive_in_order [of pipe_kernel demo_sender demo_stream 8 demo_process reference_libc
        "CHR '';''" 7 "(demo_conditional, demo_conditional_process)" demo_link_calls "[''ab'', ''c'']"
        "[''ab;'']" c' p'] pipe_connected
    by fastforce
qed

end
