(* ===== verification/Stream_Concurrency.thy ===== *)
theory Stream_Concurrency
  imports Labelled_Steps Stream_Model "HOL-Library.Sublist"
begin

text \<open>
  One \<open>Stream\<close> used by several threads. The mutexes of \<open>Stream\<close> are held for one system call (or
  one \<open>poll\<close> with its \<open>read\<close>), not for a whole call of \<open>write\<close> or \<open>read\<close>, so the rounds of
  concurrent calls interleave. A step is what a thread does between two releases of the mutex;
  between any two of them the other threads may take steps, and the rest of the process may make
  any system call that does not touch the descriptor.
\<close>

section \<open>Concurrent calls of write\<close>

text \<open>
  Where a thread is in \<open>Stream::write\<close>: at the head of the loop or asleep behind a round, with
  the attempts left and \<open>total_written_bytes\<close>, or back with a result.
\<close>

datatype writer =
    Trying "32 word" nat
  | Sleeping "32 word" nat
  | Returned "error + unit"

record write_state =
  write_process :: process
  writers :: "nat \<Rightarrow> writer"

text \<open>
  Thread \<open>i\<close> writes \<open>bufs i\<close>. A label is the piece a \<open>::write\<close> accepted and the thread it came
  from. The \<open>errno\<close> of \<open>SOCKET_WRITE_PARTIAL\<close> is the thread's own and is left open.
\<close>

type_synonym piece = "(nat \<times> char list) option"

inductive write_step :: "kernel \<Rightarrow> Stream \<Rightarrow> (nat \<Rightarrow> char list) \<Rightarrow> write_state \<Rightarrow> piece \<Rightarrow> write_state \<Rightarrow> bool"
  for k s bufs where
  write_failed: "writers x i = Trying attempts written \<Longrightarrow> attempts \<noteq> 0 \<Longrightarrow>
    sys_write k (stream_file_descriptor s) (drop written (bufs i)) (write_process x) = (None, q) \<Longrightarrow>
    write_step k s bufs x None (x\<lparr>write_process := q,
      writers := (writers x)(i := Returned (Inl (socket_exception SOCKET_WRITE (errno q) (-1))))\<rparr>)"
| wrote_all: "writers x i = Trying attempts written \<Longrightarrow> attempts \<noteq> 0 \<Longrightarrow>
    sys_write k (stream_file_descriptor s) (drop written (bufs i)) (write_process x) = (Some n, q) \<Longrightarrow>
    written + n = length (bufs i) \<Longrightarrow>
    write_step k s bufs x (Some (i, take n (drop written (bufs i))))
      (x\<lparr>write_process := q, writers := (writers x)(i := Returned (Inr ()))\<rparr>)"
| wrote_some: "writers x i = Trying attempts written \<Longrightarrow> attempts \<noteq> 0 \<Longrightarrow>
    sys_write k (stream_file_descriptor s) (drop written (bufs i)) (write_process x) = (Some n, q) \<Longrightarrow>
    written + n \<noteq> length (bufs i) \<Longrightarrow>
    write_step k s bufs x (Some (i, take n (drop written (bufs i))))
      (x\<lparr>write_process := q, writers := (writers x)(i := Sleeping (attempts - 1) (written + n))\<rparr>)"
| slept: "writers x i = Sleeping attempts written \<Longrightarrow>
    write_step k s bufs x None (x\<lparr>write_process := sys_sleep kSocketRetryIntervallMs (write_process x),
      writers := (writers x)(i := Trying attempts written)\<rparr>)"
| gave_up: "writers x i = Trying 0 written \<Longrightarrow> written \<noteq> length (bufs i) \<Longrightarrow>
    write_step k s bufs x None (x\<lparr>writers := (writers x)
      (i := Returned (Inl (socket_exception SOCKET_WRITE_PARTIAL e (int written))))\<rparr>)"
| finished: "writers x i = Trying 0 written \<Longrightarrow> written = length (bufs i) \<Longrightarrow>
    write_step k s bufs x None (x\<lparr>writers := (writers x)(i := Returned (Inr ()))\<rparr>)"
| elsewhere: "history q = history (write_process x) @ [ev] \<Longrightarrow>
    event_sent (stream_file_descriptor s) ev = [] \<Longrightarrow>
    write_step k s bufs x None (x\<lparr>write_process := q\<rparr>)"

definition write_start :: "(nat \<Rightarrow> 32 word) \<Rightarrow> process \<Rightarrow> write_state" where
  "write_start attempts p = \<lparr>write_process = p, writers = (\<lambda>i. Trying (attempts i) 0)\<rparr>"

text \<open>The pieces of a run, and those of one thread.\<close>

definition pieces :: "piece list \<Rightarrow> (nat \<times> char list) list" where
  "pieces ls = concat (map (\<lambda>l. case l of None \<Rightarrow> [] | Some x \<Rightarrow> [x]) ls)"

definition bytes_from :: "nat \<Rightarrow> piece list \<Rightarrow> char list" where
  "bytes_from i ls = concat (map snd (filter (\<lambda>x. fst x = i) (pieces ls)))"

lemma pieces_simps [simp]:
  "pieces [] = []" "pieces (ls @ ms) = pieces ls @ pieces ms" "pieces (None # ls) = pieces ls"
  "pieces (Some x # ls) = x # pieces ls"
  by (simp_all add: pieces_def)

lemma bytes_from_simps [simp]:
  "bytes_from i [] = []" "bytes_from i (ls @ ms) = bytes_from i ls @ bytes_from i ms"
  "bytes_from i (None # ls) = bytes_from i ls"
  "bytes_from i (Some x # ls) = (if fst x = i then snd x else []) @ bytes_from i ls"
  by (simp_all add: bytes_from_def)

text \<open>What a thread's state says of the bytes it has sent.\<close>

fun writer_account :: "char list \<Rightarrow> writer \<Rightarrow> char list \<Rightarrow> bool" where
  "writer_account buf (Trying attempts written) bs = (written \<le> length buf \<and> bs = take written buf)"
| "writer_account buf (Sleeping attempts written) bs = (written \<le> length buf \<and> bs = take written buf)"
| "writer_account buf (Returned (Inr u)) bs = (bs = buf)"
| "writer_account buf (Returned (Inl e)) bs = (prefix bs buf \<and>
     ((\<exists>err. e = socket_exception SOCKET_WRITE err (-1)) \<or>
      (\<exists>err. e = socket_exception SOCKET_WRITE_PARTIAL err (int (length bs)) \<and> length bs < length buf)))"

lemma writer_account_prefix: "writer_account buf w bs \<Longrightarrow> prefix bs buf"
  by (cases "(buf, w, bs)" rule: writer_account.cases) (auto simp: take_is_prefix)

lemma sys_write_sent:
  assumes "sys_write k d bs p = (v, q)"
  shows "sent d (history q) = sent d (history p) @ (case v of None \<Rightarrow> [] | Some n \<Rightarrow> take n bs)"
    and "v = Some n \<Longrightarrow> k_write k (history p) d bs = Inr n"
  using assms by (auto simp: sys_write_def syscall_def split: sum.splits)

lemma write_step_sent:
  assumes "write_step k s bufs x l y"
  shows "sent (stream_file_descriptor s) (history (write_process y)) =
    sent (stream_file_descriptor s) (history (write_process x)) @ concat (map snd (pieces [l]))"
  using assms by (cases rule: write_step.cases) (auto simp: sys_write_sent sys_sleep_def)

lemma write_step_account:
  assumes "write_bounded k" and "write_step k s bufs x l y"
    and "writer_account (bufs j) (writers x j) bs"
  shows "writer_account (bufs j) (writers y j) (bs @ bytes_from j [l])"
  using assms(2)
proof (cases rule: write_step.cases)
  case (wrote_all i attempts written n q)
  have "k_write k (history (write_process x)) (stream_file_descriptor s) (drop written (bufs i)) = Inr n"
    using wrote_all(5) by (rule sys_write_sent(2)) simp
  with wrote_all assms(3) show ?thesis by auto
next
  case (wrote_some i attempts written n q)
  have "k_write k (history (write_process x)) (stream_file_descriptor s) (drop written (bufs i)) = Inr n"
    using wrote_some(5) by (rule sys_write_sent(2)) simp
  with write_boundedD [OF assms(1) this] wrote_some assms(3) show ?thesis
    by (auto simp: take_add)
qed (use assms(3) in \<open>auto simp: take_is_prefix\<close>)

lemma write_run_account:
  assumes "write_bounded k" and "runs (write_step k s bufs) (write_start attempts p) ls x"
  shows "sent (stream_file_descriptor s) (history (write_process x)) =
      sent (stream_file_descriptor s) (history p) @ concat (map snd (pieces ls)) \<and>
    (\<forall>i. writer_account (bufs i) (writers x i) (bytes_from i ls))"
  using assms(2)
proof (induction "write_start attempts p" ls x rule: runs.induct)
  case runs_Nil
  then show ?case by (simp add: write_start_def)
next
  case (runs_snoc ls x l y)
  with write_step_sent [OF runs_snoc(3)] write_step_account [OF assms(1) runs_snoc(3)] show ?case
    by simp
qed

text \<open>
  C19: concurrent writers. However calls of \<open>Stream::write\<close> on one stream interleave, the bytes sent
  are a sequence of pieces in which the pieces of each call, taken in order, are a prefix of its
  buffer; all of the buffer if the call returned; and as many bytes as the exception says if it
  threw \<open>SOCKET_WRITE_PARTIAL\<close>. No byte is lost, repeated or moved within its call.
\<close>

theorem concurrent_writes_interleave:
  assumes "write_bounded k" and "runs (write_step k s bufs) (write_start attempts p) ls x"
  shows "sent (stream_file_descriptor s) (history (write_process x)) =
      sent (stream_file_descriptor s) (history p) @ concat (map snd (pieces ls)) \<and>
    (\<forall>i. prefix (bytes_from i ls) (bufs i) \<and>
      (writers x i = Returned (Inr ()) \<longrightarrow> bytes_from i ls = bufs i) \<and>
      (\<forall>e. writers x i = Returned (Inl e) \<longrightarrow> (\<exists>err. e = socket_exception SOCKET_WRITE err (-1)) \<or>
        (\<exists>err. e = socket_exception SOCKET_WRITE_PARTIAL err (int (length (bytes_from i ls))) \<and>
           length (bytes_from i ls) < length (bufs i))))"
proof -
  have account: "writer_account (bufs i) (writers x i) (bytes_from i ls)" for i
    using write_run_account [OF assms] by simp
  have "bytes_from i ls = bufs i" if "writers x i = Returned (Inr ())" for i
    using account [of i] that by simp
  moreover have "(\<exists>err. e = socket_exception SOCKET_WRITE err (-1)) \<or>
      (\<exists>err. e = socket_exception SOCKET_WRITE_PARTIAL err (int (length (bytes_from i ls))) \<and>
         length (bytes_from i ls) < length (bufs i))" if "writers x i = Returned (Inl e)" for i e
    using account [of i] that by simp
  ultimately show ?thesis
    using write_run_account [OF assms] writer_account_prefix [OF account] by blast
qed

section \<open>Whole and torn messages\<close>

text \<open>
  A socket that takes every \<open>write\<close> whole, as a blocking socket does when no signal interrupts it.
\<close>

definition writes_whole :: "kernel \<Rightarrow> bool" where
  "writes_whole k = (\<forall>h d bs n. k_write k h d bs = Inr n \<longrightarrow> n = length bs)"

text \<open>The calls that are done, in the order of their only piece.\<close>

definition whole_order :: "(nat \<Rightarrow> char list) \<Rightarrow> (nat \<Rightarrow> 32 word) \<Rightarrow> write_state \<Rightarrow> piece list \<Rightarrow> nat list \<Rightarrow> bool" where
  "whole_order bufs attempts x ls order = (pieces ls = map (\<lambda>i. (i, bufs i)) order \<and> distinct order \<and>
     (\<forall>i. if i \<in> set order then writers x i = Returned (Inr ())
       else writers x i = Trying (attempts i) 0 \<or> (\<exists>e. writers x i = Returned (Inl e))))"

lemma write_step_whole:
  assumes "writes_whole k" and "\<forall>i. attempts i \<noteq> 0" and "write_step k s bufs x l y"
    and "whole_order bufs attempts x ls order"
  shows "\<exists>order. whole_order bufs attempts y (ls @ [l]) order"
proof -
  have state: "writers x i = Trying a w \<Longrightarrow> w = 0 \<and> i \<notin> set order \<and> a \<noteq> 0"
    "writers x i \<noteq> Sleeping a w" for i a w
  proof -
    have "if i \<in> set order then writers x i = Returned (Inr ())
       else writers x i = Trying (attempts i) 0 \<or> (\<exists>e. writers x i = Returned (Inl e))"
      using assms(4) by (simp add: whole_order_def)
    then show "writers x i = Trying a w \<Longrightarrow> w = 0 \<and> i \<notin> set order \<and> a \<noteq> 0"
      and "writers x i \<noteq> Sleeping a w" using assms(2) by (auto split: if_splits)
  qed
  from assms(3) show ?thesis
  proof (cases rule: write_step.cases)
    case (wrote_all i a written n q)
    with state [of i a written] assms(4) sys_write_sent(2) [OF wrote_all(5) refl] assms(1) show ?thesis
      by (intro exI [of _ "order @ [i]"]) (auto simp: whole_order_def)
  next
    case (wrote_some i a written n q)
    with state [of i a written] sys_write_sent(2) [OF wrote_some(5) refl] assms(1) show ?thesis
      by (auto simp: writes_whole_def)
  next
    case (write_failed i a written q)
    with state [of i a written] assms(4) show ?thesis
      by (intro exI [of _ order]) (auto simp: whole_order_def)
  next
    case (elsewhere q ev)
    with assms(4) show ?thesis by (intro exI [of _ order]) (simp add: whole_order_def)
  qed (use state in auto)
qed

text \<open>
  Messages stay whole when every \<open>write(2)\<close> is. Then concurrent calls of \<open>Stream::write\<close> put
  their buffers on the socket one after the other, each once, in some order of exactly the calls
  that returned.
\<close>

theorem whole_writes_keep_messages_whole:
  assumes "write_bounded k" and "writes_whole k" and "\<forall>i. attempts i \<noteq> 0"
    and "runs (write_step k s bufs) (write_start attempts p) ls x"
  shows "\<exists>order. distinct order \<and> (\<forall>i. i \<in> set order \<longleftrightarrow> writers x i = Returned (Inr ())) \<and>
    sent (stream_file_descriptor s) (history (write_process x)) =
      sent (stream_file_descriptor s) (history p) @ concat (map bufs order)"
proof -
  have "\<exists>order. whole_order bufs attempts x ls order"
    using assms(4)
  proof (induction "write_start attempts p" ls x rule: runs.induct)
    case runs_Nil
    then show ?case by (intro exI [of _ "[]"]) (simp add: whole_order_def write_start_def)
  next
    case (runs_snoc ls x l y)
    then show ?case using write_step_whole [OF assms(2,3)] by blast
  qed
  then obtain order where order: "whole_order bufs attempts x ls order" by blast
  with write_run_account [OF assms(1,4)] have "sent (stream_file_descriptor s) (history (write_process x)) =
      sent (stream_file_descriptor s) (history p) @ concat (map bufs order)"
    by (simp add: whole_order_def comp_def)
  moreover have "i \<in> set order \<longleftrightarrow> writers x i = Returned (Inr ())" for i
    using order by (auto simp: whole_order_def split: if_splits)
  ultimately show ?thesis using order by (auto simp: whole_order_def)
qed


section \<open>A call by itself\<close>

text \<open>A round of the loop is the last step of the call, or a step that writes a part and a pause.\<close>

abbreviation write_result :: "char list \<Rightarrow> error + nat \<Rightarrow> process \<Rightarrow> error + unit" where
  "write_result buf r q \<equiv> (case r of Inl e \<Rightarrow> Inl e
     | Inr v \<Rightarrow> if v \<noteq> length buf then Inl (socket_exception SOCKET_WRITE_PARTIAL (errno q) (int v))
         else Inr ())"

lemma Stream_write_round:
  assumes "Stream_write_loop k s (bufs i) attempts written p = (r, q)"
    and "write_process x = p" and "writers x i = Trying attempts written"
  obtains (last) l where "write_step k s bufs x l
      (x\<lparr>write_process := q, writers := (writers x)(i := Returned (write_result (bufs i) r q))\<rparr>)"
  | (part) n u where "attempts \<noteq> 0" and "write_step k s bufs x (Some (i, take n (drop written (bufs i))))
      (x\<lparr>write_process := u, writers := (writers x)(i := Sleeping (attempts - 1) (written + n))\<rparr>)"
    and "Stream_write_loop k s (bufs i) (attempts - 1) (written + n) (sys_sleep kSocketRetryIntervallMs u) = (r, q)"
proof -
  note unfolded = assms(1) [unfolded Stream_write_loop.simps [of k s "bufs i" attempts written p]]
  obtain v u where call: "sys_write k (stream_file_descriptor s) (drop written (bufs i)) p = (v, u)"
    by (meson surj_pair)
  show thesis
  proof (cases "attempts = 0")
    case True
    with unfolded assms(2,3) write_step.gave_up [of x i written bufs k s "errno q"]
      write_step.finished [of x i written bufs k s] last show ?thesis
      by (cases "written = length (bufs i)") auto
  next
    case trying: False
    show ?thesis
    proof (cases v)
      case None
      with unfolded trying call assms(2,3) write_step.write_failed [of x i attempts written k s bufs u] last
      show ?thesis by auto
    next
      case (Some n)
      with unfolded trying call assms(2,3) write_step.wrote_all [of x i attempts written k s bufs n u]
        write_step.wrote_some [of x i attempts written k s bufs n u] last part show ?thesis
        by (cases "written + n = length (bufs i)") auto
    qed
  qed
qed

text \<open>A call that is not interrupted is a run in which only its thread takes steps.\<close>

lemma Stream_write_loop_steps:
  assumes "Stream_write_loop k s (bufs i) attempts written p = (r, q)"
    and "write_process x = p" and "writers x i = Trying attempts written"
  shows "\<exists>ls. runs (write_step k s bufs) x ls
    (x\<lparr>write_process := q, writers := (writers x)(i := Returned (write_result (bufs i) r q))\<rparr>)"
  using assms
proof (induction "unat attempts" arbitrary: attempts written p x rule: less_induct)
  case less
  let ?final = "x\<lparr>write_process := q, writers := (writers x)(i := Returned (write_result (bufs i) r q))\<rparr>"
  from less.prems show ?case
  proof (cases rule: Stream_write_round)
    case (last l)
    then show ?thesis by (rule runs_one)
  next
    case (part n u)
    let ?x = "x\<lparr>write_process := u, writers := (writers x)(i := Sleeping (attempts - 1) (written + n))\<rparr>"
    let ?y = "?x\<lparr>write_process := sys_sleep kSocketRetryIntervallMs (write_process ?x),
      writers := (writers ?x)(i := Trying (attempts - 1) (written + n))\<rparr>"
    have second: "write_step k s bufs ?x None ?y" by (intro write_step.slept) simp
    have "unat (attempts - 1) < unat attempts" using part(1) by (simp add: unat_minus_one unat_gt_0)
    from less.hyps [OF this part(3), of ?y] obtain ls where "runs (write_step k s bufs) ?y ls ?final" by auto
    from runs_Cons [of "write_step k s bufs", OF part(2) runs_Cons [of "write_step k s bufs", OF second this]]
    show ?thesis by blast
  qed
qed

text \<open>
  The sequential \<open>Stream_write\<close> refines the steps: from any state of the other threads, a call
  that runs without interruption is a run of the step relation to its result.
\<close>

theorem Stream_write_refines_steps:
  assumes "Stream_write k s (bufs i) attempts p = (r, q)"
    and "write_process x = p" and "writers x i = Trying attempts 0"
  shows "\<exists>ls. runs (write_step k s bufs) x ls
    (x\<lparr>write_process := q, writers := (writers x)(i := Returned r)\<rparr>)"
proof -
  obtain v u where loop: "Stream_write_loop k s (bufs i) attempts 0 p = (v, u)" by (meson surj_pair)
  with assms(1) have "q = u" and "r = (case v of Inl e \<Rightarrow> Inl e
     | Inr n \<Rightarrow> if n \<noteq> length (bufs i) then Inl (socket_exception SOCKET_WRITE_PARTIAL (errno u) (int n))
         else Inr ())"
    by (auto simp: Stream_write_def bindA_def split: sum.splits if_splits)
  with Stream_write_loop_steps [where bufs = bufs and i = i, OF loop assms(2,3)] show ?thesis by simp
qed

text \<open>The example: one writer of five bytes, on a socket that takes two at a time and on one that takes all.\<close>

definition whole_kernel :: kernel where
  "whole_kernel = (reference_kernel demo_script)\<lparr>k_write := (\<lambda>h d bs. Inr (length bs))\<rparr>"

theorem Stream_write_refines_steps_witness:
  "\<exists>q ls. runs (write_step (reference_kernel demo_script) demo_stream (\<lambda>_. ''hello''))
      (write_start (\<lambda>_. 3) demo_process) ls
      ((write_start (\<lambda>_. 3) demo_process)\<lparr>write_process := q,
        writers := (writers (write_start (\<lambda>_. 3) demo_process))(0 := Returned (Inr ()))\<rparr>)"
proof -
  let ?r = "Stream_write (reference_kernel demo_script) demo_stream ''hello'' 3 demo_process"
  have "fst ?r = Inr ()" by code_simp
  from Stream_write_refines_steps [of _ _ "\<lambda>_. ''hello''" 0, OF pair_of_fst [OF this],
      of "write_start (\<lambda>_. 3) demo_process"]
  show ?thesis by (auto simp: write_start_def)
qed

lemma demo_write_run:
  assumes "fst (Stream_write k demo_stream ''hello'' 3 demo_process) = Inr ()"
  shows "\<exists>ls x. runs (write_step k demo_stream (\<lambda>_. ''hello'')) (write_start (\<lambda>_. 3) demo_process) ls x \<and>
    writers x 0 = Returned (Inr ()) \<and> (\<forall>i \<noteq> 0. writers x i = Trying 3 0)"
proof -
  obtain v u where loop: "Stream_write_loop k demo_stream ''hello'' 3 0 demo_process = (v, u)"
    by (meson surj_pair)
  with assms have "v = Inr (length ''hello'')"
    by (auto simp: Stream_write_def bindA_def split: sum.splits if_splits)
  with Stream_write_loop_steps [where bufs = "\<lambda>_. ''hello''" and i = 0, OF loop,
      of "write_start (\<lambda>_. 3) demo_process"]
  show ?thesis by (fastforce simp: write_start_def)
qed

theorem concurrent_writes_interleave_witness:
  "\<exists>ls x. runs (write_step (reference_kernel demo_script) demo_stream (\<lambda>_. ''hello''))
      (write_start (\<lambda>_. 3) demo_process) ls x \<and> bytes_from 0 ls = ''hello'' \<and>
    sent 5 (history (write_process x)) = concat (map snd (pieces ls))"
proof -
  have "fst (Stream_write (reference_kernel demo_script) demo_stream ''hello'' 3 demo_process) = Inr ()"
    by code_simp
  from demo_write_run [OF this] obtain ls x where
    run: "runs (write_step (reference_kernel demo_script) demo_stream (\<lambda>_. ''hello''))
      (write_start (\<lambda>_. 3) demo_process) ls x" and "writers x 0 = Returned (Inr ())" by blast
  moreover have "sent 5 (history demo_process) = []" "stream_file_descriptor demo_stream = 5" by code_simp+
  ultimately show ?thesis
    using concurrent_writes_interleave [OF reference_write_bounded run] by auto
qed

theorem whole_writes_keep_messages_whole_witness:
  "\<exists>ls x order. runs (write_step whole_kernel demo_stream (\<lambda>_. ''hello''))
      (write_start (\<lambda>_. 3) demo_process) ls x \<and> (0 :: nat) \<in> set order \<and>
    sent 5 (history (write_process x)) = concat (map (\<lambda>_. ''hello'') order)"
proof -
  have whole: "write_bounded whole_kernel" "writes_whole whole_kernel" "\<forall>i :: nat. (3 :: 32 word) \<noteq> 0"
    by (simp_all add: write_bounded_def writes_whole_def whole_kernel_def)
  have "fst (Stream_write whole_kernel demo_stream ''hello'' 3 demo_process) = Inr ()" by code_simp
  from demo_write_run [OF this] obtain ls x where
    run: "runs (write_step whole_kernel demo_stream (\<lambda>_. ''hello'')) (write_start (\<lambda>_. 3) demo_process) ls x"
    and "writers x 0 = Returned (Inr ())" by blast
  moreover obtain order where "\<forall>i. i \<in> set order \<longleftrightarrow> writers x i = Returned (Inr ())"
    "sent (stream_file_descriptor demo_stream) (history (write_process x)) =
       sent (stream_file_descriptor demo_stream) (history demo_process) @ concat (map (\<lambda>_. ''hello'') order)"
    using whole_writes_keep_messages_whole [OF whole run] by blast
  moreover have "sent 5 (history demo_process) = []" "stream_file_descriptor demo_stream = 5" by code_simp+
  ultimately show ?thesis by (intro exI [of _ ls] exI [of _ x] exI [of _ order]) simp
qed

section \<open>Concurrent calls of read\<close>

text \<open>
  The arguments of a call of \<open>Stream::read\<close> and where its thread is; every thread reads into its
  own block. A round holds the mutex over its \<open>poll\<close> and its \<open>::read\<close>.
\<close>

record read_call =
  read_off :: nat
  read_max :: nat
  read_min :: nat
  read_timeout :: int

datatype reader = Reading nat | Read_Returned "error + nat"

record read_state =
  read_process :: process
  readers :: "nat \<Rightarrow> reader"
  blocks :: "nat \<Rightarrow> char list"

abbreviation return_read :: "nat \<Rightarrow> (error + nat) \<Rightarrow> process \<Rightarrow> read_state \<Rightarrow> read_state" where
  "return_read i r q x \<equiv> x\<lparr>read_process := q, readers := (readers x)(i := Read_Returned r)\<rparr>"

inductive read_step :: "kernel \<Rightarrow> Stream \<Rightarrow> (nat \<Rightarrow> read_call) \<Rightarrow> read_state \<Rightarrow> piece \<Rightarrow> read_state \<Rightarrow> bool"
  for k s calls where
  enough: "readers x i = Reading n \<Longrightarrow> read_min (calls i) \<le> n \<Longrightarrow>
    read_step k s calls x None (return_read i (Inr n) (read_process x) x)"
| poll_failed: "readers x i = Reading n \<Longrightarrow> n < read_min (calls i) \<Longrightarrow>
    sys_poll k (read_fds s) (read_timeout (calls i)) (read_process x) = (None, q) \<Longrightarrow>
    read_step k s calls x None (return_read i (Inl (socket_exception SOCKET_POLL (errno q) (-1))) q x)"
| stop_seen: "readers x i = Reading n \<Longrightarrow> n < read_min (calls i) \<Longrightarrow>
    sys_poll k (read_fds s) (read_timeout (calls i)) (read_process x) = (Some rs, q) \<Longrightarrow>
    revents rs 0 = 0 \<Longrightarrow> revents rs 1 \<noteq> 0 \<Longrightarrow>
    read_step k s calls x None (return_read i (Inl (socket_exception SOCKET_TERMINATION_REQUEST 0 (-1))) q x)"
| timed_out: "readers x i = Reading n \<Longrightarrow> n < read_min (calls i) \<Longrightarrow>
    sys_poll k (read_fds s) (read_timeout (calls i)) (read_process x) = (Some rs, q) \<Longrightarrow>
    revents rs 0 = 0 \<Longrightarrow> revents rs 1 = 0 \<Longrightarrow>
    read_step k s calls x None (return_read i (Inl (socket_exception SOCKET_READ_TIMEOUT 0 (-1))) q x)"
| read_failed: "readers x i = Reading n \<Longrightarrow> n < read_min (calls i) \<Longrightarrow>
    sys_poll k (read_fds s) (read_timeout (calls i)) (read_process x) = (Some rs, q) \<Longrightarrow>
    revents rs 0 \<noteq> 0 \<Longrightarrow>
    sys_read k (stream_file_descriptor s) (size_minus (read_max (calls i)) n) q = (None, u) \<Longrightarrow>
    read_step k s calls x None (return_read i (Inl (socket_exception SOCKET_READ (errno u) (-1))) u x)"
| closed: "readers x i = Reading n \<Longrightarrow> n < read_min (calls i) \<Longrightarrow>
    sys_poll k (read_fds s) (read_timeout (calls i)) (read_process x) = (Some rs, q) \<Longrightarrow>
    revents rs 0 \<noteq> 0 \<Longrightarrow>
    sys_read k (stream_file_descriptor s) (size_minus (read_max (calls i)) n) q = (Some [], u) \<Longrightarrow>
    read_step k s calls x None (return_read i (Inl (socket_exception SOCKET_CLOSED 0 (-1))) u x)"
| read_more: "readers x i = Reading n \<Longrightarrow> n < read_min (calls i) \<Longrightarrow>
    sys_poll k (read_fds s) (read_timeout (calls i)) (read_process x) = (Some rs, q) \<Longrightarrow>
    revents rs 0 \<noteq> 0 \<Longrightarrow>
    sys_read k (stream_file_descriptor s) (size_minus (read_max (calls i)) n) q = (Some bs, u) \<Longrightarrow>
    bs \<noteq> [] \<Longrightarrow>
    read_step k s calls x (Some (i, bs)) (x\<lparr>read_process := u,
      readers := (readers x)(i := Reading (n + length bs)),
      blocks := (blocks x)(i := block_write (blocks x i) (read_off (calls i) + n) bs)\<rparr>)"
| elsewhere_read: "history q = history (read_process x) @ [ev] \<Longrightarrow>
    event_received (stream_file_descriptor s) ev = [] \<Longrightarrow>
    read_step k s calls x None (x\<lparr>read_process := q\<rparr>)"

definition read_start :: "(nat \<Rightarrow> char list) \<Rightarrow> process \<Rightarrow> read_state" where
  "read_start ms p = \<lparr>read_process = p, readers = (\<lambda>_. Reading 0), blocks = ms\<rparr>"

text \<open>
  What a reader's state says of the bytes \<open>bs\<close> it was given: they are in its block behind the
  offset, the rest of the block \<open>m\<close> is as it was.
\<close>

fun reader_account :: "read_call \<Rightarrow> char list \<Rightarrow> reader \<Rightarrow> char list \<Rightarrow> char list \<Rightarrow> bool" where
  "reader_account c m (Reading n) m' bs =
     (n = length bs \<and> n \<le> read_max c \<and> m' = block_write m (read_off c) bs)"
| "reader_account c m (Read_Returned (Inr n)) m' bs =
     (n = length bs \<and> read_min c \<le> n \<and> n \<le> read_max c \<and> m' = block_write m (read_off c) bs)"
| "reader_account c m (Read_Returned (Inl e)) m' bs =
     (length bs < read_min c \<and> length bs \<le> read_max c \<and> m' = block_write m (read_off c) bs)"

lemma reader_account_cases:
  obtains (reading) n where "w = Reading n" | (returned) n where "w = Read_Returned (Inr n)"
    | (threw) e where "w = Read_Returned (Inl e)"
  by (metis reader.exhaust sum.exhaust)

lemma sys_read_received:
  assumes "sys_read k d n p = (v, q)"
  shows "received d (history q) = received d (history p) @ (case v of None \<Rightarrow> [] | Some bs \<Rightarrow> bs)"
    and "v = Some bs \<Longrightarrow> k_read k (history p) d n = Inr bs"
  using assms by (auto simp: sys_read_def syscall_def split: sum.splits)

lemma sys_poll_keeps_received:
  "sys_poll k ds t p = (v, q) \<Longrightarrow> received d (history q) = received d (history p)"
  by (auto simp: sys_poll_def syscall_def split: sum.splits)

lemma read_step_received:
  assumes "read_step k s calls x l y"
  shows "received (stream_file_descriptor s) (history (read_process y)) =
    received (stream_file_descriptor s) (history (read_process x)) @ concat (map snd (pieces [l]))"
  using assms
  by (cases rule: read_step.cases) (auto simp: sys_read_received sys_poll_keeps_received)

lemma read_step_account:
  assumes "read_bounded k" and "read_step k s calls x l y"
    and "read_off (calls j) + read_max (calls j) \<le> length m"
    and "reader_account (calls j) m (readers x j) (blocks x j) bs"
  shows "reader_account (calls j) m (readers y j) (blocks y j) (bs @ bytes_from j [l])"
  using assms(2)
proof (cases rule: read_step.cases)
  case (read_more i n rs q new u)
  show ?thesis
  proof (cases "i = j")
    case True
    with read_more(3) assms(4) have bs: "n = length bs" "n \<le> read_max (calls j)"
      "blocks x j = block_write m (read_off (calls j)) bs" by auto
    have "k_read k (history q) (stream_file_descriptor s) (size_minus (read_max (calls i)) n) = Inr new"
      using read_more(7) by (rule sys_read_received(2)) simp
    then have "length new \<le> read_max (calls j) - n"
      using read_boundedD [OF assms(1)] bs(2) True by fastforce
    with True read_more bs assms(3) show ?thesis by (auto simp: block_write_append)
  qed (use read_more assms(4) in auto)
qed (use assms(4) in auto)

lemma read_run_account:
  assumes "read_bounded k" and "runs (read_step k s calls) (read_start ms p) ls x"
    and "\<forall>i. read_off (calls i) + read_max (calls i) \<le> length (ms i)"
  shows "received (stream_file_descriptor s) (history (read_process x)) =
      received (stream_file_descriptor s) (history p) @ concat (map snd (pieces ls)) \<and>
    (\<forall>i. reader_account (calls i) (ms i) (readers x i) (blocks x i) (bytes_from i ls))"
  using assms(2)
proof (induction "read_start ms p" ls x rule: runs.induct)
  case runs_Nil
  then show ?case by (simp add: read_start_def)
next
  case (runs_snoc ls x l y)
  with read_step_received [OF runs_snoc(3)] read_step_account [OF assms(1) runs_snoc(3)] assms(3)
  show ?case by simp
qed

text \<open>
  C20: concurrent readers. However calls of \<open>Stream::read\<close> on one stream interleave, every byte the
  socket delivers goes to exactly one of them: the bytes are a sequence of pieces, and each call
  has its own pieces, in order, in its buffer, between the minimum and the maximum it asked for if
  it returned, fewer than the minimum if it threw, and the rest of the buffer is untouched.
\<close>

theorem concurrent_reads_share_the_input:
  assumes "read_bounded k" and "runs (read_step k s calls) (read_start ms p) ls x"
    and "\<forall>i. read_off (calls i) + read_max (calls i) \<le> length (ms i)"
  shows "received (stream_file_descriptor s) (history (read_process x)) =
      received (stream_file_descriptor s) (history p) @ concat (map snd (pieces ls)) \<and>
    (\<forall>i n. readers x i = Read_Returned (Inr n) \<longrightarrow>
       n = length (bytes_from i ls) \<and> read_min (calls i) \<le> n \<and> n \<le> read_max (calls i)) \<and>
    (\<forall>i e. readers x i = Read_Returned (Inl e) \<longrightarrow> length (bytes_from i ls) < read_min (calls i)) \<and>
    (\<forall>i. blocks x i = block_write (ms i) (read_off (calls i)) (bytes_from i ls))"
proof -
  note run = read_run_account [OF assms]
  have account: "reader_account (calls i) (ms i) (readers x i) (blocks x i) (bytes_from i ls)" for i
    using run by simp
  have "blocks x i = block_write (ms i) (read_off (calls i)) (bytes_from i ls)" for i
    using account [of i] by (cases "readers x i" rule: reader_account_cases) auto
  moreover have "n = length (bytes_from i ls) \<and> read_min (calls i) \<le> n \<and> n \<le> read_max (calls i)"
    if "readers x i = Read_Returned (Inr n)" for i n using account [of i] that by simp
  moreover have "length (bytes_from i ls) < read_min (calls i)"
    if "readers x i = Read_Returned (Inl e)" for i e using account [of i] that by simp
  ultimately show ?thesis using run by blast
qed

text \<open>A round is the last step of the call, or takes some bytes.\<close>

lemma Stream_read_round:
  assumes "Stream_read_loop k s (read_off (calls i)) (read_max (calls i)) (read_min (calls i))
      (read_timeout (calls i)) n (m, p) = (r, mq)"
    and "read_process x = p" and "readers x i = Reading n"
  obtains (last) "read_step k s calls x None (return_read i r (snd mq) x)" and "fst mq = m"
  | (part) bs u where "n < read_min (calls i)" and "bs \<noteq> []"
    and "read_step k s calls x (Some (i, bs)) (x\<lparr>read_process := u,
      readers := (readers x)(i := Reading (n + length bs)),
      blocks := (blocks x)(i := block_write (blocks x i) (read_off (calls i) + n) bs)\<rparr>)"
    and "Stream_read_loop k s (read_off (calls i)) (read_max (calls i)) (read_min (calls i)) (read_timeout (calls i))
      (n + length bs) (block_write m (read_off (calls i) + n) bs, u) = (r, mq)"
proof -
  have polled: "sys_poll k (read_fds s) (read_timeout (calls i)) p =
      (Some rs, log_event (Ev_Poll (read_fds s) (read_timeout (calls i)) (Inr rs)) p)"
    if "k_poll k (history p) (read_fds s) (read_timeout (calls i)) = Inr rs" for rs
    using that by (simp add: sys_poll_def)
  from assms(1) show thesis
  proof (cases rule: Stream_read_loop_cases)
    case finished
    with assms(2,3) last read_step.enough [of x i n calls k s] show ?thesis by simp
  next
    case (poll_failed e)
    with assms(2,3) last read_step.poll_failed [of x i n calls k s "snd mq"] show ?thesis
      by (simp add: sys_poll_def)
  next
    case (stopped rs)
    with assms(2,3) last polled read_step.stop_seen [of x i n calls k s rs "snd mq"] show ?thesis by simp
  next
    case (timed_out rs)
    with assms(2,3) last polled read_step.timed_out [of x i n calls k s rs "snd mq"] show ?thesis by simp
  next
    case (read_failed rs e)
    with assms(2,3) last polled read_step.read_failed [of x i n calls k s rs _ "snd mq"] show ?thesis
      by (simp add: sys_read_def)
  next
    case (closed rs)
    with assms(2,3) last polled read_step.closed [of x i n calls k s rs _ "snd mq"] show ?thesis
      by (simp add: sys_read_def)
  next
    case (more rs bs)
    have "read_step k s calls x (Some (i, bs)) (x\<lparr>read_process :=
        log_event (Ev_Read (stream_file_descriptor s) (size_minus (read_max (calls i)) n) (Inr bs))
          (log_event (Ev_Poll (read_fds s) (read_timeout (calls i)) (Inr rs)) p),
        readers := (readers x)(i := Reading (n + length bs)),
        blocks := (blocks x)(i := block_write (blocks x i) (read_off (calls i) + n) bs)\<rparr>)"
      using read_step.read_more [of x i n calls k s rs _ bs] more(1,3,4,5) assms(2,3) polled [OF more(2)]
      by (simp add: sys_read_def)
    from part [OF more(1,4) this more(6)] show ?thesis .
  qed
qed

text \<open>A call of \<open>read\<close> that is not interrupted is a run in which only its thread takes steps.\<close>

lemma Stream_read_loop_steps:
  assumes "Stream_read_loop k s (read_off (calls i)) (read_max (calls i)) (read_min (calls i))
      (read_timeout (calls i)) n (m, p) = (r, mq)"
    and "read_process x = p" and "readers x i = Reading n" and "blocks x i = m"
  shows "\<exists>ls. runs (read_step k s calls) x ls (x\<lparr>read_process := snd mq,
    readers := (readers x)(i := Read_Returned r), blocks := (blocks x)(i := fst mq)\<rparr>)"
  using assms
proof (induction "read_min (calls i) - n" arbitrary: n m p x rule: less_induct)
  case less
  let ?final = "x\<lparr>read_process := snd mq, readers := (readers x)(i := Read_Returned r),
    blocks := (blocks x)(i := fst mq)\<rparr>"
  from less.prems(1-3) show ?case
  proof (cases rule: Stream_read_round)
    case last
    have "(blocks x)(i := m) = blocks x" using less.prems(4) by auto
    then have "?final = return_read i r (snd mq) x" unfolding last(2) by (cases x) simp
    with runs_one [of "read_step k s calls", OF last(1)] show ?thesis by simp
  next
    case (part bs u)
    let ?x = "x\<lparr>read_process := u, readers := (readers x)(i := Reading (n + length bs)),
      blocks := (blocks x)(i := block_write (blocks x i) (read_off (calls i) + n) bs)\<rparr>"
    have "read_min (calls i) - (n + length bs) < read_min (calls i) - n"
      using part(1,2) by (simp add: diff_less_mono2)
    from less.hyps [OF this part(4), of ?x] less.prems(4)
    obtain ls where "runs (read_step k s calls) ?x ls ?final" by auto
    from runs_Cons [of "read_step k s calls", OF part(3) this] show ?thesis by blast
  qed
qed

text \<open>
  The example: a thread that wants at least three of up to six bytes, on a socket that delivers
  two at a time.
\<close>

definition demo_read_call :: read_call where
  "demo_read_call = \<lparr>read_off = 1, read_max = 6, read_min = 3, read_timeout = 100\<rparr>"

theorem concurrent_reads_share_the_input_witness:
  "\<exists>ls x. runs (read_step (reference_kernel demo_script) demo_stream (\<lambda>_. demo_read_call))
      (read_start (\<lambda>_. ''........'') demo_process) ls x \<and>
    readers x 0 = Read_Returned (Inr 4) \<and> length (bytes_from 0 ls) = 4 \<and>
    received 5 (history (read_process x)) = concat (map snd (pieces ls))"
proof -
  let ?r = "Stream_read_loop (reference_kernel demo_script) demo_stream 1 6 3 100 0 (''........'', demo_process)"
  have "fst ?r = Inr 4" by code_simp
  then have loop: "Stream_read_loop (reference_kernel demo_script) demo_stream (read_off demo_read_call)
      (read_max demo_read_call) (read_min demo_read_call) (read_timeout demo_read_call) 0
      (''........'', demo_process) = (Inr 4, snd ?r)"
    by (simp add: demo_read_call_def prod_eq_iff)
  from Stream_read_loop_steps [where calls = "\<lambda>_. demo_read_call" and i = 0, OF loop,
      of "read_start (\<lambda>_. ''........'') demo_process"]
  obtain ls x where run: "runs (read_step (reference_kernel demo_script) demo_stream (\<lambda>_. demo_read_call))
      (read_start (\<lambda>_. ''........'') demo_process) ls x" and "readers x 0 = Read_Returned (Inr 4)"
    by (fastforce simp: read_start_def)
  moreover have "received 5 (history demo_process) = []" "stream_file_descriptor demo_stream = 5" by code_simp+
  moreover have "\<forall>i :: nat. read_off demo_read_call + read_max demo_read_call \<le> length ''........''"
    by (simp add: demo_read_call_def)
  ultimately show ?thesis
    using concurrent_reads_share_the_input [OF reference_read_bounded run] by fastforce
qed

end
