(* ===== verification/Buffered_Concurrency.thy ===== *)
theory Buffered_Concurrency
  imports Buffered_Stream Stream_Concurrency
begin

text \<open>
  One \<open>BufferedStream\<close> read by several threads. \<open>buffer_lock\<close> is held for a refill and for a pop,
  and by \<open>read(buffer, max, min)\<close> for the whole call; \<open>read(n)\<close> does not hold it from the check of
  its loop to the refill, nor from the last check to the pop. The steps below are what a thread does
  between two releases of the lock; the check of the loop, which C++ calls a data race because
  it is made without the lock, is taken to read the value of the moment. During a refill the lock is
  held, but the rest of the process may still make system calls that do not read from the socket.
  \<open>readUntilDelimiter\<close>, which changes the buffer without the lock, is not among the calls.
\<close>

section \<open>A refill in company\<close>

text \<open>
  \<open>readAvailableDataIntoBuffer\<close> with the system calls of other threads in between: a run of
  \<open>Stream::read\<close> on the free part of the buffer, in which reader 0 is the only one.
\<close>

definition refill_call :: "BufferedStream \<Rightarrow> int \<Rightarrow> read_call" where
  "refill_call b timeout_ms =
     \<lparr>read_off = buffer_write_offset b, read_max = size_minus (stream_buffer_size b) (buffer_write_offset b),
      read_min = 1, read_timeout = timeout_ms\<rparr>"

inductive guarded_refill :: "kernel \<Rightarrow> int \<Rightarrow> bs_state \<Rightarrow> error + nat \<Rightarrow> bs_state \<Rightarrow> bool" for k t where
  "stream_buffer b = Some m \<Longrightarrow>
   runs (read_step k (bs_stream b) (\<lambda>_. refill_call b t)) (read_start (\<lambda>_. m) p) ls x \<Longrightarrow>
   readers x = (\<lambda>_. Reading 0)(0 := Read_Returned r) \<Longrightarrow>
   guarded_refill k t (b, p) r
     (b\<lparr>stream_buffer := Some (blocks x 0),
        buffer_write_offset := buffer_write_offset b + (case r of Inr n \<Rightarrow> n | Inl e \<Rightarrow> 0)\<rparr>, read_process x)"

text \<open>A refill that nobody interrupts is one of these.\<close>

lemma guarded_refill_alone:
  assumes "stream_buffer b \<noteq> None" and "readAvailableDataIntoBuffer k t (b, p) = (r, (b', p'))"
  shows "guarded_refill k t (b, p) r (b', p')"
proof -
  obtain m where m: "stream_buffer b = Some m" using assms(1) by blast
  let ?c = "refill_call b t"
  obtain v m' q where loop: "Stream_read_loop k (bs_stream b) (read_off ?c) (read_max ?c) (read_min ?c) (read_timeout ?c) 0
      (m, p) = (v, (m', q))" by (metis prod_cases3)
  then obtain ls where run: "runs (read_step k (bs_stream b) (\<lambda>_. ?c)) (read_start (\<lambda>_. m) p) ls
      ((read_start (\<lambda>_. m) p)\<lparr>read_process := q, readers := (\<lambda>_. Reading 0)(0 := Read_Returned v),
        blocks := (\<lambda>_. m)(0 := m')\<rparr>)"
    using Stream_read_loop_steps [where calls = "\<lambda>_. ?c" and i = 0 and x = "read_start (\<lambda>_. m) p", OF loop]
    by (auto simp: read_start_def)
  from guarded_refill.intros [OF m run] have "guarded_refill k t (b, p) v
     (b\<lparr>stream_buffer := Some m',
        buffer_write_offset := buffer_write_offset b + (case v of Inr n \<Rightarrow> n | Inl e \<Rightarrow> 0)\<rparr>, q)" by simp
  moreover have "r = v" "p' = q" "b' = b\<lparr>stream_buffer := Some m',
        buffer_write_offset := buffer_write_offset b + (case v of Inr n \<Rightarrow> n | Inl e \<Rightarrow> 0)\<rparr>"
    using assms(2) m loop
    by (cases v; cases b; auto simp: readAvailableDataIntoBuffer_def Stream_read_def refill_call_def Let_def)+
  ultimately show ?thesis by simp
qed

lemma pieces_from_one:
  "(\<And>j. j \<noteq> i \<Longrightarrow> bytes_from j ls = []) \<Longrightarrow> concat (map snd (pieces ls)) = bytes_from i ls"
proof (induction ls)
  case (Cons l ls)
  have "bytes_from j ls = []" if "j \<noteq> i" for j using Cons.prems [OF that] by (cases l) auto
  with Cons.IH have "concat (map snd (pieces ls)) = bytes_from i ls" .
  then show ?case using Cons.prems by (cases l) force+
qed simp

lemma guarded_refill_ledger:
  assumes "read_bounded k" and "bs_ledger out bp" and "guarded_refill k t bp r bp'"
  shows "bs_ledger out bp'"
  using assms(3)
proof cases
  case (1 b m p ls x)
  obtain m' where wf: "stream_buffer b = Some m'" "length m' = stream_buffer_size b"
      "buffer_write_offset b \<le> stream_buffer_size b" "bs_contents b = take (buffer_write_offset b) m'"
    using assms(2) 1(1) by (auto simp: bs_ledger_def elim: bs_wfE)
  let ?off = "buffer_write_offset b"
  have room: "read_off (refill_call b t) + read_max (refill_call b t) \<le> length m"
    using wf 1(3) by (simp add: refill_call_def)
  note account = read_run_account [OF assms(1) 1(4)] room
  have none: "bytes_from j ls = []" if "j \<noteq> 0" for j
  proof -
    have "reader_account (refill_call b t) m (readers x j) (blocks x j) (bytes_from j ls)" using account by blast
    with that 1(5) show ?thesis by simp
  qed
  have got: "received (bs_fd b) (history (read_process x)) = received (bs_fd b) (history p) @ bytes_from 0 ls"
    using account pieces_from_one [of 0 ls, OF none] by simp
  have acc: "reader_account (refill_call b t) m (Read_Returned r) (blocks x 0) (bytes_from 0 ls)"
    using account 1(5) by (metis fun_upd_same)
  have new: "bytes_from 0 ls = (case r of Inr n \<Rightarrow> bytes_from 0 ls | Inl e \<Rightarrow> [])"
    "(case r of Inr n \<Rightarrow> n | Inl e \<Rightarrow> 0) = length (bytes_from 0 ls)" "length (bytes_from 0 ls) \<le> stream_buffer_size b - ?off"
    "blocks x 0 = block_write m ?off (bytes_from 0 ls)"
    using acc wf by (cases r; auto simp: refill_call_def)+
  have "take (?off + length (bytes_from 0 ls)) (blocks x 0) = take ?off m @ bytes_from 0 ls"
    and "length (blocks x 0) = length m"
    using new(3,4) wf 1(3) by (auto simp: memory_simps)
  with 1(1,2,3) wf assms(2) got new(2,3) show ?thesis
    by (auto simp: bs_ledger_def bs_wf_def bs_contents_def)
qed

section \<open>Calls that interleave\<close>

datatype buffered_call = Read_Exactly nat int | Read_Into nat nat int

text \<open>
  Where a thread is in its call: \<open>read(n)\<close> is before its check of the size, at the head of its loop,
  about to refill, behind the loop; \<open>read(buffer, max, min)\<close> is in its loop with the lock; or the
  call is over, with the bytes it delivered.
\<close>

datatype caller = Called | Checking | Refilling | Popping | Refilling_Locked | Checking_Locked
  | Call_Returned "error + char list"

record buffered_state =
  buffered_object :: bs_state
  lock_owner :: "nat option"
  callers :: "nat \<Rightarrow> caller"

abbreviation now_at :: "nat \<Rightarrow> caller \<Rightarrow> buffered_state \<Rightarrow> buffered_state" where
  "now_at i c x \<equiv> x\<lparr>callers := (callers x)(i := c)\<rparr>"

inductive buffered_step :: "kernel \<Rightarrow> (nat \<Rightarrow> buffered_call) \<Rightarrow> buffered_state \<Rightarrow> piece \<Rightarrow> buffered_state \<Rightarrow> bool"
  for k calls where
  too_small: "callers x i = Called \<Longrightarrow> calls i = Read_Exactly n t \<Longrightarrow> stream_buffer_size (fst (buffered_object x)) < n \<Longrightarrow>
    buffered_step k calls x None
      (now_at i (Call_Returned (Inl (Logic_Error ''buffer is to small for the requested read''))) x)"
| fits: "callers x i = Called \<Longrightarrow> calls i = Read_Exactly n t \<Longrightarrow> n \<le> stream_buffer_size (fst (buffered_object x)) \<Longrightarrow>
    buffered_step k calls x None (now_at i Checking x)"
| lacking: "callers x i = Checking \<Longrightarrow> calls i = Read_Exactly n t \<Longrightarrow> buffer_write_offset (fst (buffered_object x)) < n \<Longrightarrow>
    buffered_step k calls x None (now_at i Refilling x)"
| sufficient: "callers x i = Checking \<Longrightarrow> calls i = Read_Exactly n t \<Longrightarrow> n \<le> buffer_write_offset (fst (buffered_object x)) \<Longrightarrow>
    buffered_step k calls x None (now_at i Popping x)"
| refilled: "callers x i = Refilling \<Longrightarrow> calls i = Read_Exactly n t \<Longrightarrow> lock_owner x = None \<Longrightarrow>
    guarded_refill k t (buffered_object x) (Inr c) bp \<Longrightarrow>
    buffered_step k calls x None (now_at i Checking (x\<lparr>buffered_object := bp\<rparr>))"
| refill_threw: "callers x i = Refilling \<Longrightarrow> calls i = Read_Exactly n t \<Longrightarrow> lock_owner x = None \<Longrightarrow>
    guarded_refill k t (buffered_object x) (Inl e) bp \<Longrightarrow>
    buffered_step k calls x None (now_at i (Call_Returned (Inl e)) (x\<lparr>buffered_object := bp\<rparr>))"
| popped: "callers x i = Popping \<Longrightarrow> calls i = Read_Exactly n t \<Longrightarrow> lock_owner x = None \<Longrightarrow>
    PopFromBuffer n (buffered_object x) = (Inr bs, bp) \<Longrightarrow>
    buffered_step k calls x (Some (i, bs)) (now_at i (Call_Returned (Inr bs)) (x\<lparr>buffered_object := bp\<rparr>))"
| pop_threw: "callers x i = Popping \<Longrightarrow> calls i = Read_Exactly n t \<Longrightarrow> lock_owner x = None \<Longrightarrow>
    PopFromBuffer n (buffered_object x) = (Inl e, bp) \<Longrightarrow>
    buffered_step k calls x None (now_at i (Call_Returned (Inl e)) (x\<lparr>buffered_object := bp\<rparr>))"
| took_lock: "callers x i = Called \<Longrightarrow> calls i = Read_Into max_bytes min_bytes t \<Longrightarrow> lock_owner x = None \<Longrightarrow>
    buffered_step k calls x None (now_at i Refilling_Locked (x\<lparr>lock_owner := Some i\<rparr>))"
| refilled_locked: "callers x i = Refilling_Locked \<Longrightarrow> calls i = Read_Into max_bytes min_bytes t \<Longrightarrow>
    guarded_refill k t (buffered_object x) (Inr c) bp \<Longrightarrow>
    buffered_step k calls x None (now_at i Checking_Locked (x\<lparr>buffered_object := bp\<rparr>))"
| refill_threw_locked: "callers x i = Refilling_Locked \<Longrightarrow> calls i = Read_Into max_bytes min_bytes t \<Longrightarrow>
    guarded_refill k t (buffered_object x) (Inl e) bp \<Longrightarrow>
    buffered_step k calls x None (now_at i (Call_Returned (Inl e)) (x\<lparr>buffered_object := bp, lock_owner := None\<rparr>))"
| lacking_locked: "callers x i = Checking_Locked \<Longrightarrow> calls i = Read_Into max_bytes min_bytes t \<Longrightarrow>
    buffer_write_offset (fst (buffered_object x)) < min_bytes \<Longrightarrow>
    buffered_step k calls x None (now_at i Refilling_Locked x)"
| popped_locked: "callers x i = Checking_Locked \<Longrightarrow> calls i = Read_Into max_bytes min_bytes t \<Longrightarrow>
    min_bytes \<le> buffer_write_offset (fst (buffered_object x)) \<Longrightarrow>
    PopFromBuffer (min (buffer_write_offset (fst (buffered_object x))) max_bytes) (buffered_object x) = (Inr bs, bp) \<Longrightarrow>
    buffered_step k calls x (Some (i, bs))
      (now_at i (Call_Returned (Inr bs)) (x\<lparr>buffered_object := bp, lock_owner := None\<rparr>))"
| elsewhere_buffered: "history q = history (snd (buffered_object x)) @ [ev] \<Longrightarrow>
    event_received (bs_fd (fst (buffered_object x))) ev = [] \<Longrightarrow>
    buffered_step k calls x None (x\<lparr>buffered_object := (fst (buffered_object x), q)\<rparr>)"

definition buffered_start :: "bs_state \<Rightarrow> buffered_state" where
  "buffered_start bp = \<lparr>buffered_object = bp, lock_owner = None, callers = (\<lambda>_. Called)\<rparr>"

text \<open>What a caller's state says of the bytes \<open>bs\<close> it took out.\<close>

fun caller_account :: "buffered_call \<Rightarrow> caller \<Rightarrow> char list \<Rightarrow> bool" where
  "caller_account (Read_Exactly n t) (Call_Returned (Inr bs)) bs' = (bs' = bs \<and> length bs = n)"
| "caller_account (Read_Into max_bytes min_bytes t) (Call_Returned (Inr bs)) bs' =
     (bs' = bs \<and> length bs \<le> max_bytes \<and> min min_bytes max_bytes \<le> length bs)"
| "caller_account c w bs' = (bs' = [])"

lemma buffered_step_ledger:
  assumes "read_bounded k" and "bs_ledger out (buffered_object x)" and "buffered_step k calls x l y"
  shows "bs_ledger (out @ concat (map snd (pieces [l]))) (buffered_object y)"
  using assms(3)
proof (cases rule: buffered_step.cases)
  case (popped i n t bs bp)
  then show ?thesis using bs_ledger_pop [OF assms(1,2)] by simp
next
  case (pop_threw i n t e bp)
  then show ?thesis using bs_ledger_pop_error [OF assms(1,2)] by simp
next
  case (popped_locked i max_bytes min_bytes t bs bp)
  then show ?thesis using bs_ledger_pop [OF assms(1,2)] by simp
qed (use assms(2) guarded_refill_ledger [OF assms(1,2)] in \<open>auto simp: bs_ledger_def\<close>)

lemma buffered_step_account:
  assumes "bs_wf (fst (buffered_object x))" and "buffered_step k calls x l y"
    and "caller_account (calls j) (callers x j) bs"
  shows "caller_account (calls j) (callers y j) (bs @ bytes_from j [l])"
  using assms(2)
proof (cases rule: buffered_step.cases)
  case (popped i n t bs' bp)
  moreover have "length bs' = n"
    using popped assms(1) PopFromBuffer_spec [of "fst (buffered_object x)" n "snd (buffered_object x)"]
    by (auto split: if_splits)
  ultimately show ?thesis using assms(3) by auto
next
  case (popped_locked i max_bytes min_bytes t bs' bp)
  moreover have "length bs' = min (buffer_write_offset (fst (buffered_object x))) max_bytes"
    using popped_locked assms(1)
      PopFromBuffer_spec [of "fst (buffered_object x)" "min (buffer_write_offset (fst (buffered_object x))) max_bytes" "snd (buffered_object x)"]
    by (auto split: if_splits)
  ultimately show ?thesis using assms(3) by auto
qed (use assms(3) in \<open>auto split: if_splits\<close>)

text \<open>
  C9: Reading from one BufferedStream in several threads. However the calls of \<open>read(n)\<close> and
  \<open>read(buffer, max, min)\<close> interleave, no byte is lost, doubled or reordered: everything the socket
  delivered is what the calls took out, one after the other, followed by what is in the buffer. A
  call that returns delivers a contiguous piece of the stream, of exactly the size it asked for, or
  between the smaller of its limits and its maximum; a call that throws has taken nothing.
\<close>

theorem concurrent_buffered_reads_are_fifo:
  assumes "read_bounded k" and "bs_ledger out bp" and "runs (buffered_step k calls) (buffered_start bp) ls x"
  shows "bs_ledger (out @ concat (map snd (pieces ls))) (buffered_object x) \<and>
    (\<forall>i. caller_account (calls i) (callers x i) (bytes_from i ls))"
  using assms(3)
proof (induction "buffered_start bp" ls x rule: runs.induct)
  case runs_Nil
  have "caller_account (calls i) Called []" for i by (cases "calls i") simp_all
  with assms(2) show ?case by (simp add: buffered_start_def)
next
  case (runs_snoc ls x l y)
  with buffered_step_ledger [OF assms(1) _ runs_snoc(3)] buffered_step_account [OF _ runs_snoc(3)]
  show ?case by (auto simp: bs_ledger_def)
qed

section \<open>A call on its own\<close>

lemmas buffered_runs_Cons = runs_Cons [where step = "buffered_step k calls" for k calls]
lemmas buffered_runs_one = runs_one [where step = "buffered_step k calls" for k calls]
lemmas buffered_runs_single = runs_single [where step = "buffered_step k calls" for k calls]

text \<open>
  The critical sections of a call that meets nobody: a refill and a pop, each one step to what the
  sequential function computes.
\<close>

lemma refill_step:
  assumes "readAvailableDataIntoBuffer k t (b, p) = (v, cq)" and "stream_buffer b \<noteq> None"
    and "calls i = Read_Exactly n t" and "buffered_object x = (b, p)" and "lock_owner x = None" and "callers x i = Refilling"
  shows "buffered_step k calls x None
    (now_at i (case v of Inl e \<Rightarrow> Call_Returned (Inl e) | Inr m \<Rightarrow> Checking) (x\<lparr>buffered_object := cq\<rparr>))"
proof -
  obtain c q where cq: "cq = (c, q)" by (meson surj_pair)
  note run = guarded_refill_alone [OF assms(2) assms(1) [unfolded cq]]
  show ?thesis
  proof (cases v)
    case (Inl e)
    then show ?thesis unfolding cq using refill_threw [of x i calls n t k e "(c, q)"] run assms(3-6) by simp
  next
    case (Inr m)
    then show ?thesis unfolding cq using refilled [of x i calls n t k m "(c, q)"] run assms(3-6) by simp
  qed
qed

lemma pop_step:
  assumes "PopFromBuffer n (buffered_object x) = (r, bp')" and "calls i = Read_Exactly n t"
    and "lock_owner x = None" and "callers x i = Popping"
  shows "\<exists>l. buffered_step k calls x l (now_at i (Call_Returned r) (x\<lparr>buffered_object := bp'\<rparr>))"
proof (cases r)
  case (Inl e)
  have "buffered_step k calls x None (now_at i (Call_Returned (Inl e)) (x\<lparr>buffered_object := bp'\<rparr>))"
    by (rule pop_threw [where n = n and t = t]) (use assms Inl in simp_all)
  with Inl show ?thesis by blast
next
  case (Inr bs)
  have "buffered_step k calls x (Some (i, bs)) (now_at i (Call_Returned (Inr bs)) (x\<lparr>buffered_object := bp'\<rparr>))"
    by (rule popped [where n = n and t = t]) (use assms Inr in simp_all)
  with Inr show ?thesis by blast
qed

lemma fill_to_steps:
  assumes "fill_to k n t (b, p) = (r, bp')" and "stream_buffer b \<noteq> None"
    and "calls i = Read_Exactly n t" and "buffered_object x = (b, p)" and "lock_owner x = None" and "callers x i = Checking"
  shows "\<exists>ls. runs (buffered_step k calls) x ls
    (now_at i (case r of Inl e \<Rightarrow> Call_Returned (Inl e) | Inr u \<Rightarrow> Popping) (x\<lparr>buffered_object := bp'\<rparr>))"
  using assms
proof (induction "n - buffer_write_offset b" arbitrary: b p x rule: less_induct)
  case less
  note unfolded = less.prems(1) [unfolded fill_to.simps [of k n t b p]]
  show ?case
  proof (cases "buffer_write_offset b < n")
    case False
    with unfolded have "r = Inr ()" "bp' = (b, p)" by auto
    moreover have "x\<lparr>buffered_object := (b, p)\<rparr> = x" using less.prems(4) by (cases x) simp
    moreover have "\<exists>ls. runs (buffered_step k calls) x ls (now_at i Popping x)"
      by (rule buffered_runs_one, rule sufficient [where n = n and t = t]) (use less.prems False in simp_all)
    ultimately show ?thesis by simp
  next
    case True
    obtain v c q where refill: "readAvailableDataIntoBuffer k t (b, p) = (v, (c, q))" by (metis prod_cases3)
    let ?y = "now_at i Refilling x"
    have first: "buffered_step k calls x None ?y" using lacking less.prems True by simp
    note second = refill_step [where x = ?y and i = i and calls = calls, OF refill less.prems(2,3)]
    show ?thesis
    proof (cases v)
      case (Inl e)
      from Inl unfolded True refill have "r = Inl e" "bp' = (c, q)" by simp_all
      with buffered_runs_Cons [OF first buffered_runs_single [OF second]] Inl less.prems(4-6) show ?thesis by auto
    next
      case (Inr m)
      let ?z = "now_at i Checking (?y\<lparr>buffered_object := (c, q)\<rparr>)"
      have less_left: "n - buffer_write_offset c < n - buffer_write_offset b"
        using readAvailable_progress [OF refill [unfolded Inr]] True by (simp add: diff_less_mono2)
      have "stream_buffer c \<noteq> None" using less.prems(2) refill Inr
        by (auto simp: readAvailableDataIntoBuffer_def Let_def split: prod.splits sum.splits)
      from less.hyps [OF less_left _ this less.prems(3), of q ?z] unfolded True refill Inr less.prems
      obtain ls where "runs (buffered_step k calls) ?z ls
          (now_at i (case r of Inl e \<Rightarrow> Call_Returned (Inl e) | Inr u \<Rightarrow> Popping) (?z\<lparr>buffered_object := bp'\<rparr>))" by auto
      from buffered_runs_Cons [OF first buffered_runs_Cons [OF _ this]] second Inr less.prems(4-6)
      show ?thesis by auto
    qed
  qed
qed

text \<open>\<open>BufferedStream_read\<close> is a run in which only its thread takes steps.\<close>

lemma BufferedStream_read_steps:
  assumes "BufferedStream_read k n t (b, p) = (r, bp')" and "stream_buffer b \<noteq> None"
    and "calls i = Read_Exactly n t" and "buffered_object x = (b, p)" and "lock_owner x = None" and "callers x i = Called"
  shows "\<exists>ls. runs (buffered_step k calls) x ls (now_at i (Call_Returned r) (x\<lparr>buffered_object := bp'\<rparr>))"
proof (cases "stream_buffer_size b < n")
  case True
  with assms(1) have r: "r = Inl (Logic_Error ''buffer is to small for the requested read'')" "bp' = (b, p)"
    by (simp_all add: BufferedStream_read_def)
  moreover from this assms(4) have "x\<lparr>buffered_object := bp'\<rparr> = x" by (cases x) simp
  moreover have "\<exists>ls. runs (buffered_step k calls) x ls (now_at i (Call_Returned r) x)"
    unfolding r(1) by (rule buffered_runs_one, rule too_small [where n = n and t = t]) (use assms True in simp_all)
  ultimately show ?thesis by simp
next
  case False
  let ?y = "now_at i Checking x"
  have first: "buffered_step k calls x None ?y" using fits assms False by simp
  obtain v c q where fill: "fill_to k n t (b, p) = (v, (c, q))" by (metis prod_cases3)
  from fill_to_steps [where x = ?y and calls = calls and i = i, OF fill assms(2,3)] assms
  obtain ls where loop: "runs (buffered_step k calls) ?y ls
      (now_at i (case v of Inl e \<Rightarrow> Call_Returned (Inl e) | Inr u \<Rightarrow> Popping) (?y\<lparr>buffered_object := (c, q)\<rparr>))" by auto
  show ?thesis
  proof (cases v)
    case (Inl e)
    with buffered_runs_Cons [OF first loop] fill assms(1) False show ?thesis
      by (auto simp: BufferedStream_read_def)
  next
    case (Inr u)
    let ?p = "now_at i Popping (?y\<lparr>buffered_object := (c, q)\<rparr>)"
    from Inr fill assms(1) False have "PopFromBuffer n (c, q) = (r, bp')" by (simp add: BufferedStream_read_def)
    with pop_step [of n ?p r bp' calls i t k] assms(3,5)
    obtain l where "buffered_step k calls ?p l (now_at i (Call_Returned r) (?p\<lparr>buffered_object := bp'\<rparr>))" by auto
    moreover from loop Inr have "runs (buffered_step k calls) ?y ls ?p" by simp
    ultimately have "runs (buffered_step k calls) x (None # ls @ [l]) (now_at i (Call_Returned r) (?p\<lparr>buffered_object := bp'\<rparr>))"
      by (intro buffered_runs_Cons [OF first] runs_snoc)
    then show ?thesis by auto
  qed
qed

text \<open>
  The pop at the end of \<open>read(buffer, max, min)\<close> cannot throw, which is why the step relation has
  no step for it; and so is that function, when nobody interrupts it, a run of the relation.
\<close>

lemma locked_pop_succeeds:
  "bs_wf (fst bp) \<Longrightarrow> \<exists>bp'. PopFromBuffer (min (buffer_write_offset (fst bp)) max_bytes) bp =
    (Inr (take (min (buffer_write_offset (fst bp)) max_bytes) (bs_contents (fst bp))), bp')"
  using PopFromBuffer_spec [of "fst bp" "min (buffer_write_offset (fst bp)) max_bytes" "snd bp"] by auto

lemma locked_refill_step:
  assumes "readAvailableDataIntoBuffer k t (b, p) = (v, cq)" and "bs_wf b"
    and "calls i = Read_Into max_bytes min_bytes t" and "buffered_object x = (b, p)" and "callers x i = Refilling_Locked"
  shows "buffered_step k calls x None (case v of
      Inl e \<Rightarrow> now_at i (Call_Returned (Inl e)) (x\<lparr>buffered_object := cq, lock_owner := None\<rparr>)
    | Inr m \<Rightarrow> now_at i Checking_Locked (x\<lparr>buffered_object := cq\<rparr>))"
proof -
  obtain c q where cq: "cq = (c, q)" by (meson surj_pair)
  have "stream_buffer b \<noteq> None" using assms(2) by (auto elim: bs_wfE)
  note run = guarded_refill_alone [OF this assms(1) [unfolded cq]]
  show ?thesis
  proof (cases v)
    case (Inl e)
    then show ?thesis unfolding cq
      using refill_threw_locked [of x i calls max_bytes min_bytes t k e "(c, q)"] run assms(3-5) by simp
  next
    case (Inr m)
    then show ?thesis unfolding cq
      using refilled_locked [of x i calls max_bytes min_bytes t k m "(c, q)"] run assms(3-5) by simp
  qed
qed

lemma locked_pop_step:
  assumes "min_bytes \<le> buffer_write_offset (fst bp)" and "bs_wf (fst bp)"
    and "calls i = Read_Into max_bytes min_bytes t" and "buffered_object x = bp" and "callers x i = Checking_Locked"
  defines "bs \<equiv> take (min (buffer_write_offset (fst bp)) max_bytes) (bs_contents (fst bp))"
  obtains bp' where "PopFromBuffer (min (buffer_write_offset (fst bp)) max_bytes) bp = (Inr bs, bp')"
    and "buffered_step k calls x (Some (i, bs))
      (now_at i (Call_Returned (Inr bs)) (x\<lparr>buffered_object := bp', lock_owner := None\<rparr>))"
proof -
  from locked_pop_succeeds [OF assms(2), of max_bytes] obtain bp' where
    pop: "PopFromBuffer (min (buffer_write_offset (fst bp)) max_bytes) bp = (Inr bs, bp')"
    unfolding bs_def by blast
  have "buffered_step k calls x (Some (i, bs))
      (now_at i (Call_Returned (Inr bs)) (x\<lparr>buffered_object := bp', lock_owner := None\<rparr>))"
    by (rule popped_locked [where max_bytes = max_bytes and min_bytes = min_bytes and t = t]) (use assms pop in simp_all)
  with pop that show thesis by blast
qed

lemma fill_to_locked_steps:
  assumes "read_bounded k" and "fill_to k min_bytes t (b, p) = (r, bp')" and "bs_wf b"
    and "calls i = Read_Into max_bytes min_bytes t" and "buffered_object x = (b, p)" and "callers x i = Checking_Locked"
  shows "\<exists>ls. runs (buffered_step k calls) x ls
    (case r of Inl e \<Rightarrow> now_at i (Call_Returned (Inl e)) (x\<lparr>buffered_object := bp', lock_owner := None\<rparr>)
     | Inr u \<Rightarrow> x\<lparr>buffered_object := bp'\<rparr>) \<and>
    (r = Inr () \<longrightarrow> min_bytes \<le> buffer_write_offset (fst bp') \<and> bs_wf (fst bp'))"
  using assms(2-)
proof (induction "min_bytes - buffer_write_offset b" arbitrary: b p x rule: less_induct)
  case less
  note unfolded = less.prems(1) [unfolded fill_to.simps [of k min_bytes t b p]]
  show ?case
  proof (cases "buffer_write_offset b < min_bytes")
    case False
    with unfolded have "r = Inr ()" "bp' = (b, p)" by auto
    moreover have "x\<lparr>buffered_object := (b, p)\<rparr> = x" using less.prems(4) by (cases x) simp
    ultimately show ?thesis using False less.prems(2) by (auto intro: exI [of _ "[]"])
  next
    case True
    obtain v c q where refill: "readAvailableDataIntoBuffer k t (b, p) = (v, (c, q))" by (metis prod_cases3)
    let ?y = "now_at i Refilling_Locked x"
    have first: "buffered_step k calls x None ?y"
      by (rule lacking_locked [where max_bytes = max_bytes and min_bytes = min_bytes and t = t]) (use less.prems(3-5) True in simp_all)
    note second = locked_refill_step [where x = ?y and i = i and calls = calls, OF refill less.prems(2,3)]
    show ?thesis
    proof (cases v)
      case (Inl e)
      from Inl unfolded True refill have "r = Inl e" "bp' = (c, q)" by simp_all
      with buffered_runs_Cons [OF first buffered_runs_single [OF second]] Inl less.prems(4) show ?thesis by auto
    next
      case (Inr m)
      let ?z = "now_at i Checking_Locked (?y\<lparr>buffered_object := (c, q)\<rparr>)"
      have less_left: "min_bytes - buffer_write_offset c < min_bytes - buffer_write_offset b"
        using readAvailable_progress [OF refill [unfolded Inr]] True by (simp add: diff_less_mono2)
      have wf: "bs_wf c" using readAvailable_spec [OF assms(1) less.prems(2) refill] by simp
      have rest: "fill_to k min_bytes t (c, q) = (r, bp')" using unfolded True refill Inr by simp
      obtain ls where "runs (buffered_step k calls) ?z ls
          (case r of Inl e \<Rightarrow> now_at i (Call_Returned (Inl e)) (?z\<lparr>buffered_object := bp', lock_owner := None\<rparr>)
           | Inr u \<Rightarrow> ?z\<lparr>buffered_object := bp'\<rparr>)"
        and filled: "r = Inr () \<longrightarrow> min_bytes \<le> buffer_write_offset (fst bp') \<and> bs_wf (fst bp')"
        using less.hyps [OF less_left rest wf less.prems(3), of ?z] by auto
      from buffered_runs_Cons [OF first buffered_runs_Cons [OF _ this(1)]] second Inr less.prems(4)
      have "\<exists>ls. runs (buffered_step k calls) x ls
          (case r of Inl e \<Rightarrow> now_at i (Call_Returned (Inl e)) (?z\<lparr>buffered_object := bp', lock_owner := None\<rparr>)
           | Inr u \<Rightarrow> ?z\<lparr>buffered_object := bp'\<rparr>)" by fastforce
      moreover have "?z\<lparr>buffered_object := bp'\<rparr> = x\<lparr>buffered_object := bp'\<rparr>"
        using less.prems(5) by (cases x) auto
      ultimately show ?thesis using filled by (cases r) simp_all
    qed
  qed
qed

lemma BufferedStream_read_into_steps:
  assumes "read_bounded k" and "BufferedStream_read_into k dest off max_bytes min_bytes t (b, p) = (r, bp')" and "bs_wf b"
    and "calls i = Read_Into max_bytes min_bytes t" and "buffered_object x = (b, p)" and "lock_owner x = None"
    and "callers x i = Called"
  shows "\<exists>ls bs. runs (buffered_step k calls) x ls
      (now_at i (Call_Returned (case r of Inl e \<Rightarrow> Inl e | Inr n \<Rightarrow> Inr bs)) (x\<lparr>buffered_object := bp'\<rparr>)) \<and>
    (\<forall>n dest'. r = Inr (n, dest') \<longrightarrow> length bs = n \<and> dest' = block_write dest off bs)"
proof -
  let ?y = "now_at i Refilling_Locked (x\<lparr>lock_owner := Some i\<rparr>)"
  have first: "buffered_step k calls x None ?y" 
    by (rule took_lock [where max_bytes = max_bytes and min_bytes = min_bytes and t = t]) (use assms(4,6,7) in simp_all)
  obtain v c q where refill: "readAvailableDataIntoBuffer k t (b, p) = (v, (c, q))" by (metis prod_cases3)
  note second = locked_refill_step [where x = ?y and i = i and calls = calls, OF refill assms(3,4)]
  show ?thesis
  proof (cases v)
    case (Inl e)
    from buffered_runs_Cons [OF first buffered_runs_single [OF second]] assms(2,5,6) Inl refill
    show ?thesis by (cases x) (auto simp: BufferedStream_read_into_def)
  next
    case (Inr m)
    let ?z = "now_at i Checking_Locked (?y\<lparr>buffered_object := (c, q)\<rparr>)"
    have wf: "bs_wf c" using readAvailable_spec [OF assms(1,3) refill] by simp
    obtain w d u where fill: "fill_to k min_bytes t (c, q) = (w, (d, u))" by (metis prod_cases3)
    obtain ls where loop: "runs (buffered_step k calls) ?z ls
        (case w of Inl e \<Rightarrow> now_at i (Call_Returned (Inl e)) (?z\<lparr>buffered_object := (d, u), lock_owner := None\<rparr>)
         | Inr _ \<Rightarrow> ?z\<lparr>buffered_object := (d, u)\<rparr>)"
      and filled: "w = Inr () \<longrightarrow> min_bytes \<le> buffer_write_offset d \<and> bs_wf d"
      using fill_to_locked_steps [where calls = calls and i = i and x = ?z, OF assms(1) fill wf assms(4)] by auto
    have "buffered_step k calls ?y None ?z" using second Inr assms(5) by simp
    note upto = buffered_runs_Cons [OF first buffered_runs_Cons [OF this loop]]
    show ?thesis
    proof (cases w)
      case (Inl e)
      with upto assms(2,6) Inr refill fill show ?thesis
        by (cases x) (auto simp: BufferedStream_read_into_def)
    next
      case full: (Inr _)
      let ?n = "min (buffer_write_offset d) max_bytes" and ?v = "?z\<lparr>buffered_object := (d, u)\<rparr>"
      let ?bs = "take ?n (bs_contents d)"
      obtain d' where pop: "PopFromBuffer ?n (d, u) = (Inr ?bs, d')"
        and "buffered_step k calls ?v (Some (i, ?bs))
          (now_at i (Call_Returned (Inr ?bs)) (?v\<lparr>buffered_object := d', lock_owner := None\<rparr>))"
        by (rule locked_pop_step [of min_bytes "(d, u)" calls i max_bytes t ?v k]) (use filled full assms(4) in simp_all)
      with upto full runs_snoc [where step = "buffered_step k calls", of x "None # None # ls" ?v]
      have "\<exists>ls. runs (buffered_step k calls) x ls (now_at i (Call_Returned (Inr ?bs)) (x\<lparr>buffered_object := d'\<rparr>))"
        using assms(6) by (cases x) auto
      moreover have "r = Inr (?n, block_write dest off ?bs)" "bp' = d'"
        using assms(2) Inr refill fill full pop by (auto simp: BufferedStream_read_into_def Let_def)
      moreover have "length ?bs = ?n" using filled full by simp
      ultimately show ?thesis by fastforce
    qed
  qed
qed

theorem concurrent_buffered_reads_are_fifo_witness:
  "\<exists>ls x. runs (buffered_step (reference_kernel demo_script) (\<lambda>_. Read_Exactly 3 100))
      (buffered_start (demo_buffered, demo_process)) ls x \<and> callers x 0 = Call_Returned (Inr ''hel'') \<and>
    bytes_from 0 ls = ''hel'' \<and> bs_ledger (concat (map snd (pieces ls))) (buffered_object x)"
proof -
  let ?k = "reference_kernel demo_script"
  let ?r = "BufferedStream_read ?k 3 100 (demo_buffered, demo_process)"
  have "fst ?r = Inr ''hel''" by code_simp
  then have r: "?r = (Inr ''hel'', snd ?r)" by (rule pair_of_fst)
  have "stream_buffer demo_buffered \<noteq> None"
    by (simp add: demo_buffered_def BufferedStream_construct_def Stream_move_def)
  from BufferedStream_read_steps [where x = "buffered_start (demo_buffered, demo_process)"
      and calls = "\<lambda>_. Read_Exactly 3 100" and i = 0, OF r this]
  obtain ls x where run: "runs (buffered_step ?k (\<lambda>_. Read_Exactly 3 100))
      (buffered_start (demo_buffered, demo_process)) ls x" and x: "callers x 0 = Call_Returned (Inr ''hel'')"
    by (fastforce simp: buffered_start_def)
  from concurrent_buffered_reads_are_fifo [OF reference_read_bounded demo_ledger run]
  have "bs_ledger ([] @ concat (map snd (pieces ls))) (buffered_object x)"
    and "caller_account (Read_Exactly 3 100) (callers x 0) (bytes_from 0 ls)" by blast+
  with run x show ?thesis by auto
qed

section \<open>Calls of read(n) that race\<close>

text \<open>Both threads pass the check of the size.\<close>

lemma both_check:
  assumes "n \<le> stream_buffer_size b"
  shows "\<exists>ls. runs (buffered_step k (\<lambda>_. Read_Exactly n t)) (buffered_start (b, p)) ls
    \<lparr>buffered_object = (b, p), lock_owner = None, callers = (\<lambda>_. Called)(0 := Checking, 1 := Checking)\<rparr>"
proof -
  let ?x = "now_at 0 Checking (buffered_start (b, p))"
  have "buffered_step k (\<lambda>_. Read_Exactly n t) (buffered_start (b, p)) None ?x"
    using assms by (intro fits) (simp_all add: buffered_start_def)
  moreover have "buffered_step k (\<lambda>_. Read_Exactly n t) ?x None (now_at 1 Checking ?x)"
    using assms by (intro fits) (simp_all add: buffered_start_def)
  ultimately have "\<exists>ls. runs (buffered_step k (\<lambda>_. Read_Exactly n t)) (buffered_start (b, p)) ls (now_at 1 Checking ?x)"
    by (blast intro: buffered_runs_Cons buffered_runs_single)
  then show ?thesis by (simp add: buffered_start_def)
qed

lemma second_pop_throws:
  assumes "bs_wf b" and "n \<le> buffer_write_offset b" and "buffer_write_offset b < 2 * n"
  shows "\<exists>ls x. runs (buffered_step k (\<lambda>_. Read_Exactly n t)) (buffered_start (b, p)) ls x \<and>
    callers x 0 = Call_Returned (Inr (take n (bs_contents b))) \<and>
    callers x 1 = Call_Returned (Inl (Out_Of_Range (pop_error_text n (buffer_write_offset b - n)))) \<and>
    snd (buffered_object x) = p"
proof -
  let ?step = "buffered_step k (\<lambda>_. Read_Exactly n t)"
  let ?b = "b\<lparr>buffer_write_offset := buffer_write_offset b - n,
    stream_buffer := Some (block_move_down (the (stream_buffer b)) n (buffer_write_offset b - n))\<rparr>"
  let ?x = "\<lparr>buffered_object = (b, p), lock_owner = None, callers = (\<lambda>_. Called)(0 := Checking, 1 := Checking)\<rparr>"
  let ?u = "now_at 1 Popping (now_at 0 Popping ?x)"
  let ?v = "now_at 0 (Call_Returned (Inr (take n (bs_contents b)))) (?u\<lparr>buffered_object := (?b, p)\<rparr>)"
  let ?w = "now_at 1 (Call_Returned (Inl (Out_Of_Range (pop_error_text n (buffer_write_offset b - n))))) (?v\<lparr>buffered_object := (?b, p)\<rparr>)"
  have "n \<le> stream_buffer_size b" using assms by (auto elim: bs_wfE)
  from both_check [OF this] obtain ls where "runs ?step (buffered_start (b, p)) ls ?x" by blast
  moreover have "?step ?x None (now_at 0 Popping ?x)" using assms by (intro sufficient) simp_all
  moreover have "?step (now_at 0 Popping ?x) None ?u" using assms by (intro sufficient) simp_all
  moreover have "?step ?u (Some (0, take n (bs_contents b))) ?v"
    by (rule popped [where n = n and t = t]) (use assms in \<open>simp_all add: PopFromBuffer_spec\<close>)
  moreover have "?step ?v None ?w"
    by (rule pop_threw [where n = n and t = t])
      (use assms popped_spec(1) [OF assms(1,2) refl] in \<open>simp_all add: PopFromBuffer_spec\<close>)
  ultimately have "\<exists>ls. runs ?step (buffered_start (b, p)) ls ?w" by (blast intro: runs_snoc)
  then obtain ls' where run: "runs ?step (buffered_start (b, p)) ls' ?w" by blast
  show ?thesis by (rule exI, rule exI, rule conjI [OF run]) simp
qed

lemma second_refill_throws:
  assumes "read_bounded k" and "bs_wf b" and "buffer_write_offset b < n" and "n \<le> stream_buffer_size b"
    and refill: "readAvailableDataIntoBuffer k t (b, p) = (Inr c, (b', p'))"
    and full: "buffer_write_offset b' = stream_buffer_size b'"
    and polled: "k_poll k (history p') (read_fds (bs_stream b')) t = Inr rs" "revents rs 0 \<noteq> 0"
      "k_read k (history p' @ [Ev_Poll (read_fds (bs_stream b')) t (Inr rs)]) (bs_fd b') 0 = Inr bs"
  shows "\<exists>ls x. runs (buffered_step k (\<lambda>_. Read_Exactly n t)) (buffered_start (b, p)) ls x \<and>
    callers x 1 = Call_Returned (Inl (socket_exception SOCKET_CLOSED 0 (-1))) \<and> n \<le> length (bs_contents (fst (buffered_object x)))"
proof -
  let ?step = "buffered_step k (\<lambda>_. Read_Exactly n t)"
  let ?x = "\<lparr>buffered_object = (b, p), lock_owner = None, callers = (\<lambda>_. Called)(0 := Checking, 1 := Checking)\<rparr>"
  let ?u = "now_at 1 Refilling (now_at 0 Refilling ?x)"
  let ?v = "now_at 0 Checking (?u\<lparr>buffered_object := (b', p')\<rparr>)"
  obtain m where m: "stream_buffer b = Some m" using assms(2) by (rule bs_wfE)
  have wf: "bs_wf b'" and size: "stream_buffer_size b' = stream_buffer_size b"
    using readAvailable_spec [OF assms(1,2) refill] by simp_all
  obtain m' where m': "stream_buffer b' = Some m'" using wf by (rule bs_wfE)
  obtain q where "readAvailableDataIntoBuffer k t (b', p') = (Inl (socket_exception SOCKET_CLOSED 0 (-1)), (b', q))"
    using readAvailable_throws [OF m'] full
    by (auto simp: Stream_read_zero_room [OF assms(1) _ polled])
  with m' have closed: "guarded_refill k t (b', p') (Inl (socket_exception SOCKET_CLOSED 0 (-1))) (b', q)"
    by (intro guarded_refill_alone) simp_all
  let ?w = "now_at 1 (Call_Returned (Inl (socket_exception SOCKET_CLOSED 0 (-1)))) (?v\<lparr>buffered_object := (b', q)\<rparr>)"
  from both_check [OF assms(4)] obtain ls where "runs ?step (buffered_start (b, p)) ls ?x" by blast
  moreover have "?step ?x None (now_at 0 Refilling ?x)" using assms(3) by (intro lacking) simp_all
  moreover have "?step (now_at 0 Refilling ?x) None ?u" using assms(3) by (intro lacking) simp_all
  moreover have "?step ?u None ?v"
    using guarded_refill_alone [OF _ refill] m by (intro refilled) simp_all
  moreover have "?step ?v None ?w" using closed by (intro refill_threw) simp_all
  ultimately have "\<exists>ls. runs ?step (buffered_start (b, p)) ls ?w" by (blast intro: runs_snoc)
  then obtain ls' where run: "runs ?step (buffered_start (b, p)) ls' ?w" by blast
  have "n \<le> length (bs_contents b')" using wf full size assms(4) by simp
  then have "callers ?w 1 = Call_Returned (Inl (socket_exception SOCKET_CLOSED 0 (-1))) \<and>
      n \<le> length (bs_contents (fst (buffered_object ?w)))" by simp
  with run show ?thesis by blast
qed

text \<open>
  C23: \<open>read(n)\<close> is not safe against itself. (1) Two calls that both find enough bytes in the buffer,
  but not enough for both: the second one, which should wait for more, throws the \<open>std::out_of_range\<close>
  of \<open>PopFromBuffer\<close>, without a system call. (2) Two calls that both find too few: when the refill of
  the first fills the buffer, that of the second asks the socket for zero bytes, and throws
  \<open>SOCKET_CLOSED\<close> although the connection is open and the bytes it wanted are in the buffer.
\<close>

theorem racing_buffered_reads_throw:
  assumes "read_bounded k" and "bs_wf b"
  shows "(n \<le> buffer_write_offset b \<longrightarrow> buffer_write_offset b < 2 * n \<longrightarrow>
      (\<exists>ls x. runs (buffered_step k (\<lambda>_. Read_Exactly n t)) (buffered_start (b, p)) ls x \<and>
        callers x 0 = Call_Returned (Inr (take n (bs_contents b))) \<and>
        callers x 1 = Call_Returned (Inl (Out_Of_Range (pop_error_text n (buffer_write_offset b - n)))) \<and>
        snd (buffered_object x) = p)) \<and>
    (\<forall>c b' p' rs bs. buffer_write_offset b < n \<longrightarrow> n \<le> stream_buffer_size b \<longrightarrow>
      readAvailableDataIntoBuffer k t (b, p) = (Inr c, (b', p')) \<longrightarrow>
      buffer_write_offset b' = stream_buffer_size b' \<longrightarrow>
      k_poll k (history p') (read_fds (bs_stream b')) t = Inr rs \<longrightarrow> revents rs 0 \<noteq> 0 \<longrightarrow>
      k_read k (history p' @ [Ev_Poll (read_fds (bs_stream b')) t (Inr rs)]) (bs_fd b') 0 = Inr bs \<longrightarrow>
      (\<exists>ls x. runs (buffered_step k (\<lambda>_. Read_Exactly n t)) (buffered_start (b, p)) ls x \<and>
        callers x 1 = Call_Returned (Inl (socket_exception SOCKET_CLOSED 0 (-1))) \<and>
        n \<le> length (bs_contents (fst (buffered_object x)))))"
  using second_pop_throws [OF assms(2)] second_refill_throws [OF assms] by blast

text \<open>A buffer of two bytes, which the first refill fills while more input waits.\<close>

definition demo_small_buffer :: BufferedStream where
  "demo_small_buffer = fst (BufferedStream_construct demo_stream 2)"

theorem racing_buffered_reads_throw_witness:
  "(\<exists>ls x. runs (buffered_step (reference_kernel demo_script) (\<lambda>_. Read_Exactly 3 100)) (buffered_start (demo_line_buffer, demo_process)) ls x \<and>
      callers x 0 = Call_Returned (Inr ''a;b'') \<and>
      callers x 1 = Call_Returned (Inl (Out_Of_Range (pop_error_text 3 1)))) \<and>
   (\<exists>ls x. runs (buffered_step (reference_kernel demo_script) (\<lambda>_. Read_Exactly 1 100))
        (buffered_start (demo_small_buffer, demo_process)) ls x \<and>
      callers x 1 = Call_Returned (Inl (socket_exception SOCKET_CLOSED 0 (-1))) \<and>
      1 \<le> length (bs_contents (fst (buffered_object x))))"
proof
  have "bs_wf demo_line_buffer" and "take 3 (bs_contents demo_line_buffer) = ''a;b''"
    and "buffer_write_offset demo_line_buffer = 4"
    by (simp_all add: demo_line_buffer_def bs_wf_def bs_contents_def)
  with racing_buffered_reads_throw [OF reference_read_bounded [of demo_script], of demo_line_buffer 3 100 demo_process]
  show "\<exists>ls x. runs (buffered_step (reference_kernel demo_script) (\<lambda>_. Read_Exactly 3 100)) (buffered_start (demo_line_buffer, demo_process)) ls x \<and>
      callers x 0 = Call_Returned (Inr ''a;b'') \<and>
      callers x 1 = Call_Returned (Inl (Out_Of_Range (pop_error_text 3 1)))" by fastforce
  let ?k = "reference_kernel demo_script"
  let ?r = "readAvailableDataIntoBuffer ?k 100 (demo_small_buffer, demo_process)"
  have wf: "bs_wf demo_small_buffer"
    by (simp add: demo_small_buffer_def BufferedStream_construct_def Stream_move_def bs_wf_def)
  have "fst ?r = Inr 2" by code_simp
  then have refill: "?r = (Inr 2, (fst (snd ?r), snd (snd ?r)))" by (simp add: prod_eq_iff)
  have room: "buffer_write_offset demo_small_buffer < 1" "1 \<le> stream_buffer_size demo_small_buffer" by code_simp+
  have full: "buffer_write_offset (fst (snd ?r)) = stream_buffer_size (fst (snd ?r))" by code_simp
  have polled: "k_poll ?k (history (snd (snd ?r))) (read_fds (bs_stream (fst (snd ?r)))) 100 = Inr [1, 0]"
    "revents [1, 0] 0 \<noteq> 0"
    "k_read ?k (history (snd (snd ?r)) @ [Ev_Poll (read_fds (bs_stream (fst (snd ?r)))) 100 (Inr [1, 0])])
      (bs_fd (fst (snd ?r))) 0 = Inr []"
    by code_simp+
  from racing_buffered_reads_throw [OF reference_read_bounded wf, where n = 1 and t = 100 and p = demo_process]
    room refill full polled
  show "\<exists>ls x. runs (buffered_step ?k (\<lambda>_. Read_Exactly 1 100)) (buffered_start (demo_small_buffer, demo_process)) ls x \<and>
      callers x 1 = Call_Returned (Inl (socket_exception SOCKET_CLOSED 0 (-1))) \<and>
      1 \<le> length (bs_contents (fst (buffered_object x)))"
    by blast
qed

end
