(* ===== verification/Lock_Order.thy ===== *)
theory Lock_Order
  imports Labelled_Steps
begin

text \<open>
  Threads that take and release mutexes. Of a thread only its lock operations are kept, in the
  order in which it makes them; whatever it does in between ends. Mutexes are exclusive, and some
  of them recursive: their holder may take them again. The theory shows that a common order on the
  mutexes rules out deadlock, for any number of threads.
\<close>

section \<open>Lock operations and their steps\<close>

datatype 'm lock_op = Lock 'm | Unlock 'm

text \<open>What each thread still has to do, and the mutexes it holds, the last one taken first.\<close>

record 'm lock_state =
  todo :: "nat \<Rightarrow> 'm lock_op list"
  holding :: "nat \<Rightarrow> 'm list"

text \<open>
  A thread waits at a mutex that another thread holds. At a mutex of its own that is not
  recursive it waits for ever: in C++ that is undefined, and in practice a deadlock.
\<close>

inductive lock_step :: "('m \<Rightarrow> bool) \<Rightarrow> 'm lock_state \<Rightarrow> nat \<Rightarrow> 'm lock_state \<Rightarrow> bool"
  for recursive where
  acquire: "todo s i = Lock m # ops \<Longrightarrow> (\<forall>j. j \<noteq> i \<longrightarrow> m \<notin> set (holding s j)) \<Longrightarrow>
    (m \<in> set (holding s i) \<longrightarrow> recursive m) \<Longrightarrow>
    lock_step recursive s i (s\<lparr>todo := (todo s)(i := ops), holding := (holding s)(i := m # holding s i)\<rparr>)"
| release: "todo s i = Unlock m # ops \<Longrightarrow>
    lock_step recursive s i (s\<lparr>todo := (todo s)(i := ops), holding := (holding s)(i := remove1 m (holding s i))\<rparr>)"

definition lock_start :: "(nat \<Rightarrow> 'm lock_op list) \<Rightarrow> 'm lock_state" where
  "lock_start programs = \<lparr>todo = programs, holding = (\<lambda>_. [])\<rparr>"

definition deadlocked :: "('m \<Rightarrow> bool) \<Rightarrow> 'm lock_state \<Rightarrow> bool" where
  "deadlocked recursive s = ((\<exists>i. todo s i \<noteq> []) \<and> (\<forall>i t. \<not> lock_step recursive s i t))"

section \<open>Programs that respect an order\<close>

text \<open>
  A new mutex is above all that are held, one that is held already is recursive, the last one
  taken is the first released (as lock guards do it), and in the end none is held.
\<close>

fun obeys :: "('m \<Rightarrow> nat) \<Rightarrow> ('m \<Rightarrow> bool) \<Rightarrow> 'm list \<Rightarrow> 'm lock_op list \<Rightarrow> bool" where
  "obeys rank recursive ms [] = (ms = [])"
| "obeys rank recursive ms (Lock m # ops) =
     ((m \<in> set ms \<and> recursive m \<or> (\<forall>n \<in> set ms. rank n < rank m)) \<and> obeys rank recursive (m # ms) ops)"
| "obeys rank recursive ms (Unlock m # ops) =
     (ms \<noteq> [] \<and> hd ms = m \<and> obeys rank recursive (tl ms) ops)"

text \<open>Operations that may come while \<open>ms\<close> are held and leave them as they were.\<close>

definition block :: "('m \<Rightarrow> nat) \<Rightarrow> ('m \<Rightarrow> bool) \<Rightarrow> 'm list \<Rightarrow> 'm lock_op list \<Rightarrow> bool" where
  "block rank recursive ms ops =
     (\<forall>rest. obeys rank recursive ms rest \<longrightarrow> obeys rank recursive ms (ops @ rest))"

lemma block_Nil [intro]: "block rank recursive ms []"
  by (simp add: block_def)

lemma block_append [intro]:
  "block rank recursive ms ops \<Longrightarrow> block rank recursive ms ops' \<Longrightarrow> block rank recursive ms (ops @ ops')"
  by (simp add: block_def)

lemma block_concat [intro]:
  "(\<And>ops. ops \<in> set opss \<Longrightarrow> block rank recursive ms ops) \<Longrightarrow> block rank recursive ms (concat opss)"
  by (induction opss) auto

text \<open>The scope of a lock guard.\<close>

lemma block_guard:
  assumes "m \<in> set ms \<and> recursive m \<or> (\<forall>n \<in> set ms. rank n < rank m)"
    and "block rank recursive (m # ms) ops"
  shows "block rank recursive ms (Lock m # ops @ [Unlock m])"
  using assms by (auto simp: block_def)

lemma block_obeys: "block rank recursive [] ops \<Longrightarrow> obeys rank recursive [] ops"
  unfolding block_def by (metis append_Nil2 obeys.simps(1))

section \<open>No deadlock\<close>

definition lock_inv :: "('m \<Rightarrow> nat) \<Rightarrow> ('m \<Rightarrow> bool) \<Rightarrow> 'm lock_state \<Rightarrow> bool" where
  "lock_inv rank recursive s =
     ((\<forall>i. obeys rank recursive (holding s i) (todo s i)) \<and>
      (\<forall>i j m. m \<in> set (holding s i) \<longrightarrow> m \<in> set (holding s j) \<longrightarrow> i = j))"

lemma lock_inv_step:
  assumes "lock_inv rank recursive s" and "lock_step recursive s i t"
  shows "lock_inv rank recursive t"
  using assms(2)
proof (cases rule: lock_step.cases)
  case (acquire m ops)
  have "obeys rank recursive (holding s i) (todo s i)" using assms(1) by (simp add: lock_inv_def)
  with acquire assms(1) show ?thesis by (auto simp: lock_inv_def)
next
  case (release m ops)
  have "obeys rank recursive (holding s i) (todo s i)" using assms(1) by (simp add: lock_inv_def)
  with release have hd: "holding s i \<noteq> []" "hd (holding s i) = m" "obeys rank recursive (tl (holding s i)) ops" by simp_all
  then have "remove1 m (holding s i) = tl (holding s i)" by (cases "holding s i") auto
  with release hd assms(1) show ?thesis by (auto simp: lock_inv_def dest: list.set_sel(2))
qed

lemma lock_step_shorter:
  assumes "lock_step recursive s i t"
  shows "length (todo s i) = Suc (length (todo t i))" and "j \<noteq> i \<Longrightarrow> todo t j = todo s j"
  using assms by (cases rule: lock_step.cases; simp)+

text \<open>
  A state that satisfies the invariant is not deadlocked: among the threads that are not done,
  take one that waits for a mutex of the highest rank; the holder of that mutex could only wait
  for a higher one.
\<close>

lemma lock_inv_progress:
  assumes "lock_inv rank recursive s" and "finite {i. todo s i \<noteq> []}"
  shows "\<not> deadlocked recursive s"
proof
  assume dead: "deadlocked recursive s"
  then have stuck: "\<not> lock_step recursive s i t" for i t by (simp add: deadlocked_def)
  have obey: "obeys rank recursive (holding s i) (todo s i)" for i using assms(1) by (simp add: lock_inv_def)
  have waits: "\<exists>m ops j. todo s i = Lock m # ops \<and> j \<noteq> i \<and> m \<in> set (holding s j)" if "todo s i \<noteq> []" for i
  proof (cases "todo s i")
    case (Cons x ops)
    then show ?thesis
    proof (cases x)
      case (Unlock m)
      with Cons release [of s i m ops recursive] stuck show ?thesis by blast
    next
      case (Lock m)
      from obey [of i] Cons Lock have "m \<in> set (holding s i) \<longrightarrow> recursive m" by auto
      with Cons Lock acquire [of s i m ops recursive] stuck show ?thesis by blast
    qed
  qed (use that in simp)
  define top where "top i = (case todo s i of Lock m # ops \<Rightarrow> rank m | _ \<Rightarrow> 0)" for i
  obtain i where i: "todo s i \<noteq> []" and max: "\<And>j. todo s j \<noteq> [] \<Longrightarrow> top j \<le> top i"
  proof -
    have fin: "finite (top ` {i. todo s i \<noteq> []})" and ne: "top ` {i. todo s i \<noteq> []} \<noteq> {}"
      using assms(2) dead by (auto simp: deadlocked_def)
    from Max_in [OF this] obtain i where "todo s i \<noteq> []" "top i = Max (top ` {i. todo s i \<noteq> []})" by auto
    with Max_ge [OF fin] that show thesis by auto
  qed
  from waits [OF i] obtain m ops j where m: "todo s i = Lock m # ops" "j \<noteq> i" "m \<in> set (holding s j)" by blast
  then have "todo s j \<noteq> []" using obey [of j] by auto
  from waits [OF this] obtain n ops' l where n: "todo s j = Lock n # ops'" "l \<noteq> j" "n \<in> set (holding s l)" by blast
  then have "n \<notin> set (holding s j)" using assms(1) unfolding lock_inv_def by blast
  with obey [of j] n(1) m(3) have "rank m < rank n" by auto
  with max [OF \<open>todo s j \<noteq> []\<close>] m(1) n(1) show False by (simp add: top_def)
qed

section \<open>Disciplined threads\<close>

text \<open>Any number of threads that each run a program; the others have nothing to do.\<close>

definition programs_of :: "('t \<Rightarrow> 'm lock_op list) \<Rightarrow> 't list \<Rightarrow> nat \<Rightarrow> 'm lock_op list" where
  "programs_of program ts i = (if i < length ts then program (ts ! i) else [])"

definition ops_left :: "nat \<Rightarrow> 'm lock_state \<Rightarrow> nat" where
  "ops_left n s = (\<Sum>i<n. length (todo s i))"

lemma ops_left_start [simp]: "ops_left (length ts) (lock_start (programs_of program ts)) = (\<Sum>t\<leftarrow>ts. length (program t))"
  by (simp add: ops_left_def lock_start_def programs_of_def sum_list_sum_nth atLeast0LessThan)

locale lock_discipline =
  fixes rank :: "'m \<Rightarrow> nat" and recursive :: "'m \<Rightarrow> bool"
    and program :: "'t \<Rightarrow> 'm lock_op list" and allowed :: "'t \<Rightarrow> bool"
  assumes allowed_obeys: "allowed t \<Longrightarrow> obeys rank recursive [] (program t)"
begin

definition good :: "nat \<Rightarrow> 'm lock_state \<Rightarrow> bool" where
  "good n s = (lock_inv rank recursive s \<and> (\<forall>i\<ge>n. todo s i = []))"

lemma good_start: "list_all allowed ts \<Longrightarrow> good (length ts) (lock_start (programs_of program ts))"
  by (simp add: good_def lock_inv_def lock_start_def programs_of_def list_all_length allowed_obeys)

lemma step_thread: "good n s \<Longrightarrow> lock_step recursive s i t \<Longrightarrow> i < n"
  using lock_step_shorter [of recursive s i t] by (fastforce simp: good_def not_less [symmetric])

lemma good_step:
  assumes "good n s" and "lock_step recursive s i t"
  shows "good n t" and "ops_left n s = Suc (ops_left n t)"
proof -
  from lock_step_shorter [OF assms(2)] step_thread [OF assms] assms lock_inv_step
  show "good n t" by (metis good_def linorder_not_le)
  have "ops_left n s = length (todo s i) + (\<Sum>j\<in>{..<n} - {i}. length (todo s j))"
    and "ops_left n t = length (todo t i) + (\<Sum>j\<in>{..<n} - {i}. length (todo t j))"
    unfolding ops_left_def using step_thread [OF assms] by (simp_all add: sum.remove)
  then show "ops_left n s = Suc (ops_left n t)" using lock_step_shorter [OF assms(2)] by simp
qed

lemma good_runs:
  assumes "runs (lock_step recursive) s is t" and "good n s"
  shows "good n t \<and> ops_left n s = length is + ops_left n t"
  using assms by (induction rule: runs.induct) (auto dest: good_step)

lemma good_progress:
  assumes "good n s" and "todo s i \<noteq> []"
  shows "\<exists>j t. lock_step recursive s j t"
proof -
  have "{i. todo s i \<noteq> []} \<subseteq> {..<n}" using assms(1) by (auto simp: good_def not_less [symmetric])
  then have "finite {i. todo s i \<noteq> []}" by (rule finite_subset) simp
  with assms lock_inv_progress [of rank recursive s] show ?thesis by (auto simp: good_def deadlocked_def)
qed

lemma good_completes: "good n s \<Longrightarrow> \<exists>is t. runs (lock_step recursive) s is t \<and> (\<forall>i. todo t i = [])"
proof (induction "ops_left n s" arbitrary: s rule: less_induct)
  case less
  show ?case
  proof (cases "\<forall>i. todo s i = []")
    case False
    then obtain j u where u: "lock_step recursive s j u" using good_progress [OF less.prems] by blast
    then obtain "is" t where "runs (lock_step recursive) u is t" "\<forall>i. todo t i = []"
      using less.hyps [of u] good_step [OF less.prems u] by auto
    with runs_Cons [where step = "lock_step recursive", OF u] show ?thesis by blast
  qed blast
qed

lemma done_holds_nothing: "good n s \<Longrightarrow> todo s i = [] \<Longrightarrow> holding s i = []"
  by (metis good_def lock_inv_def obeys.simps(1))

lemma mutual_exclusion:
  "list_all allowed ts \<Longrightarrow> runs (lock_step recursive) (lock_start (programs_of program ts)) is s \<Longrightarrow>
    m \<in> set (holding s i) \<Longrightarrow> m \<in> set (holding s j) \<Longrightarrow> i = j"
  using good_runs [OF _ good_start] unfolding good_def lock_inv_def by blast

text \<open>Whatever the schedule has been so far, the threads can all still finish, and they hold nothing then.\<close>

lemma never_deadlocked:
  assumes "list_all allowed ts" and "runs (lock_step recursive) (lock_start (programs_of program ts)) is s"
  shows "\<not> deadlocked recursive s \<and>
    (\<exists>js t. runs (lock_step recursive) s js t \<and> (\<forall>i. todo t i = [] \<and> holding t i = []) \<and>
      length is + length js = (\<Sum>t\<leftarrow>ts. length (program t)))"
proof -
  let ?n = "length ts"
  have s: "good ?n s" "(\<Sum>t\<leftarrow>ts. length (program t)) = length is + ops_left ?n s"
    using good_runs [OF assms(2) good_start [OF assms(1)]] by auto
  obtain js t where t: "runs (lock_step recursive) s js t" "\<forall>i. todo t i = []"
    using good_completes [OF s(1)] by blast
  moreover have "ops_left ?n s = length js + ops_left ?n t" "good ?n t" using good_runs [OF t(1) s(1)] by auto
  ultimately have "(\<forall>i. todo t i = [] \<and> holding t i = []) \<and> length is + length js = (\<Sum>t\<leftarrow>ts. length (program t))"
    using s(2) done_holds_nothing by (auto simp: ops_left_def)
  with t(1) good_progress [OF s(1)] show ?thesis by (auto simp: deadlocked_def)
qed

end

end
