(* ===== verification/Library_Locks.thy ===== *)
theory Library_Locks
  imports Lock_Order
begin

text \<open>
  The mutexes of the library and the order in which its member functions take them: for every
  function, on each of its paths, the sequence of its lock operations. Parameters say which path is
  taken: how often a loop turns, whether a refill or a pop is reached before an exception leaves the
  function. A lock guard releases its mutex on every way out of its scope. The functions that are not
  listed here (stopReads, createEventfdOnCondition, all of UdpDatagram, whose mutex is never
  used, ListenerBase and Utils) take no mutex.
\<close>

section \<open>The mutexes\<close>

text \<open>
  The members \<open>buffer_event_handlers_mtx\<close> and \<open>received_data_per_condition_mtx\<close> of a
  ConditionalBufferedStream, \<open>buffer_lock\<close> of a BufferedStream, and the two of a Stream. The stream
  objects that are members of one another share a number.
\<close>

datatype mutex =
  Handlers_Mtx nat | Received_Mtx nat | Buffer_Lock nat | Read_Mtx nat | Write_Mtx nat

fun recursive_mutex :: "mutex \<Rightarrow> bool" where
  "recursive_mutex (Read_Mtx x) = False"
| "recursive_mutex (Write_Mtx x) = False"
| "recursive_mutex m = True"

text \<open>The scope of a lock guard, and a loop whose body takes locks.\<close>

definition guard :: "mutex \<Rightarrow> mutex lock_op list \<Rightarrow> mutex lock_op list" where
  "guard m ops = Lock m # ops @ [Unlock m]"

definition rounds :: "nat \<Rightarrow> mutex lock_op list \<Rightarrow> mutex lock_op list" where
  "rounds n ops = concat (replicate n ops)"

section \<open>Stream\<close>

text \<open>\<open>a = std::move(b)\<close> takes both mutexes of both streams, those of \<open>a\<close> first.\<close>

definition Stream_assign_locks :: "nat \<Rightarrow> nat \<Rightarrow> mutex lock_op list" where
  "Stream_assign_locks a b =
     guard (Write_Mtx a) (guard (Read_Mtx a) (guard (Write_Mtx b) (guard (Read_Mtx b) [])))"

text \<open>The move constructor takes those of its source, in the other order.\<close>

definition Stream_move_locks :: "nat \<Rightarrow> mutex lock_op list" where
  "Stream_move_locks src = guard (Read_Mtx src) (guard (Write_Mtx src) [])"

text \<open>Each round of the loop, and each attempt of a write, has a guard of its own.\<close>

definition Stream_read_locks :: "nat \<Rightarrow> nat \<Rightarrow> mutex lock_op list" where
  "Stream_read_locks x n = rounds n (guard (Read_Mtx x) [])"

definition Stream_write_locks :: "nat \<Rightarrow> nat \<Rightarrow> mutex lock_op list" where
  "Stream_write_locks x n = rounds n (guard (Write_Mtx x) [])"

section \<open>BufferedStream\<close>

definition PopFromBuffer_locks :: "nat \<Rightarrow> mutex lock_op list" where
  "PopFromBuffer_locks x = guard (Buffer_Lock x) []"

definition readAvailable_locks :: "nat \<Rightarrow> nat \<Rightarrow> mutex lock_op list" where
  "readAvailable_locks x n = guard (Buffer_Lock x) (Stream_read_locks x n)"

text \<open>
  \<open>read(n)\<close> refills and pops, but holds \<open>buffer_lock\<close> only within each of these: \<open>ns\<close> are the rounds
  of the refills, \<open>pops\<close> is false when one of them throws.
\<close>

definition BufferedStream_read_locks :: "nat \<Rightarrow> nat list \<Rightarrow> bool \<Rightarrow> mutex lock_op list" where
  "BufferedStream_read_locks x ns pops =
     concat (map (readAvailable_locks x) ns) @ (if pops then PopFromBuffer_locks x else [])"

definition BufferedStream_read_into_locks :: "nat \<Rightarrow> nat list \<Rightarrow> bool \<Rightarrow> mutex lock_op list" where
  "BufferedStream_read_into_locks x ns pops =
     guard (Buffer_Lock x) (concat (map (readAvailable_locks x) ns) @ (if pops then PopFromBuffer_locks x else []))"

text \<open>It reads from the stream into the buffer without taking \<open>buffer_lock\<close>.\<close>

definition readUntilDelimiter_locks :: "nat \<Rightarrow> nat list \<Rightarrow> mutex lock_op list" where
  "readUntilDelimiter_locks x ns = concat (map (Stream_read_locks x) ns)"

section \<open>ConditionalBufferedStream\<close>

definition ConditionalBufferedStream_read_locks :: "nat \<Rightarrow> mutex lock_op list" where
  "ConditionalBufferedStream_read_locks x = guard (Received_Mtx x) []"

definition readBlocking_locks :: "nat \<Rightarrow> bool \<Rightarrow> mutex lock_op list" where
  "readBlocking_locks x reads = (if reads then ConditionalBufferedStream_read_locks x else [])"

text \<open>
  Everything a client may call, the moves of streams included. A write of a BufferedStream or of a
  ConditionalBufferedStream is one of its stream, a move of a BufferedStream moves its stream.
\<close>

datatype library_call =
  Stream_Assign nat nat
| Stream_Move nat
| Stream_Read nat nat
| Stream_Write nat nat
| Buffered_Pop nat
| Buffered_Refill nat nat
| Buffered_Read nat "nat list" bool
| Buffered_Read_Into nat "nat list" bool
| Buffered_Until_Delimiter nat "nat list"
| Conditional_Read nat
| Conditional_Read_Blocking nat bool

fun call_locks :: "library_call \<Rightarrow> mutex lock_op list" where
  "call_locks (Stream_Assign a b) = Stream_assign_locks a b"
| "call_locks (Stream_Move x) = Stream_move_locks x"
| "call_locks (Stream_Read x n) = Stream_read_locks x n"
| "call_locks (Stream_Write x n) = Stream_write_locks x n"
| "call_locks (Buffered_Pop x) = PopFromBuffer_locks x"
| "call_locks (Buffered_Refill x n) = readAvailable_locks x n"
| "call_locks (Buffered_Read x ns pops) = BufferedStream_read_locks x ns pops"
| "call_locks (Buffered_Read_Into x ns pops) = BufferedStream_read_into_locks x ns pops"
| "call_locks (Buffered_Until_Delimiter x ns) = readUntilDelimiter_locks x ns"
| "call_locks (Conditional_Read x) = ConditionalBufferedStream_read_locks x"
| "call_locks (Conditional_Read_Blocking x reads) = readBlocking_locks x reads"

definition calls_locks :: "library_call list \<Rightarrow> mutex lock_op list" where
  "calls_locks cs = concat (map call_locks cs)"

text \<open>
  The handler loop of the worker. Conditions are the client's, they may call the library while
  \<open>buffer_event_handlers_mtx\<close> is held: each handler of the loop has the calls of its condition, and,
  when it matches, the pop, with the recursive call after it unless that has nothing to do or an
  exception comes first.
\<close>

datatype handler_locks = Unmatched "library_call list" | Matched "library_call list" "handler_locks list option"

fun handler_loop_locks :: "nat \<Rightarrow> handler_locks list \<Rightarrow> mutex lock_op list" and
    handler_turn_locks :: "nat \<Rightarrow> handler_locks \<Rightarrow> mutex lock_op list" where
  "handler_loop_locks x [] = []"
| "handler_loop_locks x (h # hs) = handler_turn_locks x h @ handler_loop_locks x hs"
| "handler_turn_locks x (Unmatched cs) = calls_locks cs"
| "handler_turn_locks x (Matched cs nested) =
     calls_locks cs @ guard (Received_Mtx x) (PopFromBuffer_locks x) @
     (case nested of None \<Rightarrow> [] | Some hs \<Rightarrow> guard (Handlers_Mtx x) (handler_loop_locks x hs))"

definition processDataSendSignals_locks :: "nat \<Rightarrow> handler_locks list option \<Rightarrow> mutex lock_op list" where
  "processDataSendSignals_locks x hs =
     (case hs of None \<Rightarrow> [] | Some hs \<Rightarrow> guard (Handlers_Mtx x) (handler_loop_locks x hs))"

text \<open>
  The worker: rounds of a refill and, if it returned, the loop over the handlers; in the end, unless it
  was stopped, the notification of the handlers.
\<close>

definition worker_locks :: "nat \<Rightarrow> (nat \<times> handler_locks list option) list \<Rightarrow> bool \<Rightarrow> mutex lock_op list" where
  "worker_locks x rs notifies =
     concat (map (\<lambda>(n, hs). readAvailable_locks x n @ processDataSendSignals_locks x hs) rs) @
     (if notifies then guard (Handlers_Mtx x) [] else [])"

section \<open>Threads\<close>

datatype thread =
  Client "library_call list"
| Worker nat "(nat \<times> handler_locks list option) list" bool

fun thread_locks :: "thread \<Rightarrow> mutex lock_op list" where
  "thread_locks (Client cs) = calls_locks cs"
| "thread_locks (Worker x rs notifies) = worker_locks x rs notifies"

fun handler_calls :: "handler_locks \<Rightarrow> library_call list" where
  "handler_calls (Unmatched cs) = cs"
| "handler_calls (Matched cs None) = cs"
| "handler_calls (Matched cs (Some hs)) = cs @ concat (map handler_calls hs)"

fun thread_calls :: "thread \<Rightarrow> library_call list" where
  "thread_calls (Client cs) = cs"
| "thread_calls (Worker x rs notifies) = concat (map (\<lambda>(n, hs). case hs of None \<Rightarrow> [] | Some hs \<Rightarrow> concat (map handler_calls hs)) rs)"

text \<open>An order on the mutexes, and the calls that keep to it: only the moves are in question.\<close>

definition layered :: "(mutex \<Rightarrow> nat) \<Rightarrow> bool" where
  "layered rank = (\<forall>x. rank (Handlers_Mtx x) = 0 \<and> rank (Received_Mtx x) = 1 \<and> rank (Buffer_Lock x) = 2 \<and>
     2 < rank (Read_Mtx x) \<and> 2 < rank (Write_Mtx x))"

lemma layered_rank [simp]:
  assumes "layered rank"
  shows "rank (Handlers_Mtx x) = 0" and "rank (Received_Mtx x) = Suc 0" and "rank (Buffer_Lock x) = 2"
    and "0 < rank (Read_Mtx x)" and "Suc 0 < rank (Read_Mtx x)" and "2 < rank (Read_Mtx x)"
    and "0 < rank (Write_Mtx x)" and "Suc 0 < rank (Write_Mtx x)" and "2 < rank (Write_Mtx x)"
proof -
  have "2 < rank (Read_Mtx x)" "2 < rank (Write_Mtx x)" using assms by (auto simp: layered_def)
  then show "0 < rank (Read_Mtx x)" "Suc 0 < rank (Read_Mtx x)" "2 < rank (Read_Mtx x)"
    "0 < rank (Write_Mtx x)" "Suc 0 < rank (Write_Mtx x)" "2 < rank (Write_Mtx x)" by linarith+
qed (use assms in \<open>simp_all add: layered_def\<close>)

fun keeps_order :: "(mutex \<Rightarrow> nat) \<Rightarrow> library_call \<Rightarrow> bool" where
  "keeps_order rank (Stream_Assign a b) =
     (rank (Write_Mtx a) < rank (Read_Mtx a) \<and> rank (Read_Mtx a) < rank (Write_Mtx b) \<and> rank (Write_Mtx b) < rank (Read_Mtx b))"
| "keeps_order rank (Stream_Move x) = (rank (Read_Mtx x) < rank (Write_Mtx x))"
| "keeps_order rank _ = True"

section \<open>Every call is a block\<close>

abbreviation lock_block :: "(mutex \<Rightarrow> nat) \<Rightarrow> mutex list \<Rightarrow> mutex lock_op list \<Rightarrow> bool" where
  "lock_block rank ms ops \<equiv> block rank recursive_mutex ms ops"

lemma rounds_block [intro]: "lock_block rank ms ops \<Longrightarrow> lock_block rank ms (rounds n ops)"
  unfolding rounds_def by (rule block_concat) auto

lemma guard_block [intro]:
  "m \<in> set ms \<and> recursive_mutex m \<or> (\<forall>n \<in> set ms. rank n < rank m) \<Longrightarrow> lock_block rank (m # ms) ops \<Longrightarrow>
    lock_block rank ms (guard m ops)"
  unfolding guard_def by (rule block_guard)

lemma Stream_read_block: "\<forall>n \<in> set ms. rank n < rank (Read_Mtx x) \<Longrightarrow> lock_block rank ms (Stream_read_locks x n)"
  unfolding Stream_read_locks_def by auto

lemma Stream_write_block: "\<forall>n \<in> set ms. rank n < rank (Write_Mtx x) \<Longrightarrow> lock_block rank ms (Stream_write_locks x n)"
  unfolding Stream_write_locks_def by auto

lemma pop_block: "Buffer_Lock x \<in> set ms \<or> (\<forall>n \<in> set ms. rank n < rank (Buffer_Lock x)) \<Longrightarrow>
    lock_block rank ms (PopFromBuffer_locks x)"
  unfolding PopFromBuffer_locks_def by auto

lemma refill_block: "Buffer_Lock x \<in> set ms \<or> (\<forall>n \<in> set ms. rank n < rank (Buffer_Lock x)) \<Longrightarrow>
    \<forall>n \<in> set (Buffer_Lock x # ms). rank n < rank (Read_Mtx x) \<Longrightarrow>
    lock_block rank ms (readAvailable_locks x n)"
  unfolding readAvailable_locks_def by (auto intro!: guard_block Stream_read_block)

lemma refills_block: "Buffer_Lock x \<in> set ms \<or> (\<forall>n \<in> set ms. rank n < rank (Buffer_Lock x)) \<Longrightarrow>
    \<forall>n \<in> set (Buffer_Lock x # ms). rank n < rank (Read_Mtx x) \<Longrightarrow>
    lock_block rank ms (concat (map (readAvailable_locks x) ns) @ (if pops then PopFromBuffer_locks x else []))"
  by (auto intro!: block_append block_concat refill_block pop_block)

text \<open>A call, while nothing is held but mutexes of the handlers, as in a condition.\<close>

lemma call_block:
  assumes "layered rank" and "keeps_order rank c" and "\<forall>n \<in> set ms. rank n = 0"
  shows "lock_block rank ms (call_locks c)"
proof -
  have low: "rank n < rank (Read_Mtx x)" "rank n < rank (Write_Mtx x)" if "n \<in> set ms" for n x
    using assms(1,3) that by simp_all
  show ?thesis
    using assms
    by (cases c)
      (auto simp: Stream_assign_locks_def Stream_move_locks_def BufferedStream_read_locks_def
        BufferedStream_read_into_locks_def readUntilDelimiter_locks_def readBlocking_locks_def
        ConditionalBufferedStream_read_locks_def dest: low
        intro!: guard_block Stream_read_block Stream_write_block pop_block refill_block refills_block block_append block_concat)
qed

lemma calls_block:
  assumes "layered rank" and "list_all (keeps_order rank) cs" and "\<forall>n \<in> set ms. rank n = 0"
  shows "lock_block rank ms (calls_locks cs)"
  unfolding calls_locks_def using assms by (intro block_concat) (auto simp: list_all_iff intro: call_block)

text \<open>The loop runs with \<open>buffer_event_handlers_mtx\<close> held, once more for each recursive call it is in.\<close>

lemma handlers_block:
  assumes "layered rank"
  shows "list_all (keeps_order rank) (concat (map handler_calls hs)) \<Longrightarrow> set ms \<subseteq> {Handlers_Mtx x} \<Longrightarrow>
      lock_block rank ms (handler_loop_locks x hs)"
    and "list_all (keeps_order rank) (handler_calls h) \<Longrightarrow> set ms \<subseteq> {Handlers_Mtx x} \<Longrightarrow>
      lock_block rank ms (handler_turn_locks x h)"
proof (induction x hs and x h arbitrary: ms and ms rule: handler_loop_locks_handler_turn_locks.induct)
  case (4 x cs nested)
  have zero: "\<forall>n \<in> set ms. rank n = 0" using 4 assms by auto
  have calls: "lock_block rank ms (calls_locks cs)" using 4 assms zero by (cases nested) (auto intro: calls_block)
  have pop: "lock_block rank ms (guard (Received_Mtx x) (PopFromBuffer_locks x))"
    using assms zero by (auto intro!: guard_block pop_block)
  show ?case
  proof (cases nested)
    case None
    with calls pop show ?thesis by (auto intro: block_append)
  next
    case (Some hs)
    with 4 have "lock_block rank (Handlers_Mtx x # ms) (handler_loop_locks x hs)" by auto
    then have "lock_block rank ms (guard (Handlers_Mtx x) (handler_loop_locks x hs))"
      using 4 by (cases ms) (auto intro!: guard_block)
    with Some calls pop show ?thesis by (auto intro: block_append)
  qed
qed (use assms in \<open>auto intro!: block_append calls_block\<close>)

lemma worker_block:
  assumes "layered rank" and "list_all (keeps_order rank) (thread_calls (Worker x rs notifies))"
  shows "lock_block rank [] (worker_locks x rs notifies)"
proof -
  have "lock_block rank [] (readAvailable_locks x n @ processDataSendSignals_locks x hs)" if "(n, hs) \<in> set rs" for n hs
  proof -
    have "list_all (keeps_order rank) (concat (map handler_calls hs'))" if "hs = Some hs'" for hs'
      using assms(2) that \<open>(n, hs) \<in> set rs\<close> by (fastforce simp: list_all_iff)
    with assms(1) show ?thesis
      by (auto simp: processDataSendSignals_locks_def split: option.split
          intro!: block_append refill_block guard_block handlers_block(1))
  qed
  then show ?thesis unfolding worker_locks_def by (intro block_append block_concat) (auto intro!: guard_block)
qed

lemma thread_obeys:
  "layered rank \<Longrightarrow> list_all (keeps_order rank) (thread_calls t) \<Longrightarrow> obeys rank recursive_mutex [] (thread_locks t)"
  by (cases t) (simp_all del: thread_calls.simps add: block_obeys worker_block calls_block thread_calls.simps(1))

section \<open>The library as a whole\<close>

text \<open>The order of the layers, with the read mutex of a stream before its write mutex.\<close>

fun layer :: "mutex \<Rightarrow> nat" where
  "layer (Handlers_Mtx x) = 0"
| "layer (Received_Mtx x) = 1"
| "layer (Buffer_Lock x) = 2"
| "layer (Read_Mtx x) = 3"
| "layer (Write_Mtx x) = 4"

fun is_assignment :: "library_call \<Rightarrow> bool" where
  "is_assignment (Stream_Assign a b) = True"
| "is_assignment _ = False"

definition no_assignments :: "thread \<Rightarrow> bool" where
  "no_assignments t = list_all (\<lambda>c. \<not> is_assignment c) (thread_calls t)"

lemma layer_layered: "layered layer"
  by (simp add: layered_def)

lemma layer_keeps_order: "\<not> is_assignment c \<Longrightarrow> keeps_order layer c"
  by (cases c) simp_all

interpretation unassigned: lock_discipline layer recursive_mutex thread_locks no_assignments
proof unfold_locales
  fix t assume "no_assignments t"
  then show "obeys layer recursive_mutex [] (thread_locks t)"
    unfolding no_assignments_def by (intro thread_obeys layer_layered) (auto simp: list_all_iff layer_keeps_order)
qed

text \<open>
  The order that allows assignments: by the number of the stream, the write mutex first. Then an
  assignment must go to a stream from one of a higher number, and no stream may be moved from by the
  constructor, which takes the read mutex first.
\<close>

fun stream_order :: "mutex \<Rightarrow> nat" where
  "stream_order (Handlers_Mtx x) = 0"
| "stream_order (Received_Mtx x) = 1"
| "stream_order (Buffer_Lock x) = 2"
| "stream_order (Write_Mtx x) = 2 * x + 3"
| "stream_order (Read_Mtx x) = 2 * x + 4"

fun assigns_upwards :: "library_call \<Rightarrow> bool" where
  "assigns_upwards (Stream_Assign a b) = (a < b)"
| "assigns_upwards (Stream_Move x) = False"
| "assigns_upwards _ = True"

definition ordered_assignments :: "thread \<Rightarrow> bool" where
  "ordered_assignments t = list_all assigns_upwards (thread_calls t)"

lemma stream_order_layered: "layered stream_order"
  by (simp add: layered_def)

lemma upwards_keeps_order: "assigns_upwards c \<Longrightarrow> keeps_order stream_order c"
  by (cases c) simp_all

interpretation assigned: lock_discipline stream_order recursive_mutex thread_locks ordered_assignments
proof unfold_locales
  fix t assume "ordered_assignments t"
  then show "obeys stream_order recursive_mutex [] (thread_locks t)"
    unfolding ordered_assignments_def
    by (intro thread_obeys stream_order_layered) (auto simp: list_all_iff upwards_keeps_order)
qed


definition demo_threads :: "thread list" where
  "demo_threads =
     [Worker 0 [(1, Some [Matched [Stream_Write 0 1] (Some [Unmatched []])]), (1, None)] True,
      Client [Conditional_Read_Blocking 0 True, Stream_Move 0]]"


text \<open>
  Assignments in one direction do not deadlock either: if every \<open>Stream::operator=\<close> moves to a
  stream from one of a higher number, in some numbering of the streams, and no stream is moved from
  by the move constructor meanwhile, then again the threads are never deadlocked and can all finish.
\<close>

theorem ordered_assignments_never_deadlock:
  assumes "list_all ordered_assignments ts"
    and "runs (lock_step recursive_mutex) (lock_start (programs_of thread_locks ts)) is s"
  shows "\<not> deadlocked recursive_mutex s \<and>
    (\<exists>js t. runs (lock_step recursive_mutex) s js t \<and> (\<forall>i. todo t i = [] \<and> holding t i = []) \<and>
      length is + length js = (\<Sum>t\<leftarrow>ts. length (thread_locks t)))"
  using assms by (rule assigned.never_deadlocked)

lemma ordered_assignments_never_deadlock_witness:
  "\<exists>s. lock_step recursive_mutex (lock_start (programs_of thread_locks [Client [Stream_Assign 0 1], Client [Stream_Assign 1 2]])) 1 s \<and>
     \<not> deadlocked recursive_mutex s"
proof -
  let ?ts = "[Client [Stream_Assign 0 1], Client [Stream_Assign 1 2]]"
  have ok: "list_all ordered_assignments ?ts" by code_simp
  have "\<exists>s. lock_step recursive_mutex (lock_start (programs_of thread_locks ?ts)) 1 s"
    by (rule exI, rule acquire [where m = "Write_Mtx 1"])
      (auto simp: lock_start_def programs_of_def calls_locks_def Stream_assign_locks_def guard_def)
  then obtain s where "lock_step recursive_mutex (lock_start (programs_of thread_locks ?ts)) 1 s" by blast
  with ordered_assignments_never_deadlock [OF ok runs_single] show ?thesis by blast
qed

section \<open>Moves that cross\<close>

text \<open>A thread that is at a mutex that it may not take, and one that is done, cannot step.\<close>

definition stuck :: "mutex lock_state \<Rightarrow> nat \<Rightarrow> bool" where
  "stuck s i = (case todo s i of [] \<Rightarrow> True | Unlock m # ops \<Rightarrow> False
     | Lock m # ops \<Rightarrow> (\<exists>j. j \<noteq> i \<and> m \<in> set (holding s j)) \<or> m \<in> set (holding s i) \<and> \<not> recursive_mutex m)"

lemma stuck_no_step: "stuck s i \<Longrightarrow> \<not> lock_step recursive_mutex s i t"
  by (auto elim!: lock_step.cases simp: stuck_def)

text \<open>A thread takes a number of free mutexes, one after the other.\<close>

lemma takes_mutexes:
  assumes "todo s i = map Lock ms @ ops" and "distinct ms" and "\<And>j. set ms \<inter> set (holding s j) = {}"
  shows "\<exists>is. runs (lock_step recursive_mutex) s is
    (s\<lparr>todo := (todo s)(i := ops), holding := (holding s)(i := rev ms @ holding s i)\<rparr>)"
  using assms
proof (induction ms arbitrary: s)
  case Nil
  then have "s\<lparr>todo := (todo s)(i := ops), holding := (holding s)(i := rev [] @ holding s i)\<rparr> = s" by (cases s) auto
  then show ?case by (metis runs_Nil)
next
  case (Cons m ms)
  let ?t = "s\<lparr>todo := (todo s)(i := map Lock ms @ ops), holding := (holding s)(i := m # holding s i)\<rparr>"
  have "lock_step recursive_mutex s i ?t" using Cons.prems by (intro acquire) auto
  moreover have "\<exists>is. runs (lock_step recursive_mutex) ?t is
      (?t\<lparr>todo := (todo ?t)(i := ops), holding := (holding ?t)(i := rev ms @ holding ?t i)\<rparr>)"
    using Cons.prems by (intro Cons.IH) auto
  then obtain "is" where "runs (lock_step recursive_mutex) ?t is
      (s\<lparr>todo := (todo s)(i := ops), holding := (holding s)(i := rev (m # ms) @ holding s i)\<rparr>)"
    by auto
  ultimately show ?case by (blast intro: runs_Cons [where step = "lock_step recursive_mutex"])
qed

definition may_deadlock :: "thread list \<Rightarrow> bool" where
  "may_deadlock ts = (\<exists>is s. runs (lock_step recursive_mutex) (lock_start (programs_of thread_locks ts)) is s \<and>
     deadlocked recursive_mutex s)"

text \<open>Two threads that each take what the other will wait for; and one that waits for itself.\<close>

lemma crossing_deadlocks:
  assumes "thread_locks a = map Lock ms @ Lock m # as" and "thread_locks b = map Lock ns @ Lock n # bs"
    and "distinct (ms @ ns)" and "m \<in> set ns" and "n \<in> set ms"
  shows "may_deadlock [a, b]"
proof -
  let ?start = "lock_start (programs_of thread_locks [a, b])"
  let ?u = "\<lparr>todo = (programs_of thread_locks [a, b])(0 := Lock m # as), holding = (\<lambda>_. [])(0 := rev ms)\<rparr>"
  let ?v = "\<lparr>todo = (programs_of thread_locks [a, b])(0 := Lock m # as, 1 := Lock n # bs),
    holding = (\<lambda>_. [])(0 := rev ms, 1 := rev ns)\<rparr>"
  have "\<exists>is. runs (lock_step recursive_mutex) ?start is ?u"
    using takes_mutexes [of ?start 0 ms "Lock m # as"] assms by (simp add: lock_start_def programs_of_def)
  moreover have free: "set ns \<inter> set (holding ?u j) = {}" for j using assms(3) by auto
  have "\<exists>is. runs (lock_step recursive_mutex) ?u is ?v"
    using takes_mutexes [of ?u 1 ns "Lock n # bs"] free assms by (simp add: programs_of_def)
  ultimately have "\<exists>is. runs (lock_step recursive_mutex) ?start is ?v"
    using runs_append [where step = "lock_step recursive_mutex"] by blast
  moreover have "stuck ?v i" for i
    using assms(4,5) by (auto simp: stuck_def programs_of_def split: nat.splits)
  then have "deadlocked recursive_mutex ?v"
    unfolding deadlocked_def by (auto intro!: exI [of _ 0] dest: stuck_no_step)
  ultimately show ?thesis unfolding may_deadlock_def by blast
qed

lemma self_deadlocks:
  assumes "thread_locks a = map Lock ms @ Lock m # as" and "distinct ms" and "m \<in> set ms" and "\<not> recursive_mutex m"
  shows "may_deadlock [a]"
proof -
  let ?start = "lock_start (programs_of thread_locks [a])"
  let ?u = "\<lparr>todo = (programs_of thread_locks [a])(0 := Lock m # as), holding = (\<lambda>_. [])(0 := rev ms)\<rparr>"
  have "\<exists>is. runs (lock_step recursive_mutex) ?start is ?u"
    using takes_mutexes [of ?start 0 ms "Lock m # as"] assms by (simp add: lock_start_def programs_of_def)
  moreover have "stuck ?u i" for i
    using assms(3,4) by (auto simp: stuck_def programs_of_def)
  then have "deadlocked recursive_mutex ?u"
    unfolding deadlocked_def by (auto intro!: exI [of _ 0] dest: stuck_no_step)
  ultimately show ?thesis unfolding may_deadlock_def by blast
qed

text \<open>
  C22: The moves of streams do not keep to one order, and can deadlock: (1) two threads that assign
  two different streams to one another, (2) a thread that constructs a stream from one that another
  thread assigns to or from, (3) one thread that assigns a stream to itself.
\<close>

theorem crossing_moves_deadlock:
  assumes "x \<noteq> y"
  shows "may_deadlock [Client [Stream_Assign x y], Client [Stream_Assign y x]] \<and>
    may_deadlock [Client [Stream_Move x], Client [Stream_Assign x y]] \<and>
    may_deadlock [Client [Stream_Move x], Client [Stream_Assign y x]] \<and>
    may_deadlock [Client [Stream_Assign x x]]"
proof (intro conjI)
  show "may_deadlock [Client [Stream_Assign x y], Client [Stream_Assign y x]]"
    by (rule crossing_deadlocks [where ms = "[Write_Mtx x, Read_Mtx x]" and ns = "[Write_Mtx y, Read_Mtx y]"])
      (use assms in \<open>simp_all add: calls_locks_def Stream_assign_locks_def guard_def\<close>, simp_all)
  show "may_deadlock [Client [Stream_Move x], Client [Stream_Assign x y]]"
    by (rule crossing_deadlocks [where ms = "[Read_Mtx x]" and ns = "[Write_Mtx x]"])
      (simp_all add: calls_locks_def Stream_assign_locks_def Stream_move_locks_def guard_def)
  show "may_deadlock [Client [Stream_Move x], Client [Stream_Assign y x]]"
    by (rule crossing_deadlocks [where ms = "[Read_Mtx x]" and ns = "[Write_Mtx y, Read_Mtx y, Write_Mtx x]"])
      (use assms in \<open>simp_all add: calls_locks_def Stream_assign_locks_def Stream_move_locks_def guard_def\<close>, simp_all)
  show "may_deadlock [Client [Stream_Assign x x]]"
    by (rule self_deadlocks [where ms = "[Write_Mtx x, Read_Mtx x]"])
      (auto simp: calls_locks_def Stream_assign_locks_def guard_def)
qed

lemma crossing_moves_deadlock_witness:
  "may_deadlock [Client [Stream_Assign 0 1], Client [Stream_Assign 1 0]]"
  using crossing_moves_deadlock [of 0 1] by simp

end
