(* ===== verification/Descriptor_Use.thy ===== *)
theory Descriptor_Use
  imports Stream_Model
begin

text \<open>
  What constructors that throw leave behind, and the contract every class with a stop descriptor
  shares: \<open>Stream\<close>, \<open>ListenerBase\<close>, \<open>Listener\<close> and \<open>UdpDatagram\<close> all post
  \<open>uint16_t\<close>'s largest value on an \<open>eventfd\<close> that their blocking functions poll.
\<close>

section \<open>Actions that close nothing\<close>

fun is_close_event :: "event \<Rightarrow> bool" where
  "is_close_event (Ev_Close _ _) = True"
| "is_close_event _ = False"

definition never_closes :: "(process, error, 'a) action \<Rightarrow> bool" where
  "never_closes m = (\<forall>p. \<exists>evs. history (snd (m p)) = history p @ evs \<and> list_all (\<lambda>e. \<not> is_close_event e) evs)"

lemma never_closes_ret [intro]: "never_closes (ret x)"
  by (auto simp: never_closes_def)

lemma never_closes_throw [intro]: "never_closes (throw e)"
  by (auto simp: never_closes_def)

lemma never_closes_bind [intro]:
  assumes "never_closes m" and "\<And>x. never_closes (f x)"
  shows "never_closes (bindA m f)"
  unfolding never_closes_def
proof
  fix p
  from assms(1) obtain evs where m: "history (snd (m p)) = history p @ evs"
    "list_all (\<lambda>e. \<not> is_close_event e) evs" unfolding never_closes_def by blast
  show "\<exists>evs. history (snd (bindA m f p)) = history p @ evs \<and> list_all (\<lambda>e. \<not> is_close_event e) evs"
  proof (cases "m p")
    case (Pair r q)
    show ?thesis
    proof (cases r)
      case (Inr x)
      from assms(2) [of x] obtain evs' where "history (snd (f x q)) = history q @ evs'"
        "list_all (\<lambda>e. \<not> is_close_event e) evs'" unfolding never_closes_def by blast
      with m Pair Inr show ?thesis by (intro exI [of _ "evs @ evs'"]) simp
    qed (use m Pair in \<open>auto simp: bindA_def\<close>)
  qed
qed

lemma never_closes_call:
  assumes "\<And>p. \<exists>ev a. c p = syscall ev (a p) p \<and> (\<forall>x. \<not> is_close_event (ev x))"
  shows "never_closes (throw_errno t c)" and "never_closes (ignore_result c)"
proof -
  have "\<exists>evs. history (snd (c p)) = history p @ evs \<and> list_all (\<lambda>e. \<not> is_close_event e) evs" for p
  proof -
    from assms [of p] obtain ev a where "c p = syscall ev (a p) p" "\<forall>x. \<not> is_close_event (ev x)"
      by blast
    then show ?thesis by (intro exI [of _ "[ev (a p)]"]) (simp add: syscall_history)
  qed
  then show "never_closes (throw_errno t c)" and "never_closes (ignore_result c)"
    by (simp_all add: never_closes_def throw_errno_def ignore_result_def split: prod.split option.split)
      (metis snd_conv)
qed

lemma never_closes_calls [intro]:
  "never_closes (throw_errno t (sys_socket k f ty pr))" "never_closes (throw_errno t (sys_setsockopt k d opt))"
  "never_closes (throw_errno t (sys_bind k d a))" "never_closes (throw_errno t (sys_listen k d n))"
  "never_closes (throw_errno t (sys_connect k d a))" "never_closes (throw_errno t (sys_socketpair k f ty pr))"
  "never_closes (ignore_result (sys_setsockopt k d opt))"
  by (rule never_closes_call; unfold syscall_defs; fastforce)+

lemma never_closes_if [intro]: "never_closes m \<Longrightarrow> never_closes n \<Longrightarrow> never_closes (if b then m else n)"
  by simp

lemma never_closes_eventfd [intro]:
  "never_closes (\<lambda>p. case sys_eventfd k p of (None, q) \<Rightarrow> (Inl e, q) | (Some d, q) \<Rightarrow> (Inr (g d), q))"
  by (auto simp: never_closes_def sys_eventfd_def syscall_def split: sum.split)

lemmas never_closes_intros =
  never_closes_bind never_closes_calls never_closes_ret never_closes_throw never_closes_if
  never_closes_eventfd

text \<open>Whatever such an action opened is open when it ends.\<close>

lemma opened_stays_open:
  "list_all (\<lambda>e. \<not> is_close_event e) evs \<Longrightarrow> ev \<in> set evs \<Longrightarrow> d \<in> set (event_fds ev) \<Longrightarrow>
     d \<in> open_fds (h @ evs)"
proof (induction evs rule: rev_induct)
  case (snoc e evs)
  have "open_fds (h @ evs @ [e]) = open_step (open_fds (h @ evs)) e"
    using open_fds_snoc [of "h @ evs" e] by simp
  moreover have "d \<in> open_step D e" if "d \<in> set (event_fds e)" for D
    using that by (cases "(D, e)" rule: open_step.cases) auto
  moreover have "D \<subseteq> open_step D e" for D
    using snoc.prems(1) by (cases "(D, e)" rule: open_step.cases) auto
  ultimately show ?case using snoc by auto
qed simp

definition leaks :: "process \<Rightarrow> process \<Rightarrow> bool" where
  "leaks p q = (\<exists>evs. history q = history p @ evs \<and>
     (\<forall>ev \<in> set evs. \<forall>d \<in> set (event_fds ev). d \<in> open_fds (history q)))"

lemma never_closes_leaks: "never_closes m \<Longrightarrow> m p = (r, q) \<Longrightarrow> leaks p q"
  unfolding never_closes_def leaks_def by (metis opened_stays_open snd_conv)

section \<open>Stop descriptors\<close>

locale stop_signal =
  fixes k :: kernel
    and end_fd :: "'o \<Rightarrow> fd"
    and stop :: "'o \<Rightarrow> process \<Rightarrow> process"
  assumes stop_posts: "eventfd_writable k \<Longrightarrow> efd_count (end_fd x) (history p) = Some n \<Longrightarrow>
    n < 2 ^ 64 - 2 ^ 16 \<Longrightarrow> efd_count (end_fd x) (history (stop x p)) = Some (n + 65535)"
begin

text \<open>Every later poll that includes the descriptor sees it, until someone reads it off.\<close>

lemma stop_seen:
  assumes "eventfd_writable k" and "poll_eventfd k" and "poll_reports k"
    and "efd_count (end_fd x) (history p) = Some n" and "0 \<le> n" and "n < 2 ^ 64 - 2 ^ 16"
    and "0 \<le> end_fd x" and "ds ! i = end_fd x" and "i < length ds"
    and "k_poll k (history (stop x p)) ds t = Inr rs"
  shows "revents rs i \<noteq> 0"
proof -
  have "efd_count (ds ! i) (history (stop x p)) = Some (n + 65535)"
    using stop_posts [OF assms(1,4,6)] assms(8) by simp
  from poll_eventfd_positive [OF assms(2,10,9) _ this] assms(3,5,7,8,9,10) show ?thesis
    by (simp add: revents_nth poll_reportsD(1))
qed

end

lemma post_stop_value:
  assumes "eventfd_writable k" and "efd_count d (history p) = Some n" and "n < 2 ^ 64 - 2 ^ 16"
  shows "sys_eventfd_write k d stop_semaphore_value p =
    (Some (), log_event (Ev_Eventfd_Write d stop_semaphore_value (Inr ())) p)"
proof -
  have "n + uint stop_semaphore_value < 2 ^ 64 - 1" using assms(3) by (simp add: stop_semaphore_value_def)
  with assms(1,2) have "k_eventfd_write k (history p) d stop_semaphore_value = Inr ()"
    unfolding eventfd_writable_def by blast
  then show ?thesis by (simp add: sys_eventfd_write_def)
qed

lemma post_stop_count:
  assumes "eventfd_writable k" and "efd_count d (history p) = Some n" and "n < 2 ^ 64 - 2 ^ 16"
  shows "efd_count d (history (snd (sys_eventfd_write k d stop_semaphore_value p))) = Some (n + 65535)"
  unfolding post_stop_value [OF assms] using assms(2) by (simp add: stop_semaphore_value_def)

interpretation stream_stop: stop_signal k stop_all_operations_event_fd "\<lambda>s p. snd (Stream_stopReads k s p)"
  for k
  by unfold_locales
    (simp add: Stream_stopReads_def ignore_result_def post_stop_count)

end
