(* ===== verification/Listener_Model.thy ===== *)
theory Listener_Model
  imports Descriptor_Use
begin

text \<open>
  \<open>class ListenerBase\<close> and \<open>class Listener\<close> (\<open>include/socket_wrapper/Listener.h\<close>,
  \<open>src/Listener.cpp\<close>): a listening TCP socket with the \<open>eventfd\<close> that ends the waiting for
  clients. \<open>ListenerBase\<close> hands its clients to the virtual function \<open>onIncomingStream\<close>, which is
  code of the derived class and a parameter here; \<open>Listener\<close> returns them from \<open>accept\<close>.
\<close>

section \<open>Construction\<close>

record Listener =
  listener_socket_fd :: fd
  listener_end_fd :: fd
  stopped_accepting :: bool

record ListenerBase = Listener +
  task_joinable :: bool

definition domain_of :: "IP_VERSION \<Rightarrow> address_family" where
  "domain_of version = (if version = IPv6 then AF_INET6 else AF_INET)"

text \<open>
  The address both constructors bind: any local address, and the low 16 bits of the port.
\<close>

definition listen_address :: "libc \<Rightarrow> int \<Rightarrow> IP_VERSION \<Rightarrow> sockaddr" where
  "listen_address l port version =
     (if version = IPv6 then Sockaddr_In6 0 (htons l (word_of_int port))
      else Sockaddr_In (htonl l 0) (htons l (word_of_int port)))"

definition allow_reuse :: "libc \<Rightarrow> kernel \<Rightarrow> fd \<Rightarrow> (process, error, unit) action" where
  "allow_reuse l k d =
     bindA (throw_errno SOCKET_SET_OPTION (sys_setsockopt k d (SO_REUSEADDR 1)))
       (\<lambda>_. if SO_REUSEPORT_defined l
          then throw_errno SOCKET_SET_OPTION (sys_setsockopt k d (SO_REUSEPORT 1))
          else ret ())"

definition ListenerBase_construct ::
    "libc \<Rightarrow> kernel \<Rightarrow> int \<Rightarrow> IP_VERSION \<Rightarrow> (process, error, ListenerBase) action" where
  "ListenerBase_construct l k port version p =
     (case sys_eventfd k p of
        (None, q) \<Rightarrow> (Inl (Runtime_Error ''Failed to create event_fd''), q)
      | (Some e, q) \<Rightarrow>
          bindA (throw_errno SOCKET_SOCKET (sys_socket k (domain_of version) SOCK_STREAM IPPROTO_TCP))
            (\<lambda>s. bindA (allow_reuse l k s)
            (\<lambda>_. bindA (throw_errno SOCKET_BIND (sys_bind k s (listen_address l port version)))
            (\<lambda>_. bindA (throw_errno SOCKET_LISTEN (sys_listen k s 5))
            (\<lambda>_. ret \<lparr>listener_socket_fd = s, listener_end_fd = e, stopped_accepting = False,
               task_joinable = False\<rparr>)))) q)"

text \<open>\<open>Listener\<close> does not check its \<open>eventfd\<close>: \<open>-1\<close> is kept.\<close>

definition Listener_construct ::
    "libc \<Rightarrow> kernel \<Rightarrow> int \<Rightarrow> IP_VERSION \<Rightarrow> bool \<Rightarrow> (process, error, Listener) action" where
  "Listener_construct l k port version reuse p =
     (let (r, q) = sys_eventfd k p; e = (case r of None \<Rightarrow> -1 | Some d \<Rightarrow> d)
      in bindA (throw_errno SOCKET_SOCKET (sys_socket k (domain_of version) SOCK_STREAM IPPROTO_TCP))
           (\<lambda>s. bindA (if reuse then allow_reuse l k s else ret ())
           (\<lambda>_. bindA (throw_errno SOCKET_BIND (sys_bind k s (listen_address l port version)))
           (\<lambda>_. bindA (throw_errno SOCKET_LISTEN (sys_listen k s 5))
           (\<lambda>_. ret \<lparr>listener_socket_fd = s, listener_end_fd = e, stopped_accepting = False\<rparr>)))) q)"

section \<open>Waiting for clients\<close>

text \<open>The two descriptors that are polled.\<close>

abbreviation listener_fds :: "('a) Listener_scheme \<Rightarrow> fd list" where
  "listener_fds x \<equiv> [listener_socket_fd x, listener_end_fd x]"

text \<open>\<open>Listener::accept(timeout)\<close>\<close>

definition Listener_accept :: "kernel \<Rightarrow> Listener \<Rightarrow> int \<Rightarrow> (process, error, Stream) action" where
  "Listener_accept k x timeout p =
     (case sys_poll k (listener_fds x) timeout p of
        (None, q) \<Rightarrow> (Inl (socket_exception SOCKET_POLL (errno q) (-1)), q)
      | (Some rs, q) \<Rightarrow>
          if revents rs 0 \<noteq> 0 then
            (case sys_accept k (listener_socket_fd x) q of
               (None, r) \<Rightarrow> (Inl (socket_exception SOCKET_ACCEPT (errno r) (-1)), r)
             | (Some d, r) \<Rightarrow> Stream_construct k d r)
          else if revents rs 1 \<noteq> 0 then
            (Inl (socket_exception SOCKET_TERMINATION_REQUEST (errno q) (-1)), q)
          else (Inl (socket_exception SOCKET_ACCEPT (errno q) (-1)), q))"

text \<open>
  The loop of \<open>handleIncomingStreams\<close>, which runs in its own thread. The callback works on its
  own state \<open>'u\<close> and on the process. A \<open>std::exception\<close> of the callback, or of the construction
  of the stream, is printed and dropped; what is not an exception ends the program. One round
  returns whether the loop is left; \<open>None\<close> is a loop that never ends.
\<close>

type_synonym 'u callback = "Stream \<Rightarrow> ('u \<times> process, error, unit) action"

definition swallow :: "(error + unit) \<times> 's \<Rightarrow> (error + bool) \<times> 's" where
  "swallow rs = (case rs of
      (Inl Terminate, s) \<Rightarrow> (Inl Terminate, s)
    | (Inl Undefined_Behaviour, s) \<Rightarrow> (Inl Undefined_Behaviour, s)
    | (_, s) \<Rightarrow> (Inr False, s))"

definition incoming_round ::
    "kernel \<Rightarrow> 'u callback \<Rightarrow> ListenerBase \<Rightarrow> ('u \<times> process, error, bool) action" where
  "incoming_round k onIncomingStream x up =
     (case sys_poll k (listener_fds x) (-1) (snd up) of
        (None, q) \<Rightarrow> (Inr False, (fst up, q))
      | (Some rs, q) \<Rightarrow>
          if revents rs 0 \<noteq> 0 then
            (case sys_accept k (listener_socket_fd x) q of
               (None, r) \<Rightarrow> (Inr False, (fst up, r))
             | (Some d, r) \<Rightarrow>
                 (case Stream_construct k d r of
                    (Inl e, v) \<Rightarrow> swallow (Inl e, (fst up, v))
                  | (Inr s, v) \<Rightarrow> swallow (onIncomingStream s (fst up, v))))
          else (Inr (revents rs 1 \<noteq> 0), (fst up, q)))"

partial_function (option) handleIncomingStreams ::
    "kernel \<Rightarrow> 'u callback \<Rightarrow> ListenerBase \<Rightarrow> 'u \<times> process \<Rightarrow> ((error + unit) \<times> 'u \<times> process) option"
where
  "handleIncomingStreams k onIncomingStream x up =
     (case incoming_round k onIncomingStream x up of
        (Inl e, vq) \<Rightarrow> Some (Inl e, vq)
      | (Inr finished, vq) \<Rightarrow>
          if finished then Some (Inr (), vq) else handleIncomingStreams k onIncomingStream x vq)"

definition startAccepting :: "(ListenerBase, error, unit) action" where
  "startAccepting x = (if task_joinable x then (Inl Terminate, x) else (Inr (), x\<lparr>task_joinable := True\<rparr>))"

section \<open>Stopping\<close>

definition post_stop :: "kernel \<Rightarrow> ('a) Listener_scheme \<Rightarrow> process \<Rightarrow> process" where
  "post_stop k x p = snd (sys_eventfd_write k (listener_end_fd x) stop_semaphore_value p)"

definition Listener_stopAccepting :: "kernel \<Rightarrow> Listener \<times> process \<Rightarrow> Listener \<times> process" where
  "Listener_stopAccepting k xp =
     (let (x, p) = xp in
      if \<not> stopped_accepting x
      then (x\<lparr>stopped_accepting := True\<rparr>, snd (sys_close k (listener_socket_fd x) (post_stop k x p)))
      else (x, p))"

definition Listener_destroy :: "kernel \<Rightarrow> Listener \<times> process \<Rightarrow> Listener \<times> process" where
  "Listener_destroy k xp = Listener_stopAccepting k xp"

text \<open>
  \<open>ListenerBase::stopAccepting\<close> joins the thread; the thread's loop runs while it waits.
\<close>

definition ListenerBase_stopAccepting ::
    "kernel \<Rightarrow> 'u callback \<Rightarrow> ListenerBase \<times> 'u \<times> process \<Rightarrow>
       ((error + unit) \<times> ListenerBase \<times> 'u \<times> process) option" where
  "ListenerBase_stopAccepting k onIncomingStream xup =
     (let (x, u, p) = xup in
      if \<not> stopped_accepting x then
        (case (if task_joinable x then handleIncomingStreams k onIncomingStream x (u, post_stop k x p)
               else Some (Inr (), (u, post_stop k x p))) of
           None \<Rightarrow> None
         | Some (Inl e, (v, q)) \<Rightarrow> Some (Inl e, (x, v, q))
         | Some (Inr _, (v, q)) \<Rightarrow>
             Some (Inr (), (x\<lparr>task_joinable := False, stopped_accepting := True\<rparr>, v,
               snd (sys_close k (listener_socket_fd x) q))))
      else Some (Inr (), xup))"

definition ListenerBase_destroy ::
    "kernel \<Rightarrow> 'u callback \<Rightarrow> ListenerBase \<times> 'u \<times> process \<Rightarrow>
       ((error + unit) \<times> ListenerBase \<times> 'u \<times> process) option" where
  "ListenerBase_destroy k onIncomingStream xup = ListenerBase_stopAccepting k onIncomingStream xup"

definition getFdForPoll :: "Listener \<Rightarrow> fd" where
  "getFdForPoll x = listener_socket_fd x"


section \<open>Properties of construction\<close>

text \<open>A checked call either went through or throws with its event as the last one.\<close>

lemma throw_errno_syscall [action_simps]:
  "throw_errno t (\<lambda>p. syscall ev (a p) p) p =
    (case a p of
       Inl e \<Rightarrow> (Inl (socket_exception t e (-1)), log_failure (ev (Inl e)) e p)
     | Inr x \<Rightarrow> (Inr x, log_event (ev (Inr x)) p))"
  by (simp add: throw_errno_def split: sum.split)

lemmas checked_call_simps = throw_errno_def sys_setsockopt_def sys_bind_def sys_listen_def
  sys_socket_def sys_eventfd_def syscall_def bindA_def

definition reuse_events :: "libc \<Rightarrow> fd \<Rightarrow> event list" where
  "reuse_events l d = Ev_Setsockopt d (SO_REUSEADDR 1) (Inr ()) #
     (if SO_REUSEPORT_defined l then [Ev_Setsockopt d (SO_REUSEPORT 1) (Inr ())] else [])"

lemma allow_reuse_success:
  "allow_reuse l k d p = (Inr u, q) \<Longrightarrow> q = p\<lparr>history := history p @ reuse_events l d\<rparr>"
  by (auto simp: allow_reuse_def reuse_events_def checked_call_simps split: sum.splits if_splits)

text \<open>
  A \<open>Listener\<close> that is constructed made exactly these calls, in this order: \<open>eventfd\<close>,
  \<open>socket\<close> for the requested IP version, the reuse options if they were asked for, \<open>bind\<close> to the
  wildcard address with the low 16 bits of the port in network byte order, and \<open>listen\<close>; all but
  the first succeeded, and the object holds the two descriptors and accepts clients.
\<close>

theorem Listener_construct_trace:
  assumes "Listener_construct l k port version reuse p = (Inr x, q)"
  shows "\<exists>e. history q = history p @ [Ev_Eventfd e,
        Ev_Socket (domain_of version) SOCK_STREAM IPPROTO_TCP (Inr (listener_socket_fd x))] @
      (if reuse then reuse_events l (listener_socket_fd x) else []) @
      [Ev_Bind (listener_socket_fd x) (listen_address l port version) (Inr ()),
       Ev_Listen (listener_socket_fd x) 5 (Inr ())] \<and>
    listener_end_fd x = (case e of Inl _ \<Rightarrow> -1 | Inr d \<Rightarrow> d) \<and> \<not> stopped_accepting x"
proof -
  let ?e = "k_eventfd k (history p)"
  obtain r p1 where first: "sys_eventfd k p = (r, p1)" by (meson surj_pair)
  then have h1: "history p1 = history p @ [Ev_Eventfd ?e]"
    and r: "(case r of None \<Rightarrow> -1 | Some d \<Rightarrow> d) = (case ?e of Inl _ \<Rightarrow> -1 | Inr d \<Rightarrow> d)"
    by (auto simp: sys_eventfd_def syscall_def split: sum.splits)
  from assms first obtain s p2 where
    sock: "throw_errno SOCKET_SOCKET (sys_socket k (domain_of version) SOCK_STREAM IPPROTO_TCP) p1 = (Inr s, p2)"
    and rest: "bindA (if reuse then allow_reuse l k s else ret ())
      (\<lambda>_. bindA (throw_errno SOCKET_BIND (sys_bind k s (listen_address l port version)))
      (\<lambda>_. bindA (throw_errno SOCKET_LISTEN (sys_listen k s 5))
      (\<lambda>_. ret \<lparr>listener_socket_fd = s, listener_end_fd = (case r of None \<Rightarrow> -1 | Some d \<Rightarrow> d),
         stopped_accepting = False\<rparr>))) p2 = (Inr x, q)"
    by (auto simp: Listener_construct_def elim: bindA_InrE)
  from sock have h2: "history p2 = history p1 @
      [Ev_Socket (domain_of version) SOCK_STREAM IPPROTO_TCP (Inr s)]"
    by (auto simp: checked_call_simps split: sum.splits)
  from rest obtain u p3 where opts: "(if reuse then allow_reuse l k s else ret ()) p2 = (Inr u, p3)"
    and tail: "bindA (throw_errno SOCKET_BIND (sys_bind k s (listen_address l port version)))
      (\<lambda>_. bindA (throw_errno SOCKET_LISTEN (sys_listen k s 5))
      (\<lambda>_. ret \<lparr>listener_socket_fd = s, listener_end_fd = (case r of None \<Rightarrow> -1 | Some d \<Rightarrow> d),
         stopped_accepting = False\<rparr>)) p3 = (Inr x, q)"
    by (auto elim: bindA_InrE)
  from opts have h3: "history p3 = history p2 @ (if reuse then reuse_events l s else [])"
    by (auto split: if_splits dest!: allow_reuse_success)
  from tail have "history q = history p3 @ [Ev_Bind s (listen_address l port version) (Inr ()),
      Ev_Listen s 5 (Inr ())]" and "x = \<lparr>listener_socket_fd = s,
        listener_end_fd = (case r of None \<Rightarrow> -1 | Some d \<Rightarrow> d), stopped_accepting = False\<rparr>"
    by (auto simp: checked_call_simps split: sum.splits)
  with h1 h2 h3 r show ?thesis by (intro exI [of _ ?e]) simp
qed

definition demo_server :: script where
  "demo_server = demo_script\<lparr>clients := 2\<rparr>"

definition demo_start :: process where
  "demo_start = \<lparr>history = [], errno = 0\<rparr>"

definition demo_listener :: Listener where
  "demo_listener = \<lparr>listener_socket_fd = 4, listener_end_fd = 3, stopped_accepting = False\<rparr>"

theorem Listener_construct_trace_witness:
  "history (snd (Listener_construct reference_libc (reference_kernel demo_server) 65616 IPv4 False demo_start)) =
     [Ev_Eventfd (Inr 3), Ev_Socket AF_INET SOCK_STREAM IPPROTO_TCP (Inr 4),
      Ev_Bind 4 (listen_address reference_libc 80 IPv4) (Inr ()), Ev_Listen 4 5 (Inr ())]"
proof -
  let ?r = "Listener_construct reference_libc (reference_kernel demo_server) 65616 IPv4 False demo_start"
  have same: "listen_address reference_libc 65616 IPv4 = listen_address reference_libc 80 IPv4"
    by code_simp
  have "fst ?r = Inr demo_listener" by code_simp
  from Listener_construct_trace [OF pair_of_fst [OF this]] obtain e where
    h: "history (snd ?r) = [Ev_Eventfd e, Ev_Socket AF_INET SOCK_STREAM IPPROTO_TCP (Inr 4),
      Ev_Bind 4 (listen_address reference_libc 80 IPv4) (Inr ()), Ev_Listen 4 5 (Inr ())]"
    and "3 = (case e of Inl _ \<Rightarrow> -1 | Inr d \<Rightarrow> d)"
    by (auto simp: demo_start_def demo_listener_def domain_of_def same)
  then have "e = Inr 3" by (simp split: sum.splits)
  with h show ?thesis by (simp only:)
qed

text \<open>
  The two constructors agree. Where the \<open>eventfd\<close> can be created, \<open>ListenerBase(port, version)\<close>
  and \<open>Listener(port, version, true)\<close> make the same calls, throw the same exceptions and end up
  with the same descriptors; where it cannot, \<open>ListenerBase\<close> throws and \<open>Listener\<close> goes on with
  the descriptor \<open>-1\<close>, which no \<open>stopAccepting\<close> can ever signal.
\<close>

theorem Listener_constructors_agree:
  "case k_eventfd k (history p) of
      Inr d \<Rightarrow> ListenerBase_construct l k port version p =
        (case Listener_construct l k port version True p of
           (Inl e, q) \<Rightarrow> (Inl e, q)
         | (Inr x, q) \<Rightarrow> (Inr \<lparr>listener_socket_fd = listener_socket_fd x,
             listener_end_fd = listener_end_fd x, stopped_accepting = stopped_accepting x,
             task_joinable = False\<rparr>, q))
    | Inl err \<Rightarrow> fst (ListenerBase_construct l k port version p) =
          Inl (Runtime_Error ''Failed to create event_fd'') \<and>
        (case fst (Listener_construct l k port version True p) of
           Inr x \<Rightarrow> listener_end_fd x = -1
         | Inl e \<Rightarrow> True)"
proof (cases "k_eventfd k (history p)")
  case (Inr d)
  then have first: "sys_eventfd k p = (Some d, log_event (Ev_Eventfd (Inr d)) p)"
    by (simp add: sys_eventfd_def)
  show ?thesis
    by (simp add: ListenerBase_construct_def Listener_construct_def first Inr bindA_def Let_def
        split: prod.split sum.split)
next
  case (Inl err)
  then have first: "sys_eventfd k p = (None, log_failure (Ev_Eventfd (Inl err)) err p)"
    by (simp add: sys_eventfd_def)
  show ?thesis
    by (auto simp: ListenerBase_construct_def Listener_construct_def first Inl bindA_def Let_def
        split: prod.split sum.split)
qed

end
