(* ===== verification/Listener_Serving.thy ===== *)
theory Listener_Serving
  imports Listener_Model
begin

text \<open>
  What the listeners do with their descriptors and with their clients: constructors that throw,
  \<open>accept\<close>, stopping, and the serving loop of \<open>ListenerBase\<close>.
\<close>

section \<open>Properties of failing, accepting and stopping\<close>

lemma never_closes_allow_reuse [intro]: "never_closes (allow_reuse l k d)"
  by (auto simp: allow_reuse_def)

text \<open>
  A \<open>Listener\<close> constructor that throws leaks. Whatever it opened, the \<open>eventfd\<close> and, from
  the failing \<open>setsockopt\<close>, \<open>bind\<close> or \<open>listen\<close> on, the socket, is still open afterwards, and
  there is no object whose destructor could close it.
\<close>

theorem Listener_construct_leaks:
  assumes "Listener_construct l k port version reuse p = (Inl e, q)"
  shows "leaks p q"
proof -
  let ?fd = "case fst (sys_eventfd k p) of None \<Rightarrow> -1 | Some d \<Rightarrow> d"
  let ?rest = "bindA (throw_errno SOCKET_SOCKET (sys_socket k (domain_of version) SOCK_STREAM IPPROTO_TCP))
      (\<lambda>s. bindA (if reuse then allow_reuse l k s else ret ())
      (\<lambda>_. bindA (throw_errno SOCKET_BIND (sys_bind k s (listen_address l port version)))
      (\<lambda>_. bindA (throw_errno SOCKET_LISTEN (sys_listen k s 5))
      (\<lambda>_. ret \<lparr>listener_socket_fd = s, listener_end_fd = ?fd, stopped_accepting = False\<rparr>))))"
  have "never_closes ?rest"
    by (intro never_closes_intros never_closes_allow_reuse)
  moreover have "never_closes (ignore_result (sys_eventfd k))"
    by (rule never_closes_call) (unfold sys_eventfd_def, fastforce)
  ultimately have "never_closes (bindA (ignore_result (sys_eventfd k)) (\<lambda>_. ?rest))" by auto
  moreover have "bindA (ignore_result (sys_eventfd k)) (\<lambda>_. ?rest) p = (Inl e, q)"
    using assms by (simp add: Listener_construct_def ignore_result_def bindA_def [of "\<lambda>p. (Inr (), _ p)"]
        Let_def case_prod_unfold)
  ultimately show ?thesis by (rule never_closes_leaks)
qed

text \<open>
  \<open>Listener::accept\<close>, branch by branch: a waiting client is accepted before a termination
  request is looked at, and becomes a stream on the accepted descriptor with its own new
  \<open>eventfd\<close>; the request ends the call otherwise. A call that merely times out is reported as
  \<open>SOCKET_ACCEPT\<close>, with an \<open>errno\<close> that no call of it has set.
\<close>

theorem Listener_accept_outcome:
  assumes "poll_reports k"
  shows "case k_poll k (history p) (listener_fds x) t of
      Inl e \<Rightarrow> fst (Listener_accept k x t p) = Inl (socket_exception SOCKET_POLL e (-1))
    | Inr rs \<Rightarrow>
        let q = log_event (Ev_Poll (listener_fds x) t (Inr rs)) p in
        if rs ! 0 \<noteq> 0 then
          (case k_accept k (history q) (listener_socket_fd x) of
             Inl e \<Rightarrow> fst (Listener_accept k x t p) = Inl (socket_exception SOCKET_ACCEPT e (-1))
           | Inr d \<Rightarrow>
               (case k_eventfd k (history (log_event (Ev_Accept (listener_socket_fd x) (Inr d)) q)) of
                  Inl e \<Rightarrow> fst (Listener_accept k x t p) = Inl (Runtime_Error ''Failed to create event_fd'')
                | Inr e \<Rightarrow> fst (Listener_accept k x t p) =
                    Inr \<lparr>stream_file_descriptor = d, stop_all_operations_event_fd = e\<rparr>))
        else if rs ! 1 \<noteq> 0 then
          Listener_accept k x t p = (Inl (socket_exception SOCKET_TERMINATION_REQUEST (errno p) (-1)), q)
        else Listener_accept k x t p = (Inl (socket_exception SOCKET_ACCEPT (errno p) (-1)), q)"
proof (cases "k_poll k (history p) (listener_fds x) t")
  case (Inl e)
  then show ?thesis by (simp add: Listener_accept_def sys_poll_def)
next
  case (Inr rs)
  with poll_reportsD(1) [OF assms Inr] have "length rs = 2" by simp
  then have rs: "revents rs 0 = rs ! 0" "revents rs 1 = rs ! 1" by (simp_all add: revents_def)
  show ?thesis
  proof (cases "rs ! 0 = 0")
    case True
    with Inr rs show ?thesis by (simp add: Listener_accept_def sys_poll_def)
  next
    case False
    let ?q = "log_event (Ev_Poll (listener_fds x) t (Inr rs)) p"
    show ?thesis
    proof (cases "k_accept k (history ?q) (listener_socket_fd x)")
      case fail: (Inl e)
      with False Inr rs show ?thesis by (simp add: Listener_accept_def sys_poll_def sys_accept_def)
    next
      case client: (Inr d)
      then show ?thesis using False Inr rs
        by (cases "k_eventfd k (history (log_event (Ev_Accept (listener_socket_fd x) (Inr d)) ?q))")
          (simp_all add: Listener_accept_def sys_poll_def sys_accept_def Stream_construct_def sys_eventfd_def)
    qed
  qed
qed

text \<open>
  Stopping and destroying a \<open>Listener\<close> in any combination closes its socket exactly once: a
  second \<open>stopAccepting\<close>, and the destructor after it, do nothing. The stop descriptor is posted
  before the socket is closed, so a thread that waits in \<open>accept\<close> is woken.
\<close>

theorem Listener_stops_once:
  assumes "\<not> stopped_accepting x" and "Listener_stopAccepting k (x, p) = (y, q)"
  shows "Listener_stopAccepting k (y, q) = (y, q) \<and> Listener_destroy k (y, q) = (y, q) \<and>
    Listener_destroy k (x, p) = (y, q) \<and>
    close_calls (listener_socket_fd x) (history q) = Suc (close_calls (listener_socket_fd x) (history p)) \<and>
    (eventfd_writable k \<longrightarrow> efd_count (listener_end_fd x) (history p) = Some 0 \<longrightarrow>
       listener_end_fd x \<noteq> listener_socket_fd x \<longrightarrow>
       efd_count (listener_end_fd x) (history q) = Some 65535)"
proof -
  have y: "y = x\<lparr>stopped_accepting := True\<rparr>"
    and q: "q = snd (sys_close k (listener_socket_fd x) (post_stop k x p))"
    using assms by (simp_all add: Listener_stopAccepting_def)
  have "close_calls (listener_socket_fd x) (history q) = Suc (close_calls (listener_socket_fd x) (history p))"
    unfolding q by (auto simp: sys_close_def post_stop_def sys_eventfd_write_def syscall_def split: sum.splits)
  moreover have "efd_count (listener_end_fd x) (history q) = Some 65535"
    if "eventfd_writable k" "efd_count (listener_end_fd x) (history p) = Some 0"
      "listener_end_fd x \<noteq> listener_socket_fd x"
  proof -
    have "efd_count (listener_end_fd x) (history (post_stop k x p)) = Some 65535"
      using post_stop_count [OF that(1,2)] by (simp add: post_stop_def)
    then show ?thesis unfolding q using that(3)
      by (auto simp: sys_close_def syscall_def split: sum.splits)
  qed
  ultimately show ?thesis using y assms by (auto simp: Listener_destroy_def Listener_stopAccepting_def)
qed

section \<open>The serving loop\<close>

interpretation listener_stop: stop_signal k listener_end_fd "post_stop k"
  for k
  by unfold_locales (simp add: post_stop_def post_stop_count)

text \<open>A stop request that is posted while the socket is still open ends a waiting \<open>accept\<close>.\<close>

lemma Listener_accept_stopped:
  assumes "eventfd_writable k" and "poll_eventfd k" and "poll_reports k"
    and "efd_count (listener_end_fd x) (history p) = Some n" and "0 \<le> n" and "n < 2 ^ 64 - 2 ^ 16"
    and "0 \<le> listener_end_fd x" and "k_poll k (history (post_stop k x p)) (listener_fds x) t = Inr rs"
    and "rs ! 0 = 0"
  shows "fst (Listener_accept k x t (post_stop k x p)) =
    Inl (socket_exception SOCKET_TERMINATION_REQUEST (errno (post_stop k x p)) (-1))"
proof -
  have "length rs = 2" using poll_reportsD(1) [OF assms(3,8)] by simp
  moreover have "revents rs 1 \<noteq> 0"
    using listener_stop.stop_seen [OF assms(1-7) _ _ assms(8), of 1] by simp
  ultimately show ?thesis using assms(8,9)
    by (simp add: Listener_accept_def sys_poll_def revents_nth)
qed

fun event_accepted :: "event \<Rightarrow> fd list" where
  "event_accepted (Ev_Accept _ (Inr d)) = [d]"
| "event_accepted _ = []"

definition accepted :: "history \<Rightarrow> fd list" where
  "accepted h = concat (map event_accepted h)"

lemma accepted_append [simp]: "accepted (h @ h') = accepted h @ accepted h'"
  by (simp add: accepted_def)

lemma accepted_Cons [simp]: "accepted [] = []" "accepted (e # h) = event_accepted e @ accepted h"
  by (simp_all add: accepted_def)

text \<open>
  A callback that keeps the descriptors of its streams in a list, and may throw what it likes
  after that.
\<close>

definition recording :: "(Stream \<Rightarrow> error + unit) \<Rightarrow> fd list callback" where
  "recording f s up = (f s, (fst up @ [stream_file_descriptor s], snd up))"

definition catchable :: "error + unit \<Rightarrow> bool" where
  "catchable r = (r \<noteq> Inl Terminate \<and> r \<noteq> Inl Undefined_Behaviour)"

lemma swallow_catchable: "catchable (fst rs) \<Longrightarrow> swallow rs = (Inr False, snd rs)"
  by (auto simp: swallow_def catchable_def split: prod.splits sum.splits error.splits)

lemma incoming_round_accepts:
  assumes "\<forall>s. catchable (f s)" and "\<forall>h. \<exists>e. k_eventfd k h = Inr e"
    and "incoming_round k (recording f) x (u, p) = (r, (v, q))" and "u = base @ accepted (history p)"
  shows "v = base @ accepted (history q) \<and> (\<exists>b. r = Inr b)"
proof (cases "k_poll k (history p) (listener_fds x) (-1)")
  case (Inl e)
  with assms(3,4) show ?thesis by (auto simp: incoming_round_def sys_poll_def)
next
  case (Inr rs)
  let ?p = "log_event (Ev_Poll (listener_fds x) (-1) (Inr rs)) p"
  show ?thesis
  proof (cases "revents rs 0 = 0")
    case True
    with assms(3,4) Inr show ?thesis by (auto simp: incoming_round_def sys_poll_def)
  next
    case ready: False
    show ?thesis
    proof (cases "k_accept k (history ?p) (listener_socket_fd x)")
      case fail: (Inl e)
      with assms(3,4) Inr ready show ?thesis
        by (auto simp: incoming_round_def sys_poll_def sys_accept_def)
    next
      case client: (Inr d)
      let ?r = "log_event (Ev_Accept (listener_socket_fd x) (Inr d)) ?p"
      obtain e where "k_eventfd k (history ?r) = Inr e" using assms(2) by blast
      then have "Stream_construct k d ?r = (Inr \<lparr>stream_file_descriptor = d,
          stop_all_operations_event_fd = e\<rparr>, log_event (Ev_Eventfd (Inr e)) ?r)"
        by (simp add: Stream_construct_def sys_eventfd_def)
      with assms Inr ready client show ?thesis
        by (auto simp: incoming_round_def sys_poll_def sys_accept_def recording_def swallow_catchable)
    qed
  qed
qed

text \<open>Induction over the rounds of a loop that ends.\<close>

lemma handleIncomingStreams_run [consumes 1, case_names failed finished again]:
  assumes "handleIncomingStreams k cb x up = Some y"
    and "\<And>up e vq. incoming_round k cb x up = (Inl e, vq) \<Longrightarrow> P up (Inl e, vq)"
    and "\<And>up vq. incoming_round k cb x up = (Inr True, vq) \<Longrightarrow> P up (Inr (), vq)"
    and "\<And>up vq y. incoming_round k cb x up = (Inr False, vq) \<Longrightarrow> P vq y \<Longrightarrow> P up y"
  shows "P up y"
proof -
  let ?P = "\<lambda>k' cb' x' up y. k' = k \<longrightarrow> cb' = cb \<longrightarrow> x' = x \<longrightarrow> P up y"
  have "(case (((k, cb), x), up) of
      (a, up) \<Rightarrow> (case a of (a, x) \<Rightarrow> (case a of (k, cb) \<Rightarrow> ?P k cb) x) up) y"
  proof (rule handleIncomingStreams.raw_induct [where P = ?P and xa = "(((k, cb), x), up)"])
    fix g k' cb' x' up y
    assume ih: "\<And>k' cb' x' up y. g k' cb' x' up = Some y \<Longrightarrow> ?P k' cb' x' up y"
      and body: "(case incoming_round k' cb' x' up of (Inl e, vq) \<Rightarrow> Some (Inl e, vq)
        | (Inr finished, vq) \<Rightarrow> if finished then Some (Inr (), vq) else g k' cb' x' vq) = Some y"
    show "?P k' cb' x' up y"
    proof (intro impI)
      assume [simp]: "k' = k" "cb' = cb" "x' = x"
      obtain r vq where step: "incoming_round k cb x up = (r, vq)" by (meson surj_pair)
      show "P up y"
      proof (cases r)
        case (Inl e)
        with step body assms(2) [of up e vq] show ?thesis by simp
      next
        case (Inr b)
        with step body assms(3) [of up vq] assms(4) [of up vq y] ih [of k cb x vq y]
        show ?thesis by (cases b) simp_all
      qed
    qed
  qed (use assms(1) in simp)
  then show ?thesis by simp
qed

lemma handleIncomingStreams_accepts:
  assumes "\<forall>s. catchable (f s)" and "\<forall>h. \<exists>e. k_eventfd k h = Inr e"
    and "handleIncomingStreams k (recording f) x up = Some rvq"
    and "fst up = base @ accepted (history (snd up))"
  shows "fst rvq = Inr () \<and> fst (snd rvq) = base @ accepted (history (snd (snd rvq)))"
proof -
  have step: "fst vq = base @ accepted (history (snd vq)) \<and> (\<exists>b. r = Inr b)"
    if "incoming_round k (recording f) x up = (r, vq)" "fst up = base @ accepted (history (snd up))"
    for up r vq
    using incoming_round_accepts [OF assms(1,2), of x "fst up" "snd up" r "fst vq" "snd vq" base] that
    by (cases up) auto
  show ?thesis using assms(3,4)
    by (induction rule: handleIncomingStreams_run) (auto dest!: step)
qed

text \<open>
  The serving loop hands every client it accepted to \<open>onIncomingStream\<close>, once, in the order
  in which they were accepted, no matter what exceptions the callback throws; and the loop
  itself ends without one.
\<close>

theorem handleIncomingStreams_serves_all:
  assumes "\<forall>s. catchable (f s)" and "\<forall>h. \<exists>e. k_eventfd k h = Inr e"
    and "accepted (history p) = []"
    and "handleIncomingStreams k (recording f) x ([], p) = Some (r, (served, q))"
  shows "served = accepted (history q) \<and> r = Inr ()"
  using handleIncomingStreams_accepts [OF assms(1,2,4), where base = "[]"] assms(3) by simp

lemma handleIncomingStreams_spins:
  assumes "\<And>h. \<exists>rs. k_poll k h (listener_fds x) (-1) = Inr rs \<and> revents rs 0 \<noteq> 0"
    and "\<And>h. \<exists>e. k_accept k h (listener_socket_fd x) = Inl e"
  shows "handleIncomingStreams k cb x up = None"
proof -
  have False if "handleIncomingStreams k cb x up = Some y" for y
    using that
  proof (induction rule: handleIncomingStreams_run)
    fix up
    let ?r = "incoming_round k cb x up"
    obtain rs where poll: "k_poll k (history (snd up)) (listener_fds x) (-1) = Inr rs" "revents rs 0 \<noteq> 0"
      using assms(1) by blast
    obtain e where "k_accept k (history (log_event (Ev_Poll (listener_fds x) (-1) (Inr rs)) (snd up)))
        (listener_socket_fd x) = Inl e" using assms(2) by blast
    with poll have again: "fst ?r = Inr False"
      by (simp add: incoming_round_def sys_poll_def sys_accept_def)
    show False if "?r = (Inl e', vq)" for e' vq using that again by simp
    show False if "?r = (Inr True, vq)" for vq using that again by simp
  qed
  then show ?thesis by (cases "handleIncomingStreams k cb x up") auto
qed

text \<open>
  \<open>stopAccepting\<close> can hang. While a client waits that cannot be accepted, as when the process
  has no descriptors left, \<open>poll\<close> keeps reporting the socket, \<open>accept\<close> keeps failing, and the
  loop goes round without ever looking at the stop descriptor: the \<open>join\<close> of \<open>stopAccepting\<close>
  does not return.
\<close>

theorem stopAccepting_hangs_when_accept_fails:
  assumes "\<And>h. \<exists>rs. k_poll k h (listener_fds x) (-1) = Inr rs \<and> revents rs 0 \<noteq> 0"
    and "\<And>h. \<exists>e. k_accept k h (listener_socket_fd x) = Inl e"
    and "task_joinable x" and "\<not> stopped_accepting x"
  shows "ListenerBase_stopAccepting k cb (x, u, p) = None"
  using assms(3,4) handleIncomingStreams_spins [OF assms(1,2), of cb "(u, post_stop k x p)"]
  by (simp add: ListenerBase_stopAccepting_def)


section \<open>Stopping ends the serving loop\<close>

text \<open>An open \<open>eventfd\<close> is among the open descriptors.\<close>

lemma efd_count_open: "efd_count d h = Some n \<Longrightarrow> d \<in> open_fds h"
proof (induction h arbitrary: n rule: rev_induct)
  case (snoc e h)
  then show ?case
    by (cases "(d, efd_count d h, e)" rule: efd_step.cases; cases "(open_fds h, e)" rule: open_step.cases)
      (auto split: if_splits)
qed simp

text \<open>
  A kernel on which at most \<open>N\<close> clients come to the listener \<open>x\<close>, each of them can be accepted,
  and \<open>poll\<close> does not fail while the stop descriptor is ready.
\<close>

definition serves_at_most :: "kernel \<Rightarrow> ('a) Listener_scheme \<Rightarrow> nat \<Rightarrow> bool" where
  "serves_at_most k x N = (\<forall>h.
     listener_socket_fd x \<in> open_fds h \<longrightarrow> efd_count (listener_socket_fd x) h = None \<longrightarrow>
     (\<forall>n. efd_count (listener_end_fd x) h = Some n \<longrightarrow> 0 < n \<longrightarrow>
        (\<exists>rs. k_poll k h (listener_fds x) (-1) = Inr rs)) \<and>
     (\<forall>rs. k_poll k h (listener_fds x) (-1) = Inr rs \<longrightarrow> rs ! 0 \<noteq> 0 \<longrightarrow>
        length (accepted h) < N \<and>
        (\<exists>d. k_accept k (h @ [Ev_Poll (listener_fds x) (-1) (Inr rs)]) (listener_socket_fd x) = Inr d)))"

definition listening :: "int \<Rightarrow> ('a) Listener_scheme \<Rightarrow> process \<Rightarrow> bool" where
  "listening n x p = (listener_socket_fd x \<in> open_fds (history p) \<and>
     efd_count (listener_socket_fd x) (history p) = None \<and>
     efd_count (listener_end_fd x) (history p) = Some n)"

text \<open>
  A callback that may do what it likes with its own state, throw any exception and post the stop
  descriptor, but leaves the listening socket open and accepts no clients itself.
\<close>

definition polite :: "ListenerBase \<Rightarrow> 'u callback \<Rightarrow> bool" where
  "polite x cb = (\<forall>s u p n. listening n x p \<longrightarrow> (\<exists>r v q m. cb s (u, p) = (r, (v, q)) \<and> catchable r \<and>
     n \<le> m \<and> listening m x q \<and> accepted (history q) = accepted (history p)))"

lemma politeE:
  assumes "polite x cb" and "listening n x p"
  obtains r v q m where "cb s (u, p) = (r, (v, q))" and "catchable r" and "n \<le> m" and "listening m x q"
    and "accepted (history q) = accepted (history p)"
  using assms unfolding polite_def by blast

lemma recording_polite: "\<forall>s. catchable (f s) \<Longrightarrow> polite x (recording f)"
  by (force simp: polite_def recording_def)

lemma stopped_round:
  assumes "poll_eventfd k" and "poll_reports k" and "fresh_fds k" and "serves_at_most k x N"
    and "polite x cb" and "\<forall>h. \<exists>e. k_eventfd k h = Inr e"
    and "0 \<le> listener_end_fd x" and "0 < n" and "listening n x p"
    and "incoming_round k cb x (u, p) = (r, (v, q))"
  shows "(\<exists>m \<ge> n. listening m x q) \<and>
    (r = Inr True \<or> r = Inr False \<and> length (accepted (history p)) < N \<and>
       length (accepted (history q)) = Suc (length (accepted (history p))))"
proof -
  note inv = assms(9) [unfolded listening_def]
  obtain rs where poll: "k_poll k (history p) (listener_fds x) (-1) = Inr rs"
    using assms(4,8) inv unfolding serves_at_most_def by blast
  note len = poll_reportsD(1) [OF assms(2) poll]
  have ready: "rs ! 1 \<noteq> 0"
    using poll_eventfd_positive [OF assms(1) poll, of 1 n] assms(7,8) inv by simp
  let ?p = "log_event (Ev_Poll (listener_fds x) (-1) (Inr rs)) p"
  show ?thesis
  proof (cases "rs ! 0 = 0")
    case True
    with inv assms(10) poll ready len show ?thesis
      by (auto simp: incoming_round_def sys_poll_def revents_nth listening_def)
  next
    case client: False
    then obtain d where d: "k_accept k (history ?p) (listener_socket_fd x) = Inr d"
      and few: "length (accepted (history p)) < N"
      using assms(4) inv poll unfolding serves_at_most_def by fastforce
    let ?r = "log_event (Ev_Accept (listener_socket_fd x) (Inr d)) ?p"
    obtain e where e: "k_eventfd k (history ?r) = Inr e" using assms(6) by blast
    have count: "efd_count (listener_end_fd x) (history ?r) = Some n"
      and opened: "listener_socket_fd x \<in> open_fds (history ?r)" using inv by simp_all
    with efd_count_open [OF count] e assms(3)
    have "e \<noteq> listener_end_fd x" and "e \<noteq> listener_socket_fd x"
      unfolding fresh_fds_def by blast+
    with inv have before: "listening n x (log_event (Ev_Eventfd (Inr e)) ?r)" by (simp add: listening_def)
    let ?s = "\<lparr>stream_file_descriptor = d, stop_all_operations_event_fd = e\<rparr>"
    obtain r' v' q' m where after: "cb ?s (u, log_event (Ev_Eventfd (Inr e)) ?r) = (r', (v', q'))" "catchable r'"
      "n \<le> m" "listening m x q'"
      "accepted (history q') = accepted (history (log_event (Ev_Eventfd (Inr e)) ?r))"
      using politeE [OF assms(5) before, of ?s u] by metis
    have "Stream_construct k d ?r = (Inr ?s, log_event (Ev_Eventfd (Inr e)) ?r)"
      using e by (simp add: Stream_construct_def sys_eventfd_def)
    with after have "incoming_round k cb x (u, p) = (Inr False, (v', q'))"
      using poll client d len by (simp add: incoming_round_def sys_poll_def sys_accept_def swallow_catchable revents_nth)
    with after few assms(10) show ?thesis by auto
  qed
qed

lemma stopped_loop_ends:
  assumes "poll_eventfd k" and "poll_reports k" and "fresh_fds k" and "serves_at_most k x N"
    and "polite x cb" and "\<forall>h. \<exists>e. k_eventfd k h = Inr e"
    and "0 \<le> listener_end_fd x" and "0 < n" and "listening n x p"
  shows "\<exists>v q m. handleIncomingStreams k cb x (u, p) = Some (Inr (), (v, q)) \<and> listening m x q"
  using assms(8,9)
proof (induction "N - length (accepted (history p))" arbitrary: n u p rule: less_induct)
  case less
  obtain r v q where step: "incoming_round k cb x (u, p) = (r, (v, q))" by (metis prod_cases3)
  note round = stopped_round [OF assms(1-7) less.prems step]
  then obtain m where m: "n \<le> m" "listening m x q" by blast
  with less.prems have "0 < m" by simp
  show ?case
  proof (cases "r = Inr True")
    case True
    with step m show ?thesis by (auto simp: handleIncomingStreams.simps [of k _ x "(u, p)"])
  next
    case False
    with round have r: "r = Inr False"
      and "N - length (accepted (history q)) < N - length (accepted (history p))" by auto
    from less.hyps [OF this(2) \<open>0 < m\<close> m(2)] step r show ?thesis
      by (simp add: handleIncomingStreams.simps [of k _ x "(u, p)"])
  qed
qed

text \<open>
  C30: \<open>stopAccepting\<close> returns. When every client that comes can be accepted and only finitely
  many come, posting the stop descriptor ends the serving loop, whatever \<open>onIncomingStream\<close> does to
  its own state and whatever exceptions it throws, as long as it leaves the listening socket alone;
  \<open>stopAccepting\<close> joins the thread, closes the socket and marks the listener as stopped.
\<close>

theorem stopAccepting_returns:
  assumes "eventfd_writable k" and "poll_eventfd k" and "poll_reports k" and "fresh_fds k"
    and "serves_at_most k x N" and "polite x cb" and "\<forall>h. \<exists>e. k_eventfd k h = Inr e"
    and "0 \<le> listener_end_fd x" and "listening 0 x p" and "\<not> stopped_accepting x"
  shows "\<exists>y v q. ListenerBase_stopAccepting k cb (x, u, p) = Some (Inr (), (y, v, q)) \<and>
    stopped_accepting y \<and> \<not> task_joinable y \<and>
    (\<exists>a. last (history q) = Ev_Close (listener_socket_fd x) a)"
proof -
  have "listening 65535 x (post_stop k x p)"
    using assms(9) post_stop_value [OF assms(1), of "listener_end_fd x" p 0]
    by (simp add: listening_def post_stop_def stop_semaphore_value_def)
  from stopped_loop_ends [OF assms(2-8) _ this, of u] obtain v q where
    "handleIncomingStreams k cb x (u, post_stop k x p) = Some (Inr (), (v, q))"
    by fastforce
  with assms(10) show ?thesis
    by (auto simp: ListenerBase_stopAccepting_def sys_close_def syscall_history)
qed

section \<open>Stopping from the callback\<close>

text \<open>
  \<open>stopAccepting\<close> called by the serving thread itself, that is, by \<open>onIncomingStream\<close>. To join the
  own thread is a \<open>std::system_error\<close> (\<open>resource_deadlock_would_occur\<close>), thrown after the stop
  descriptor is posted and before the socket is closed. The thread object is not joinable only
  until \<open>startAccepting\<close> has assigned it.
\<close>

definition stopAccepting_by_callback ::
    "kernel \<Rightarrow> (ListenerBase \<times> process, error, unit) action" where
  "stopAccepting_by_callback k xp =
     (let (x, p) = xp in
      if \<not> stopped_accepting x then
        (if task_joinable x then (Inl (Runtime_Error ''Resource deadlock avoided''), (x, post_stop k x p))
         else (Inr (), (x\<lparr>stopped_accepting := True\<rparr>, snd (sys_close k (listener_socket_fd x) (post_stop k x p)))))
      else (Inr (), xp))"

text \<open>A callback that keeps its streams and wants no more of them.\<close>

definition last_client :: "kernel \<Rightarrow> ListenerBase \<Rightarrow> Stream list callback" where
  "last_client k x s up =
     (let (r, (y, q)) = stopAccepting_by_callback k (x, snd up) in (r, (fst up @ [s], q)))"

lemma post_stop_listening:
  assumes "listening n x p" and "0 \<le> listener_end_fd x"
  shows "\<exists>m. n \<le> m \<and> listening m x (post_stop k x p) \<and>
    (eventfd_writable k \<longrightarrow> n < 2 ^ 64 - 2 ^ 16 \<longrightarrow> m = n + 65535) \<and>
    accepted (history (post_stop k x p)) = accepted (history p)"
proof -
  have count: "efd_count (listener_end_fd x) (history p) = Some n"
    and sock: "listener_socket_fd x \<in> open_fds (history p)" "efd_count (listener_socket_fd x) (history p) = None"
    using assms(1) by (simp_all add: listening_def)
  show ?thesis
  proof (cases "k_eventfd_write k (history p) (listener_end_fd x) stop_semaphore_value")
    case (Inl e)
    then have "\<not> (eventfd_writable k \<and> n < 2 ^ 64 - 2 ^ 16)"
      using post_stop_value [of k "listener_end_fd x" p n] count
      by (auto simp: sys_eventfd_write_def)
    with Inl count sock show ?thesis
      by (intro exI [of _ n]) (auto simp: post_stop_def sys_eventfd_write_def listening_def)
  next
    case (Inr w)
    with count sock show ?thesis
      by (intro exI [of _ "n + 65535"])
        (simp add: post_stop_def sys_eventfd_write_def listening_def stop_semaphore_value_def)
  qed
qed

lemma last_client_polite:
  assumes "task_joinable x" and "0 \<le> listener_end_fd x"
  shows "polite x (last_client k x)"
  unfolding polite_def
proof (intro allI impI)
  fix s u p n
  assume "listening n x p"
  with post_stop_listening [OF this assms(2), of k] assms(1)
  show "\<exists>r v q m. last_client k x s (u, p) = (r, (v, q)) \<and> catchable r \<and> n \<le> m \<and> listening m x q \<and>
      accepted (history q) = accepted (history p)"
    by (auto simp: last_client_def stopAccepting_by_callback_def catchable_def)
qed

text \<open>
  A server that stops itself does not stop cleanly. When \<open>onIncomingStream\<close> calls \<open>stopAccepting\<close>, it
  gets an exception; the loop swallows it and ends after the clients that wait have been handed
  over as well, and the listening socket stays open: clients can connect, and nobody serves them.
\<close>

theorem stopping_from_callback:
  assumes "eventfd_writable k" and "poll_eventfd k" and "poll_reports k" and "fresh_fds k"
    and "serves_at_most k x N" and "\<forall>h. \<exists>e. k_eventfd k h = Inr e"
    and "0 \<le> listener_end_fd x" and "listening 0 x p" and "task_joinable x" and "\<not> stopped_accepting x"
  shows "fst (stopAccepting_by_callback k (x, p)) = Inl (Runtime_Error ''Resource deadlock avoided'') \<and>
    (\<exists>v q. handleIncomingStreams k (last_client k x) x (u, snd (snd (stopAccepting_by_callback k (x, p)))) =
       Some (Inr (), (v, q)) \<and> listener_socket_fd x \<in> open_fds (history q))"
proof -
  have after: "stopAccepting_by_callback k (x, p) =
      (Inl (Runtime_Error ''Resource deadlock avoided''), (x, post_stop k x p))"
    using assms(9,10) by (simp add: stopAccepting_by_callback_def)
  obtain m where "listening m x (post_stop k x p)" "0 < m"
    using post_stop_listening [OF assms(8,7), of k] assms(1) by auto
  from stopped_loop_ends [OF assms(2-5) last_client_polite [OF assms(9,7), of k] assms(6,7) this(2,1), of u]
  show ?thesis unfolding after by (auto simp: listening_def)
qed

section \<open>Witnesses on the reference kernel\<close>

definition demo_listening :: process where
  "demo_listening = \<lparr>history = [Ev_Eventfd (Inr 3), Ev_Socket AF_INET SOCK_STREAM IPPROTO_TCP (Inr 4),
     Ev_Listen 4 5 (Inr ())], errno = 0\<rparr>"

definition demo_base :: ListenerBase where
  "demo_base = \<lparr>listener_socket_fd = 4, listener_end_fd = 3, stopped_accepting = False,
     task_joinable = True\<rparr>"

definition bind_fails :: "script \<Rightarrow> kernel" where
  "bind_fails sc = (reference_kernel sc)\<lparr>k_bind := (\<lambda>h d a. Inl 98)\<rparr>"

definition accept_fails :: "script \<Rightarrow> kernel" where
  "accept_fails sc = (reference_kernel sc)\<lparr>k_poll := (\<lambda>h ds t. Inr (map (\<lambda>_. 1) ds)),
     k_accept := (\<lambda>h d. Inl 24)\<rparr>"

theorem Listener_construct_leaks_witness:
  "leaks demo_start (snd (Listener_construct reference_libc (bind_fails demo_server) 80 IPv4 True demo_start))"
proof -
  let ?r = "Listener_construct reference_libc (bind_fails demo_server) 80 IPv4 True demo_start"
  have "fst ?r = Inl (socket_exception SOCKET_BIND 98 (-1))" by code_simp
  from Listener_construct_leaks [OF pair_of_fst [OF this]] show ?thesis .
qed

theorem Listener_accept_outcome_witness:
  "Listener_accept (reference_kernel demo_script) demo_listener 50 demo_listening =
     (Inl (socket_exception SOCKET_ACCEPT 0 (-1)),
      log_event (Ev_Poll (listener_fds demo_listener) 50 (Inr [0, 0])) demo_listening)"
proof -
  have "k_poll (reference_kernel demo_script) (history demo_listening) (listener_fds demo_listener) 50 =
      Inr [0, 0]" and "errno demo_listening = 0" by code_simp+
  with Listener_accept_outcome [OF reference_poll_reports [of demo_script], where p = demo_listening
      and x = demo_listener and t = 50] show ?thesis by (simp add: Let_def)
qed

theorem Listener_stops_once_witness:
  "let xp = Listener_stopAccepting (reference_kernel demo_server) (demo_listener, demo_listening)
   in Listener_destroy (reference_kernel demo_server) xp = xp \<and> close_calls 4 (history (snd xp)) = 1"
proof -
  let ?xp = "Listener_stopAccepting (reference_kernel demo_server) (demo_listener, demo_listening)"
  have "\<not> stopped_accepting demo_listener" "listener_socket_fd demo_listener = 4"
    "close_calls 4 (history demo_listening) = 0" by code_simp+
  with Listener_stops_once [of demo_listener "reference_kernel demo_server" demo_listening "fst ?xp" "snd ?xp"]
  show ?thesis by (simp add: Let_def)
qed

lemma accepted_count_eq: "accepted_count h = length (accepted h)"
proof (induction h)
  case (Cons e h)
  then show ?case by (cases e rule: event_accepted.cases) (auto simp: accepted_count_def)
qed (simp add: accepted_count_def)

lemma reference_serves: "serves_at_most (reference_kernel demo_server) demo_base 2"
proof -
  have "is_listening d (Ev_Poll ds t rs) = False" for d ds t rs by simp
  then show ?thesis
    by (auto simp: serves_at_most_def reference_kernel_def reference_poll_def entry_revents_def Let_def
        demo_base_def demo_server_def demo_script_def socket_ready_def accepted_count_eq
        datagram_count_def split: if_splits option.splits)
qed

theorem stopAccepting_returns_witness:
  "\<exists>y v q. ListenerBase_stopAccepting (reference_kernel demo_server)
     (recording (\<lambda>s. Inl (Runtime_Error ''busy''))) (demo_base, [], demo_listening) = Some (Inr (), (y, v, q)) \<and>
     stopped_accepting y"
proof -
  have "listening 0 demo_base demo_listening"
    by (simp add: listening_def demo_base_def demo_listening_def)
  moreover have "\<forall>h. \<exists>e. k_eventfd (reference_kernel demo_server) h = Inr e"
    by (simp add: reference_kernel_def)
  moreover have "0 \<le> listener_end_fd demo_base" "\<not> stopped_accepting demo_base"
    by (simp_all add: demo_base_def)
  ultimately show ?thesis
    using stopAccepting_returns [OF reference_eventfd_writable reference_poll_eventfd
        reference_poll_reports reference_fresh reference_serves recording_polite,
        of "\<lambda>s. Inl (Runtime_Error ''busy'')" demo_listening "[]"] by (auto simp: catchable_def)
qed

theorem handleIncomingStreams_serves_all_witness:
  "\<exists>r served q. handleIncomingStreams (reference_kernel demo_server) (recording (\<lambda>s. Inr ())) demo_base
     ([], post_stop (reference_kernel demo_server) demo_base demo_listening) = Some (r, (served, q)) \<and>
     served = accepted (history q)"
proof -
  let ?k = "reference_kernel demo_server"
  let ?p = "post_stop ?k demo_base demo_listening"
  have "listening 65535 demo_base ?p"
    using post_stop_value [OF reference_eventfd_writable, of 3 demo_listening 0 demo_server]
    by (simp add: listening_def post_stop_def demo_base_def demo_listening_def stop_semaphore_value_def)
  moreover have fds: "\<forall>h. \<exists>e. k_eventfd ?k h = Inr e" by (simp add: reference_kernel_def)
  moreover have "0 \<le> listener_end_fd demo_base" by (simp add: demo_base_def)
  moreover have ok: "\<forall>s. catchable ((\<lambda>s. Inr ()) s)" by (simp add: catchable_def)
  moreover from this have "polite demo_base (recording (\<lambda>s. Inr ()))" by (rule recording_polite)
  ultimately obtain v q where run: "handleIncomingStreams ?k (recording (\<lambda>s. Inr ())) demo_base ([], ?p) =
      Some (Inr (), (v, q))"
    using stopped_loop_ends [OF reference_poll_eventfd reference_poll_reports reference_fresh
        reference_serves, of "recording (\<lambda>s. Inr ())" 65535 ?p "[]"] by auto
  have "accepted (history ?p) = []"
    using post_stop_value [OF reference_eventfd_writable, of 3 demo_listening 0 demo_server]
    by (simp add: post_stop_def demo_base_def demo_listening_def)
  from handleIncomingStreams_serves_all [OF ok fds this run] run show ?thesis by blast
qed

theorem stopAccepting_hangs_when_accept_fails_witness:
  "ListenerBase_stopAccepting (accept_fails demo_server) (recording (\<lambda>s. Inr ()))
     (demo_base, [], demo_listening) = None"
proof (rule stopAccepting_hangs_when_accept_fails)
  show "\<exists>rs. k_poll (accept_fails demo_server) h (listener_fds demo_base) (-1) = Inr rs \<and> revents rs 0 \<noteq> 0" for h
    by (simp add: accept_fails_def)
  show "\<exists>e. k_accept (accept_fails demo_server) h (listener_socket_fd demo_base) = Inl e" for h
    by (simp add: accept_fails_def)
qed (simp_all add: demo_base_def)

theorem stopping_from_callback_witness:
  "\<exists>v q. handleIncomingStreams (reference_kernel demo_server) (last_client (reference_kernel demo_server) demo_base)
     demo_base ([], post_stop (reference_kernel demo_server) demo_base demo_listening) = Some (Inr (), (v, q)) \<and>
     4 \<in> open_fds (history q)"
proof -
  let ?k = "reference_kernel demo_server"
  have "listening 0 demo_base demo_listening" "0 \<le> listener_end_fd demo_base" "task_joinable demo_base"
    "\<not> stopped_accepting demo_base" "listener_socket_fd demo_base = 4"
    by (simp_all add: listening_def demo_base_def demo_listening_def)
  moreover have "\<forall>h. \<exists>e. k_eventfd ?k h = Inr e" by (simp add: reference_kernel_def)
  moreover have "snd (snd (stopAccepting_by_callback ?k (demo_base, demo_listening))) =
      post_stop ?k demo_base demo_listening"
    by (simp add: stopAccepting_by_callback_def demo_base_def)
  ultimately show ?thesis
    using stopping_from_callback [OF reference_eventfd_writable reference_poll_eventfd reference_poll_reports
        reference_fresh reference_serves, of demo_listening "[]"] by simp
qed

end
