(* ===== verification/Listener_Threads.thy ===== *)
theory Listener_Threads
  imports Listener_Serving System_Calls
begin

text \<open>
  The listeners and the threads that use them. \<open>ListenerBase\<close> has a serving thread, which
  \<open>stopAccepting\<close> joins before it closes the socket; \<open>Listener\<close> is called by threads of the
  client, and its \<open>stopAccepting\<close> closes the socket under them. A step is one system call, or one
  access to an atomic member; between any two steps of a thread the others may take theirs, and
  the rest of the process may make any system call that is not about the listener's descriptors.
\<close>

section \<open>Calls that leave a listener alone\<close>

fun spares :: "('a) Listener_scheme \<Rightarrow> event \<Rightarrow> bool" where
  "spares x (Ev_Accept d a) = (d \<noteq> listener_socket_fd x)"
| "spares x (Ev_Close d a) = (d \<noteq> listener_socket_fd x \<and> d \<noteq> listener_end_fd x)"
| "spares x (Ev_Eventfd_Write d v a) = (d \<noteq> listener_end_fd x)"
| "spares x (Ev_Eventfd_Read d a) = (d \<noteq> listener_end_fd x)"
| "spares x _ = True"

text \<open>The clients that were accepted on a listening socket.\<close>

fun event_clients :: "fd \<Rightarrow> event \<Rightarrow> fd list" where
  "event_clients l (Ev_Accept l' (Inr d)) = (if l' = l then [d] else [])"
| "event_clients l _ = []"

definition clients_of :: "fd \<Rightarrow> history \<Rightarrow> fd list" where
  "clients_of l h = concat (map (event_clients l) h)"

lemma clients_of_simps [simp]:
  "clients_of l [] = []" "clients_of l (h @ h') = clients_of l h @ clients_of l h'"
  "clients_of l (e # h) = event_clients l e @ clients_of l h"
  by (simp_all add: clients_of_def)

lemma spares_clients: "spares x ev \<Longrightarrow> event_clients (listener_socket_fd x) ev = []"
  by (cases "(listener_socket_fd x, ev)" rule: event_clients.cases) auto

lemma spares_no_close: "spares x ev \<Longrightarrow> \<not> is_close (listener_socket_fd x) ev"
  by (cases ev) auto

lemma open_step_keeps: "\<not> is_close d ev \<Longrightarrow> d \<in> D \<Longrightarrow> d \<in> open_step D ev"
  by (cases "(D, ev)" rule: open_step.cases) auto

text \<open>Calls that do not close a descriptor keep it open.\<close>

lemma no_close_keeps:
  assumes "list_all (\<lambda>ev. \<not> is_close d ev) evs"
  shows "close_calls d (h @ evs) = close_calls d h" and "d \<in> open_fds h \<Longrightarrow> d \<in> open_fds (h @ evs)"
proof -
  show "close_calls d (h @ evs) = close_calls d h"
    using assms by (simp add: close_calls_def list_all_iff filter_empty_conv)
  show "d \<in> open_fds (h @ evs)" if "d \<in> open_fds h"
    using assms that
  proof (induction evs rule: rev_induct)
    case (snoc ev evs)
    then show ?case using open_step_keeps [of d ev "open_fds (h @ evs)"] open_fds_snoc [of "h @ evs" ev]
      by simp
  qed simp
qed

text \<open>What the calls of the listeners add to a history.\<close>

lemma sys_poll_history: "sys_poll k ds t p = (r, q) \<Longrightarrow> \<exists>a. history q = history p @ [Ev_Poll ds t a]"
  by (auto simp: sys_poll_def syscall_def split: sum.splits)

lemma sys_accept_history:
  "sys_accept k l p = (r, q) \<Longrightarrow>
     history q = history p @ [Ev_Accept l (case r of None \<Rightarrow> Inl (errno q) | Some d \<Rightarrow> Inr d)]"
  by (auto simp: sys_accept_def syscall_def split: sum.splits)

lemma Stream_construct_history:
  assumes "Stream_construct k d p = (r, q)"
  shows "\<exists>a. history q = history p @ [Ev_Eventfd a] \<and>
    (\<forall>s. r = Inr s \<longrightarrow> stream_file_descriptor s = d \<and> a = Inr (stop_all_operations_event_fd s))"
  using assms by (auto simp: Stream_construct_def sys_eventfd_def syscall_def split: sum.splits option.splits prod.splits)


lemma post_stop_history: "\<exists>a. history (post_stop k x p) = history p @ [Ev_Eventfd_Write (listener_end_fd x) stop_semaphore_value a]"
  by (auto simp: post_stop_def sys_eventfd_write_def syscall_history)

lemma sys_close_history: "\<exists>a. history (snd (sys_close k d p)) = history p @ [Ev_Close d a]"
  by (auto simp: sys_close_def syscall_history)

section \<open>The serving thread of ListenerBase\<close>

text \<open>
  The serving thread: at its \<open>poll\<close>, at its \<open>accept\<close>, constructing the stream, in the callback,
  or not running. The stopping thread: outside \<open>stopAccepting\<close>, at its \<open>join\<close>, at its \<open>close\<close>,
  and at the store of \<open>stopped_accepting\<close>. The system calls of the callback are among those of
  the rest of the process.
\<close>

datatype server_pc = Looking | Taking_Client | Wrapping fd | Calling Stream | Left

datatype stop_pc = Not_Stopping | Joining | Closing_Socket | Marking

record serving =
  base :: ListenerBase
  serving_process :: process
  server :: server_pc
  stopping :: stop_pc

datatype serve_label = Silent | Taken fd | Dropped fd | Served Stream

inductive serve_step :: "kernel \<Rightarrow> serving \<Rightarrow> serve_label \<Rightarrow> serving \<Rightarrow> bool"
  for k where
  started: "startAccepting (base s) = (Inr (), x) \<Longrightarrow> \<not> stopped_accepting (base s) \<Longrightarrow>
    stopping s = Not_Stopping \<Longrightarrow>
    serve_step k s Silent (s\<lparr>base := x, server := Looking\<rparr>)"
| look_failed: "server s = Looking \<Longrightarrow>
    sys_poll k (listener_fds (base s)) (-1) (serving_process s) = (None, q) \<Longrightarrow>
    serve_step k s Silent (s\<lparr>serving_process := q\<rparr>)"
| client_waits: "server s = Looking \<Longrightarrow>
    sys_poll k (listener_fds (base s)) (-1) (serving_process s) = (Some rs, q) \<Longrightarrow> revents rs 0 \<noteq> 0 \<Longrightarrow>
    serve_step k s Silent (s\<lparr>serving_process := q, server := Taking_Client\<rparr>)"
| nothing_waits: "server s = Looking \<Longrightarrow>
    sys_poll k (listener_fds (base s)) (-1) (serving_process s) = (Some rs, q) \<Longrightarrow> revents rs 0 = 0 \<Longrightarrow>
    revents rs 1 = 0 \<Longrightarrow> serve_step k s Silent (s\<lparr>serving_process := q\<rparr>)"
| stop_seen: "server s = Looking \<Longrightarrow>
    sys_poll k (listener_fds (base s)) (-1) (serving_process s) = (Some rs, q) \<Longrightarrow> revents rs 0 = 0 \<Longrightarrow>
    revents rs 1 \<noteq> 0 \<Longrightarrow> serve_step k s Silent (s\<lparr>serving_process := q, server := Left\<rparr>)"
| not_accepted: "server s = Taking_Client \<Longrightarrow>
    sys_accept k (listener_socket_fd (base s)) (serving_process s) = (None, q) \<Longrightarrow>
    serve_step k s Silent (s\<lparr>serving_process := q, server := Looking\<rparr>)"
| client_taken: "server s = Taking_Client \<Longrightarrow>
    sys_accept k (listener_socket_fd (base s)) (serving_process s) = (Some d, q) \<Longrightarrow>
    serve_step k s (Taken d) (s\<lparr>serving_process := q, server := Wrapping d\<rparr>)"
| not_wrapped: "server s = Wrapping d \<Longrightarrow> Stream_construct k d (serving_process s) = (Inl e, q) \<Longrightarrow>
    serve_step k s (Dropped d) (s\<lparr>serving_process := q, server := Looking\<rparr>)"
| wrapped: "server s = Wrapping d \<Longrightarrow> Stream_construct k d (serving_process s) = (Inr stream, q) \<Longrightarrow>
    serve_step k s (Served stream) (s\<lparr>serving_process := q, server := Calling stream\<rparr>)"
| called: "server s = Calling stream \<Longrightarrow> serve_step k s Silent (s\<lparr>server := Looking\<rparr>)"
| stop_posted: "stopping s = Not_Stopping \<Longrightarrow> \<not> stopped_accepting (base s) \<Longrightarrow>
    serve_step k s Silent (s\<lparr>serving_process := post_stop k (base s) (serving_process s), stopping := Joining\<rparr>)"
| joined: "stopping s = Joining \<Longrightarrow> (task_joinable (base s) \<longrightarrow> server s = Left) \<Longrightarrow>
    serve_step k s Silent (s\<lparr>base := (base s)\<lparr>task_joinable := False\<rparr>, stopping := Closing_Socket\<rparr>)"
| socket_closed: "stopping s = Closing_Socket \<Longrightarrow>
    serve_step k s Silent (s\<lparr>serving_process := snd (sys_close k (listener_socket_fd (base s)) (serving_process s)),
      stopping := Marking\<rparr>)"
| marked: "stopping s = Marking \<Longrightarrow>
    serve_step k s Silent (s\<lparr>base := (base s)\<lparr>stopped_accepting := True\<rparr>, stopping := Not_Stopping\<rparr>)"
| elsewhere: "system_call k (serving_process s) ev q \<Longrightarrow> spares (base s) ev \<Longrightarrow>
    serve_step k s Silent (s\<lparr>serving_process := q\<rparr>)"

definition serve_start :: "ListenerBase \<Rightarrow> process \<Rightarrow> serving" where
  "serve_start x p = \<lparr>base = x, serving_process = p, server = Left, stopping = Not_Stopping\<rparr>"

text \<open>
  The thread runs only while the socket is open and nobody is behind the \<open>join\<close>. \<open>n\<close> is the
  number of times the socket's descriptor was closed before.
\<close>

definition serving_inv :: "nat \<Rightarrow> serving \<Rightarrow> bool" where
  "serving_inv n s = (let l = listener_socket_fd (base s); h = history (serving_process s);
      closed = (stopped_accepting (base s) \<or> stopping s = Marking) in
     (server s \<noteq> Left \<longrightarrow> task_joinable (base s)) \<and>
     (task_joinable (base s) \<longrightarrow> \<not> stopped_accepting (base s) \<and> stopping s \<in> {Not_Stopping, Joining}) \<and>
     (stopped_accepting (base s) \<longrightarrow> stopping s = Not_Stopping) \<and>
     (\<not> closed \<longrightarrow> l \<in> open_fds h) \<and> close_calls l h = n + (if closed then 1 else 0))"

text \<open>What a step adds to the history: its clients are its label's, and one step closes the socket.\<close>

fun label_taken :: "serve_label \<Rightarrow> fd list" where
  "label_taken (Taken d) = [d]"
| "label_taken _ = []"

lemma serve_step_history:
  assumes "serve_step k s l t"
  shows "\<exists>evs. history (serving_process t) = history (serving_process s) @ evs \<and>
    clients_of (listener_socket_fd (base s)) evs = label_taken l \<and>
    (if stopping s = Closing_Socket \<and> stopping t = Marking then \<exists>a. evs = [Ev_Close (listener_socket_fd (base s)) a]
     else list_all (\<lambda>ev. \<not> is_close (listener_socket_fd (base s)) ev) evs)"
  using assms
proof (cases rule: serve_step.cases)
  case (not_accepted q)
  with sys_accept_history [OF not_accepted(4)] show ?thesis by auto
next
  case (client_taken d q)
  with sys_accept_history [OF client_taken(4)] show ?thesis by auto
next
  case (not_wrapped d e q)
  with Stream_construct_history [OF not_wrapped(4)] show ?thesis by auto
next
  case (wrapped d stream q)
  with Stream_construct_history [OF wrapped(4)] show ?thesis by auto
next
  case stop_posted
  with post_stop_history [of k "base s" "serving_process s"] show ?thesis by auto
next
  case socket_closed
  with sys_close_history [of k "listener_socket_fd (base s)" "serving_process s"] show ?thesis by auto
next
  case (elsewhere ev q)
  with spares_no_close [OF elsewhere(4)] spares_clients [OF elsewhere(4)] show ?thesis
    by (auto simp: system_call_def)
qed (auto dest: sys_poll_history)

lemma serve_step_fds: "serve_step k s l t \<Longrightarrow> listener_fds (base t) = listener_fds (base s)"
  by (cases rule: serve_step.cases) (auto simp: startAccepting_def split: if_splits)

lemma serving_inv_step:
  assumes "serving_inv n s" and "serve_step k s l t"
  shows "serving_inv n t"
proof -
  obtain evs where h: "history (serving_process t) = history (serving_process s) @ evs"
    and evs: "if stopping s = Closing_Socket \<and> stopping t = Marking
      then \<exists>a. evs = [Ev_Close (listener_socket_fd (base s)) a]
      else list_all (\<lambda>ev. \<not> is_close (listener_socket_fd (base s)) ev) evs"
    using serve_step_history [OF assms(2)] by blast
  note kept = no_close_keeps [of "listener_socket_fd (base s)" evs "history (serving_process s)"]
  from assms(2) show ?thesis
    using assms(1) h evs kept serve_step_fds [OF assms(2)]
    by (cases rule: serve_step.cases)
      (auto simp: serving_inv_def Let_def startAccepting_def split: if_splits)
qed

lemma serving_inv_runs:
  assumes "runs (serve_step k) s ls t" and "serving_inv n s"
  shows "serving_inv n t \<and> listener_fds (base t) = listener_fds (base s)"
  using assms by (induction rule: runs.induct) (auto dest: serving_inv_step serve_step_fds)

lemma serving_inv_start:
  assumes "listener_socket_fd x \<in> open_fds (history p)" and "\<not> stopped_accepting x" and "\<not> task_joinable x"
  shows "serving_inv (close_calls (listener_socket_fd x) (history p)) (serve_start x p)"
  using assms by (simp add: serving_inv_def serve_start_def Let_def)

text \<open>The clients a run took off the socket, those it was done with, and the one in between.\<close>

fun label_handled :: "serve_label \<Rightarrow> fd list" where
  "label_handled (Dropped d) = [d]"
| "label_handled (Served stream) = [stream_file_descriptor stream]"
| "label_handled _ = []"

definition taken :: "serve_label list \<Rightarrow> fd list" where
  "taken ls = concat (map label_taken ls)"

definition handled :: "serve_label list \<Rightarrow> fd list" where
  "handled ls = concat (map label_handled ls)"

fun in_hand :: "server_pc \<Rightarrow> fd list" where
  "in_hand (Wrapping d) = [d]"
| "in_hand _ = []"

lemma taken_simps [simp]: "taken [] = []" "taken (ls @ [l]) = taken ls @ label_taken l"
  by (simp_all add: taken_def)

lemma handled_simps [simp]: "handled [] = []" "handled (ls @ [l]) = handled ls @ label_handled l"
  by (simp_all add: handled_def)

lemma serve_step_handles:
  assumes "serve_step k s l t" and "server s \<noteq> Left \<longrightarrow> task_joinable (base s)"
  shows "in_hand (server s) @ label_taken l = label_handled l @ in_hand (server t)"
  using assms
  by (cases rule: serve_step.cases)
    (auto simp: startAccepting_def dest: Stream_construct_history split: if_splits)

lemma serving_run_clients:
  assumes "runs (serve_step k) s ls t" and "serving_inv n s"
  shows "clients_of (listener_socket_fd (base s)) (history (serving_process t)) =
      clients_of (listener_socket_fd (base s)) (history (serving_process s)) @ taken ls \<and>
    in_hand (server s) @ taken ls = handled ls @ in_hand (server t)"
  using assms
proof (induction rule: runs.induct)
  case (runs_snoc s ls t l u)
  have inv: "serving_inv n t" and fds: "listener_fds (base t) = listener_fds (base s)"
    using serving_inv_runs [OF runs_snoc(1,4)] by simp_all
  then have "in_hand (server t) @ label_taken l = label_handled l @ in_hand (server u)"
    using serve_step_handles [OF runs_snoc(2)] by (simp add: serving_inv_def Let_def)
  moreover obtain evs where "history (serving_process u) = history (serving_process t) @ evs"
    "clients_of (listener_socket_fd (base t)) evs = label_taken l"
    using serve_step_history [OF runs_snoc(2)] by blast
  ultimately show ?case using runs_snoc fds by (metis append.assoc taken_simps(2) handled_simps(2)
      clients_of_simps(2) list.inject)
qed simp



text \<open>
  The loop by itself. A callback that only makes calls which leave the listener alone, and throws
  nothing but exceptions.
\<close>

definition behaves :: "kernel \<Rightarrow> ListenerBase \<Rightarrow> 'u callback \<Rightarrow> bool" where
  "behaves k x cb = (\<forall>stream u p r v q. cb stream (u, p) = (r, (v, q)) \<longrightarrow>
     catchable r \<and> executes k (spares x) p q)"

lemma executes_elsewhere:
  assumes "executes k (spares (base s)) (serving_process s) q"
  shows "\<exists>ls. runs (serve_step k) s ls (s\<lparr>serving_process := q\<rparr>)"
proof -
  from assms obtain evs where "runs (system_call k) (serving_process s) evs q" "list_all (spares (base s)) evs"
    by (auto simp: executes_def)
  then show ?thesis
  proof (induction "serving_process s" evs q rule: runs.induct)
    case runs_Nil
    then show ?case by (intro exI [of _ "[]"]) simp
  next
    case (runs_snoc evs q ev u)
    then obtain ls where "runs (serve_step k) s ls (s\<lparr>serving_process := q\<rparr>)" by auto
    from runs.runs_snoc [OF this serve_step.elsewhere [of k "s\<lparr>serving_process := q\<rparr>" ev u]] runs_snoc
    show ?case by auto
  qed
qed

definition reaches :: "kernel \<Rightarrow> serving \<Rightarrow> serving \<Rightarrow> bool" where
  "reaches k s t = (\<exists>ls. runs (serve_step k) s ls t)"

lemma reaches_step: "serve_step k s l t \<Longrightarrow> reaches k s t"
  unfolding reaches_def by (rule runs_one)

lemma reaches_trans [trans]: "reaches k s t \<Longrightarrow> reaches k t u \<Longrightarrow> reaches k s u"
  unfolding reaches_def by (blast intro: runs_append)

lemma Stream_construct_throws: "Stream_construct k d p = (Inl e, q) \<Longrightarrow> catchable (Inl e :: error + unit)"
  by (auto simp: Stream_construct_def catchable_def split: option.splits prod.splits)

text \<open>A client that was accepted.\<close>

lemma wrapping_reaches:
  assumes "behaves k x cb" and "Stream_construct k d p = (st, p')"
    and "(case st of Inl e \<Rightarrow> swallow (Inl e, (u, p')) | Inr stream \<Rightarrow> swallow (cb stream (u, p'))) = (r, (v, q))"
    and "base s = x" and "serving_process s = p" and "server s = Wrapping d"
  shows "r = Inr False \<and> reaches k s (s\<lparr>serving_process := q, server := Looking\<rparr>)"
proof (cases st)
  case (Inl e)
  with swallow_catchable [of "(Inl e, (u, p'))"] Stream_construct_throws [of k d p e p'] assms(2,3)
  have "r = Inr False" "q = p'" by simp_all
  with serve_step.not_wrapped [of s d k e p'] assms(2,5,6) Inl show ?thesis by (simp add: reaches_step)
next
  case (Inr stream)
  let ?c = "s\<lparr>serving_process := p', server := Calling stream\<rparr>"
  obtain r' v' q' where cb: "cb stream (u, p') = (r', (v', q'))" by (metis prod_cases3)
  with assms(1) have ok: "catchable r'" "executes k (spares x) p' q'" unfolding behaves_def by blast+
  with swallow_catchable [of "(r', (v', q'))"] assms(3) Inr cb have res: "r = Inr False" "q = q'" by simp_all
  have "serve_step k s (Served stream) ?c" using serve_step.wrapped assms(2,5,6) Inr by simp
  moreover have "reaches k ?c (?c\<lparr>serving_process := q'\<rparr>)"
    unfolding reaches_def using executes_elsewhere [of k ?c q'] ok(2) assms(4) by simp
  moreover have "serve_step k (?c\<lparr>serving_process := q'\<rparr>) Silent (s\<lparr>serving_process := q', server := Looking\<rparr>)"
    using serve_step.called [of "?c\<lparr>serving_process := q'\<rparr>" stream k] by simp
  ultimately show ?thesis using res by (blast intro: reaches_step reaches_trans)
qed

lemma taking_reaches:
  assumes "behaves k x cb" and "sys_accept k (listener_socket_fd x) p = (a, p')"
    and "(case a of None \<Rightarrow> (Inr False, (u, p')) | Some d \<Rightarrow> (case Stream_construct k d p' of
       (Inl e, w) \<Rightarrow> swallow (Inl e, (u, w)) | (Inr stream, w) \<Rightarrow> swallow (cb stream (u, w)))) = (r, (v, q))"
    and "base s = x" and "serving_process s = p" and "server s = Taking_Client"
  shows "r = Inr False \<and> reaches k s (s\<lparr>serving_process := q, server := Looking\<rparr>)"
proof (cases a)
  case None
  with assms(2-6) serve_step.not_accepted [of s k p'] show ?thesis by (auto intro: reaches_step)
next
  case (Some d)
  let ?w = "s\<lparr>serving_process := p', server := Wrapping d\<rparr>"
  have "reaches k s ?w" using serve_step.client_taken [of s k d p'] assms(2-6) Some by (simp add: reaches_step)
  moreover obtain st w where "Stream_construct k d p' = (st, w)" by (meson surj_pair)
  with wrapping_reaches [OF assms(1) this, of u r v q ?w] assms(3,4) Some
  have "r = Inr False \<and> reaches k ?w (?w\<lparr>serving_process := q, server := Looking\<rparr>)"
    by (simp split: sum.splits)
  ultimately show ?thesis by (auto intro: reaches_trans)
qed

lemma incoming_round_reaches:
  assumes "behaves k x cb" and "incoming_round k cb x (u, p) = (r, (v, q))"
    and "base s = x" and "serving_process s = p" and "server s = Looking"
  shows "\<exists>b. r = Inr b \<and> reaches k s (s\<lparr>serving_process := q, server := if b then Left else Looking\<rparr>)"
proof -
  obtain ps q1 where poll: "sys_poll k (listener_fds x) (-1) p = (ps, q1)" by (meson surj_pair)
  have stay: "s\<lparr>serving_process := q', server := Looking\<rparr> = s\<lparr>serving_process := q'\<rparr>" for q'
    using assms(5) by (cases s) simp
  show ?thesis
  proof (cases ps)
    case None
    have "reaches k s (s\<lparr>serving_process := q1, server := Looking\<rparr>)"
      unfolding stay using assms(3-5) poll None by (auto intro!: reaches_step [OF serve_step.look_failed])
    with assms(2) poll None show ?thesis by (intro exI [of _ False]) (auto simp: incoming_round_def)
  next
    case (Some rs)
    consider "revents rs 0 \<noteq> 0" | "revents rs 0 = 0" "revents rs 1 = 0" | "revents rs 0 = 0" "revents rs 1 \<noteq> 0"
      by blast
    then show ?thesis
    proof cases
      case 1
      let ?t = "s\<lparr>serving_process := q1, server := Taking_Client\<rparr>"
      have "reaches k s ?t"
        using assms(3-5) poll Some 1 serve_step.client_waits [of s k rs q1] by (simp add: reaches_step)
      moreover obtain a w where "sys_accept k (listener_socket_fd x) q1 = (a, w)" by (meson surj_pair)
      with taking_reaches [OF assms(1) this, of u r v q ?t] assms(2,3) poll Some 1
      have "r = Inr False \<and> reaches k ?t (?t\<lparr>serving_process := q, server := Looking\<rparr>)"
        by (simp add: incoming_round_def cong: option.case_cong prod.case_cong sum.case_cong)
      ultimately show ?thesis by (intro exI [of _ False]) (auto intro: reaches_trans)
    next
      case 2
      have "reaches k s (s\<lparr>serving_process := q1, server := Looking\<rparr>)"
        unfolding stay using assms(3-5) poll Some 2 by (auto intro!: reaches_step [OF serve_step.nothing_waits])
      with assms(2) poll Some 2 show ?thesis by (intro exI [of _ False]) (auto simp: incoming_round_def)
    next
      case 3
      with assms(2-5) poll Some serve_step.stop_seen [of s k rs q1] show ?thesis
        by (intro exI [of _ True]) (simp add: incoming_round_def reaches_step)
    qed
  qed
qed

lemma serving_loop_reaches:
  assumes "behaves k x cb" and "handleIncomingStreams k cb x (u, p) = Some (r, (v, q))"
    and "base s = x" and "serving_process s = p" and "server s = Looking"
  shows "r = Inr () \<and> reaches k s (s\<lparr>serving_process := q, server := Left\<rparr>)"
proof -
  have round: "\<exists>b. r = Inr b \<and> reaches k s (s\<lparr>serving_process := snd vq, server := if b then Left else Looking\<rparr>)"
    if "incoming_round k cb x up = (r, vq)" "base s = x" "serving_process s = snd up" "server s = Looking"
    for up r vq s
    using incoming_round_reaches [OF assms(1), of "fst up" "snd up" r "fst vq" "snd vq" s] that by simp
  have "\<forall>s. base s = x \<longrightarrow> serving_process s = snd up \<longrightarrow> server s = Looking \<longrightarrow>
      fst y = Inr () \<and> reaches k s (s\<lparr>serving_process := snd (snd y), server := Left\<rparr>)"
    if "handleIncomingStreams k cb x up = Some y" for up y
    using that
  proof (induction rule: handleIncomingStreams_run)
    case (failed up e vq)
    then show ?case using round by blast
  next
    case (finished up vq)
    show ?case
    proof (intro allI impI)
      fix s :: serving assume s: "base s = x" "serving_process s = snd up" "server s = Looking"
      from round [OF finished s] show "fst (Inr (), vq) = Inr () \<and>
        reaches k s (s\<lparr>serving_process := snd (snd (Inr (), vq)), server := Left\<rparr>)" by auto
    qed
  next
    case (again up vq y)
    show ?case
    proof (intro allI impI)
      fix s :: serving assume s: "base s = x" "serving_process s = snd up" "server s = Looking"
      let ?t = "s\<lparr>serving_process := snd vq, server := Looking\<rparr>"
      from round [OF again(1) s] have "reaches k s ?t" by auto
      moreover have "fst y = Inr () \<and> reaches k ?t (?t\<lparr>serving_process := snd (snd y), server := Left\<rparr>)"
        using again(2) [rule_format, of ?t] s(1) by simp
      ultimately show "fst y = Inr () \<and> reaches k s (s\<lparr>serving_process := snd (snd y), server := Left\<rparr>)"
        by (auto intro: reaches_trans)
    qed
  qed
  from this [OF assms(2)] assms(3-5) show ?thesis by simp
qed

text \<open>
  The serving loop refines the steps: a call of \<open>handleIncomingStreams\<close> that ends, with a
  callback that leaves the listener alone, ends normally and is a run of the steps of the serving
  thread from its \<open>poll\<close> to its end, in which nobody else takes part but the callback.
\<close>

theorem serving_loop_refines_steps:
  assumes "behaves k x cb" and "handleIncomingStreams k cb x (u, p) = Some (r, (v, q))"
    and "base s = x" and "serving_process s = p" and "server s = Looking"
  shows "r = Inr () \<and> (\<exists>ls. runs (serve_step k) s ls (s\<lparr>serving_process := q, server := Left\<rparr>))"
  using serving_loop_reaches [OF assms] by (simp add: reaches_def)

section \<open>Witnesses\<close>

lemma recording_behaves: "\<forall>s. catchable (f s) \<Longrightarrow> behaves k x (recording f)"
  by (auto simp: behaves_def recording_def)

text \<open>The stop request is posted while two clients wait, and the thread serves them first.\<close>

lemma demo_loop:
  "\<exists>v q. handleIncomingStreams (reference_kernel demo_server) (recording (\<lambda>s. Inr ())) demo_base
     ([], post_stop (reference_kernel demo_server) demo_base demo_listening) = Some (Inr (), (v, q))"
proof -
  have "listening 65535 demo_base (post_stop (reference_kernel demo_server) demo_base demo_listening)"
    using post_stop_value [OF reference_eventfd_writable, of 3 demo_listening 0 demo_server]
    by (simp add: listening_def post_stop_def demo_base_def demo_listening_def stop_semaphore_value_def)
  then show ?thesis
    using stopped_loop_ends [OF reference_poll_eventfd reference_poll_reports reference_fresh
        reference_serves recording_polite [of "\<lambda>s. Inr ()"], where n = 65535 and u = "[]"]
    by (fastforce simp: catchable_def demo_base_def reference_kernel_def)
qed

theorem serving_loop_refines_steps_witness:
  "\<exists>q ls. runs (serve_step (reference_kernel demo_server))
     \<lparr>base = demo_base, serving_process = post_stop (reference_kernel demo_server) demo_base demo_listening,
       server = Looking, stopping = Joining\<rparr> ls
     \<lparr>base = demo_base, serving_process = q, server = Left, stopping = Joining\<rparr>"
proof -
  let ?k = "reference_kernel demo_server"
  let ?s = "\<lparr>base = demo_base, serving_process = post_stop ?k demo_base demo_listening,
    server = Looking, stopping = Joining\<rparr>"
  obtain v q where "handleIncomingStreams ?k (recording (\<lambda>s. Inr ())) demo_base
      ([], post_stop ?k demo_base demo_listening) = Some (Inr (), (v, q))" using demo_loop by blast
  from serving_loop_refines_steps [OF recording_behaves this, of ?s] show ?thesis
    by (auto simp: catchable_def)
qed

definition demo_unstarted :: ListenerBase where
  "demo_unstarted = demo_base\<lparr>task_joinable := False\<rparr>"

lemma demo_serving_run:
  "\<exists>ls s. runs (serve_step (reference_kernel demo_server)) (serve_start demo_unstarted demo_listening) ls s \<and>
     stopped_accepting (base s)"
proof -
  let ?k = "reference_kernel demo_server"
  let ?s0 = "serve_start demo_unstarted demo_listening"
  let ?s1 = "?s0\<lparr>base := demo_base, server := Looking\<rparr>"
  let ?s2 = "?s1\<lparr>serving_process := post_stop ?k demo_base demo_listening, stopping := Joining\<rparr>"
  obtain v q where loop: "handleIncomingStreams ?k (recording (\<lambda>s. Inr ())) demo_base
      ([], post_stop ?k demo_base demo_listening) = Some (Inr (), (v, q))" using demo_loop by blast
  let ?s3 = "?s2\<lparr>serving_process := q, server := Left\<rparr>"
  let ?s4 = "?s3\<lparr>base := demo_unstarted, stopping := Closing_Socket\<rparr>"
  let ?s5 = "?s4\<lparr>serving_process := snd (sys_close ?k 4 q), stopping := Marking\<rparr>"
  let ?s6 = "?s5\<lparr>base := demo_unstarted\<lparr>stopped_accepting := True\<rparr>, stopping := Not_Stopping\<rparr>"
  have "reaches ?k ?s0 ?s1"
    by (rule reaches_step [OF serve_step.started])
      (simp_all add: serve_start_def startAccepting_def demo_unstarted_def demo_base_def)
  also have "reaches ?k ?s1 ?s2"
    using serve_step.stop_posted [of ?s1 ?k] by (intro reaches_step) (simp add: serve_start_def demo_base_def)
  also have "reaches ?k ?s2 ?s3"
    using serving_loop_reaches [OF recording_behaves loop, of ?s2] by (simp add: catchable_def)
  also have "reaches ?k ?s3 ?s4"
    using serve_step.joined [of ?s3 ?k] by (intro reaches_step) (simp add: demo_unstarted_def)
  also have "reaches ?k ?s4 ?s5"
    using serve_step.socket_closed [of ?s4 ?k]
    by (intro reaches_step) (simp add: demo_unstarted_def demo_base_def)
  also have "reaches ?k ?s5 ?s6"
    using serve_step.marked [of ?s5 ?k] by (intro reaches_step) (simp add: demo_unstarted_def)
  finally obtain ls where "runs (serve_step ?k) ?s0 ls ?s6" unfolding reaches_def by blast
  then show ?thesis by (intro exI conjI) (assumption, simp)
qed

lemma demo_unstarted_ready:
  "listener_socket_fd demo_unstarted \<in> open_fds (history demo_listening)"
  "\<not> stopped_accepting demo_unstarted" "\<not> task_joinable demo_unstarted"
  "close_calls (listener_socket_fd demo_unstarted) (history demo_listening) = 0"
  by (simp_all add: demo_unstarted_def demo_base_def demo_listening_def)



end
