(* ===== verification/Listener_Accepting.thy ===== *)
theory Listener_Accepting
  imports Listener_Threads
begin

text \<open>
  A \<open>Listener\<close> shared by threads that call \<open>accept\<close> and threads that call \<open>stopAccepting\<close>. There
  is no lock and no join: the steps are single system calls and accesses to
  \<open>stopped_accepting\<close>, and a socket that is closed frees its descriptor number for the rest of
  the process.
\<close>

section \<open>States and steps\<close>

text \<open>
  Where thread \<open>i\<close> is in \<open>accept(timeout)\<close>: outside, at the \<open>poll\<close>, at the \<open>::accept\<close>, or with a
  client that has no stream yet; and where it is in \<open>stopAccepting\<close>, behind its test of
  \<open>stopped_accepting\<close>. A label tells when a client was taken, and what \<open>accept\<close> returned or threw,
  with the client it is about. The \<open>errno\<close> in an exception that no call has set is left open.
\<close>

datatype accepter = Outside | Polling int | Choosing | Holding fd

datatype stopper = Idle | Posting_Stop | Closing | Storing

record accepting =
  shared :: Listener
  common :: process
  accepters :: "nat \<Rightarrow> accepter"
  stoppers :: "nat \<Rightarrow> stopper"

datatype accept_label = Quiet | Took nat fd | Gave nat "fd option" "error + Stream"

abbreviation moves :: "nat \<Rightarrow> accepter \<Rightarrow> process \<Rightarrow> accepting \<Rightarrow> accepting" where
  "moves i a q s \<equiv> s\<lparr>common := q, accepters := (accepters s)(i := a)\<rparr>"

inductive accept_step :: "kernel \<Rightarrow> accepting \<Rightarrow> accept_label \<Rightarrow> accepting \<Rightarrow> bool"
  for k where
  accept_called: "accepters s i = Outside \<Longrightarrow> accept_step k s Quiet (moves i (Polling t) (common s) s)"
| accept_poll_failed: "accepters s i = Polling t \<Longrightarrow>
    sys_poll k (listener_fds (shared s)) t (common s) = (None, q) \<Longrightarrow>
    accept_step k s (Gave i None (Inl (socket_exception SOCKET_POLL (errno q) (-1)))) (moves i Outside q s)"
| accept_client_waits: "accepters s i = Polling t \<Longrightarrow>
    sys_poll k (listener_fds (shared s)) t (common s) = (Some rs, q) \<Longrightarrow> revents rs 0 \<noteq> 0 \<Longrightarrow>
    accept_step k s Quiet (moves i Choosing q s)"
| accept_stop_seen: "accepters s i = Polling t \<Longrightarrow>
    sys_poll k (listener_fds (shared s)) t (common s) = (Some rs, q) \<Longrightarrow> revents rs 0 = 0 \<Longrightarrow>
    revents rs 1 \<noteq> 0 \<Longrightarrow>
    accept_step k s (Gave i None (Inl (socket_exception SOCKET_TERMINATION_REQUEST e (-1)))) (moves i Outside q s)"
| accept_timed_out: "accepters s i = Polling t \<Longrightarrow>
    sys_poll k (listener_fds (shared s)) t (common s) = (Some rs, q) \<Longrightarrow> revents rs 0 = 0 \<Longrightarrow>
    revents rs 1 = 0 \<Longrightarrow>
    accept_step k s (Gave i None (Inl (socket_exception SOCKET_ACCEPT e (-1)))) (moves i Outside q s)"
| accept_failed: "accepters s i = Choosing \<Longrightarrow>
    sys_accept k (listener_socket_fd (shared s)) (common s) = (None, q) \<Longrightarrow>
    accept_step k s (Gave i None (Inl (socket_exception SOCKET_ACCEPT (errno q) (-1)))) (moves i Outside q s)"
| accept_took: "accepters s i = Choosing \<Longrightarrow>
    sys_accept k (listener_socket_fd (shared s)) (common s) = (Some d, q) \<Longrightarrow>
    accept_step k s (Took i d) (moves i (Holding d) q s)"
| accept_gave: "accepters s i = Holding d \<Longrightarrow> Stream_construct k d (common s) = (r, q) \<Longrightarrow>
    accept_step k s (Gave i (Some d) r) (moves i Outside q s)"
| stop_called: "stoppers s i = Idle \<Longrightarrow> \<not> stopped_accepting (shared s) \<Longrightarrow>
    accept_step k s Quiet (s\<lparr>stoppers := (stoppers s)(i := Posting_Stop)\<rparr>)"
| stop_posts: "stoppers s i = Posting_Stop \<Longrightarrow>
    accept_step k s Quiet (s\<lparr>common := post_stop k (shared s) (common s), stoppers := (stoppers s)(i := Closing)\<rparr>)"
| stop_closes: "stoppers s i = Closing \<Longrightarrow>
    accept_step k s Quiet (s\<lparr>common := snd (sys_close k (listener_socket_fd (shared s)) (common s)),
      stoppers := (stoppers s)(i := Storing)\<rparr>)"
| stop_stores: "stoppers s i = Storing \<Longrightarrow>
    accept_step k s Quiet (s\<lparr>shared := (shared s)\<lparr>stopped_accepting := True\<rparr>, stoppers := (stoppers s)(i := Idle)\<rparr>)"
| other_call: "system_call k (common s) ev q \<Longrightarrow> spares (shared s) ev \<Longrightarrow>
    accept_step k s Quiet (s\<lparr>common := q\<rparr>)"

definition accept_start :: "Listener \<Rightarrow> process \<Rightarrow> accepting" where
  "accept_start x p = \<lparr>shared = x, common = p, accepters = (\<lambda>_. Outside), stoppers = (\<lambda>_. Idle)\<rparr>"

section \<open>Every client goes to one caller\<close>

fun label_took :: "accept_label \<Rightarrow> (nat \<times> fd) list" where
  "label_took (Took i d) = [(i, d)]"
| "label_took _ = []"

fun label_gave :: "accept_label \<Rightarrow> (nat \<times> fd) list" where
  "label_gave (Gave i (Some d) r) = [(i, d)]"
| "label_gave _ = []"

definition took :: "accept_label list \<Rightarrow> (nat \<times> fd) list" where
  "took ls = concat (map label_took ls)"

definition gave :: "accept_label list \<Rightarrow> (nat \<times> fd) list" where
  "gave ls = concat (map label_gave ls)"

definition by_thread :: "nat \<Rightarrow> (nat \<times> fd) list \<Rightarrow> fd list" where
  "by_thread i xs = map snd (filter (\<lambda>x. fst x = i) xs)"

fun held :: "accepter \<Rightarrow> fd list" where
  "held (Holding d) = [d]"
| "held _ = []"

lemma took_simps [simp]: "took [] = []" "took (ls @ [l]) = took ls @ label_took l"
  by (simp_all add: took_def)

lemma gave_simps [simp]: "gave [] = []" "gave (ls @ [l]) = gave ls @ label_gave l"
  by (simp_all add: gave_def)

lemma by_thread_simps [simp]:
  "by_thread i [] = []" "by_thread i (xs @ ys) = by_thread i xs @ by_thread i ys"
  "by_thread i (x # xs) = (if fst x = i then snd x # by_thread i xs else by_thread i xs)"
  by (simp_all add: by_thread_def)

text \<open>What \<open>accept\<close> returns is about the client it took, and without a client it throws.\<close>

fun honest :: "accept_label \<Rightarrow> bool" where
  "honest (Gave i (Some d) (Inr s)) = (stream_file_descriptor s = d)"
| "honest (Gave i None (Inr s)) = False"
| "honest _ = True"

lemma accept_step_account:
  assumes "accept_step k s l t"
  shows "listener_fds (shared t) = listener_fds (shared s)" and "honest l"
    and "clients_of (listener_socket_fd (shared s)) (history (common t)) =
      clients_of (listener_socket_fd (shared s)) (history (common s)) @ map snd (label_took l)"
    and "held (accepters s i) @ by_thread i (label_took l) = by_thread i (label_gave l) @ held (accepters t i)"
proof -
  show "listener_fds (shared t) = listener_fds (shared s)"
    using assms by (cases rule: accept_step.cases) simp_all
  show "held (accepters s i) @ by_thread i (label_took l) = by_thread i (label_gave l) @ held (accepters t i)"
    using assms by (cases rule: accept_step.cases) auto
  show "honest l"
    using assms
  proof (cases rule: accept_step.cases)
    case (accept_gave i d r q)
    then show ?thesis by (cases r) (auto dest: Stream_construct_history)
  qed simp_all
  show "clients_of (listener_socket_fd (shared s)) (history (common t)) =
      clients_of (listener_socket_fd (shared s)) (history (common s)) @ map snd (label_took l)"
    using assms
  proof (cases rule: accept_step.cases)
    case (stop_posts i)
    with post_stop_history [of k "shared s" "common s"] show ?thesis by auto
  next
    case (stop_closes i)
    with sys_close_history [of k "listener_socket_fd (shared s)" "common s"] show ?thesis by auto
  next
    case (other_call ev q)
    with spares_clients [OF other_call(4)] show ?thesis by (auto simp: system_call_def)
  qed (auto dest: sys_poll_history sys_accept_history Stream_construct_history)
qed

text \<open>
  C29: threads that share a \<open>Listener\<close>. However calls of \<open>accept\<close> and \<open>stopAccepting\<close> interleave,
  the clients accepted since the start are divided among the calls: each thread has returned,
  in order, from the clients it took, but for one it may still hold; a stream that \<open>accept\<close>
  returns is on the client its own call took; and a call that took none throws.
\<close>

theorem concurrent_accepts_share_clients:
  assumes "runs (accept_step k) (accept_start x p) ls s"
  shows "clients_of (listener_socket_fd x) (history (common s)) =
      clients_of (listener_socket_fd x) (history p) @ map snd (took ls) \<and>
    (\<forall>i. by_thread i (took ls) = by_thread i (gave ls) @ held (accepters s i)) \<and>
    (\<forall>i d stream. Gave i (Some d) (Inr stream) \<in> set ls \<longrightarrow> stream_file_descriptor stream = d) \<and>
    (\<forall>i r. Gave i None r \<in> set ls \<longrightarrow> (\<exists>e. r = Inl e))"
proof -
  have account: "listener_fds (shared s) = listener_fds x \<and>
    clients_of (listener_socket_fd x) (history (common s)) =
      clients_of (listener_socket_fd x) (history p) @ map snd (took ls) \<and>
    (\<forall>i. by_thread i (took ls) = by_thread i (gave ls) @ held (accepters s i)) \<and> list_all honest ls"
    using assms
  proof (induction "accept_start x p" ls s rule: runs.induct)
    case runs_Nil
    then show ?case by (simp add: accept_start_def)
  next
    case (runs_snoc ls s l t)
    note step = accept_step_account [OF runs_snoc(3)]
    have "by_thread i (took (ls @ [l])) = by_thread i (gave (ls @ [l])) @ held (accepters t i)" for i
      using runs_snoc(2) step(4) [of i] by simp
    moreover have "listener_socket_fd (shared s) = listener_socket_fd x" using runs_snoc(2) by simp
    ultimately show ?case using runs_snoc(2) step(1-3) by simp
  qed
  then have honest: "honest l" if "l \<in> set ls" for l using that by (simp add: list_all_iff)
  have "\<exists>e. r = Inl e" if "Gave i None r \<in> set ls" for i r
    using honest [OF that] by (cases r) simp_all
  moreover have "stream_file_descriptor stream = d" if "Gave i (Some d) (Inr stream) \<in> set ls" for i d stream
    using honest [OF that] by simp
  ultimately show ?thesis using account by blast
qed

section \<open>Calls by themselves\<close>

lemmas accept_single = runs_single [where step = "accept_step k" for k]
lemmas accept_snoc = runs_snoc [where step = "accept_step k" for k]
lemmas accept_Cons = runs_Cons [where step = "accept_step k" for k]

lemma stop_runs:
  assumes "stoppers s i = Idle" and "\<not> stopped_accepting (shared s)"
    and "Listener_stopAccepting k (shared s, common s) = (y, q)"
  shows "runs (accept_step k) s [Quiet, Quiet, Quiet, Quiet] (s\<lparr>shared := y, common := q\<rparr>)"
proof -
  let ?s1 = "s\<lparr>stoppers := (stoppers s)(i := Posting_Stop)\<rparr>"
  let ?s2 = "?s1\<lparr>common := post_stop k (shared s) (common s), stoppers := (stoppers ?s1)(i := Closing)\<rparr>"
  let ?s3 = "?s2\<lparr>common := q, stoppers := (stoppers ?s2)(i := Storing)\<rparr>"
  let ?s4 = "?s3\<lparr>shared := y, stoppers := (stoppers ?s3)(i := Idle)\<rparr>"
  have y: "y = (shared s)\<lparr>stopped_accepting := True\<rparr>"
    and q: "q = snd (sys_close k (listener_socket_fd (shared s)) (post_stop k (shared s) (common s)))"
    using assms(2,3) by (auto simp: Listener_stopAccepting_def)
  have steps: "accept_step k s Quiet ?s1" "accept_step k ?s1 Quiet ?s2" "accept_step k ?s2 Quiet ?s3"
    "accept_step k ?s3 Quiet ?s4"
    using stop_called [OF assms(1,2)] stop_posts [of ?s1 i k] stop_closes [of ?s2 i k] stop_stores [of ?s3 i k]
    by (simp_all add: y q)
  have home: "?s4 = s\<lparr>shared := y, common := q\<rparr>" using assms(1) by (cases s) auto
  from accept_Cons [OF steps(1) accept_Cons [OF steps(2) accept_Cons [OF steps(3) accept_single [OF steps(4)]]]]
  show ?thesis unfolding home .
qed

lemma accept_ends_at_poll:
  assumes "accepters s i = Polling t" and "sys_poll k (listener_fds (shared s)) t (common s) = (ps, p)"
    and "\<not> (\<exists>rs. ps = Some rs \<and> revents rs 0 \<noteq> 0)"
    and "Listener_accept k (shared s) t (common s) = (r, q)"
  shows "accept_step k s (Gave i None r) (moves i Outside q s)"
proof (cases ps)
  case None
  with assms(2,4) have "r = Inl (socket_exception SOCKET_POLL (errno q) (-1))" "p = q"
    by (auto simp: Listener_accept_def)
  with accept_poll_failed [OF assms(1), of k q] assms(2) None show ?thesis by simp
next
  case (Some rs)
  with assms(3) have no: "revents rs 0 = 0" by simp
  show ?thesis
  proof (cases "revents rs 1 = 0")
    case True
    with assms(2,4) Some no have "r = Inl (socket_exception SOCKET_ACCEPT (errno q) (-1))" "p = q"
      by (auto simp: Listener_accept_def)
    with accept_timed_out [OF assms(1), of k rs q "errno q"] assms(2) Some no True show ?thesis by simp
  next
    case False
    with assms(2,4) Some no have "r = Inl (socket_exception SOCKET_TERMINATION_REQUEST (errno q) (-1))" "p = q"
      by (auto simp: Listener_accept_def)
    with accept_stop_seen [OF assms(1), of k rs q "errno q"] assms(2) Some no False show ?thesis by simp
  qed
qed

lemma accept_runs:
  assumes "accepters s i = Outside" and "Listener_accept k (shared s) t (common s) = (r, q)"
  shows "\<exists>ls d. runs (accept_step k) s (ls @ [Gave i d r]) (s\<lparr>common := q\<rparr>) \<and> gave ls = []"
proof -
  let ?c = "moves i (Polling t) (common s) s"
  let ?e = "moves i Outside q ?c"
  have home: "?e = s\<lparr>common := q\<rparr>" using assms(1) by (cases s) auto
  have call: "accept_step k s Quiet ?c" using assms(1) by (rule accept_called)
  obtain ps q1 where poll: "sys_poll k (listener_fds (shared s)) t (common s) = (ps, q1)" by (meson surj_pair)
  show ?thesis
  proof (cases "\<exists>rs. ps = Some rs \<and> revents rs 0 \<noteq> 0")
    case False
    have "accept_step k ?c (Gave i None r) ?e"
      using accept_ends_at_poll [of ?c i t k ps q1 r q] poll False assms(2) by simp
    from accept_Cons [OF call accept_single [OF this]] show ?thesis
      unfolding home by (intro exI [of _ "[Quiet]"] exI [of _ None]) (simp add: gave_def)
  next
    case True
    then obtain rs where rs: "ps = Some rs" "revents rs 0 \<noteq> 0" by blast
    let ?w = "moves i Choosing q1 ?c"
    have "accept_step k ?c Quiet ?w"
      using poll rs by (intro accept_client_waits [where t = t and rs = rs]) simp_all
    note upto = accept_Cons [OF call accept_single [OF this]]
    obtain a q2 where acc: "sys_accept k (listener_socket_fd (shared s)) q1 = (a, q2)" by (meson surj_pair)
    show ?thesis
    proof (cases a)
      case None
      with assms(2) poll rs acc have "r = Inl (socket_exception SOCKET_ACCEPT (errno q) (-1))" "q2 = q"
        by (auto simp: Listener_accept_def)
      with accept_failed [of ?w i k q] acc None have "accept_step k ?w (Gave i None r) ?e" by simp
      from runs_append [OF upto accept_single [OF this]] show ?thesis
        unfolding home by (intro exI [of _ "[Quiet, Quiet]"] exI [of _ None]) (simp add: gave_def)
    next
      case (Some d)
      let ?h = "moves i (Holding d) q2 ?w"
      have took: "accept_step k ?w (Took i d) ?h" using accept_took [of ?w i k d q2] acc Some by simp
      have "accept_step k ?h (Gave i (Some d) r) ?e"
        using accept_gave [of ?h i d k r q] assms(2) poll rs acc Some by (simp add: Listener_accept_def)
      from runs_append [OF upto accept_Cons [OF took accept_single [OF this]]]
      show ?thesis
        unfolding home by (intro exI [of _ "[Quiet, Quiet, Took i d]"] exI [of _ "Some d"]) (simp add: gave_def)
    qed
  qed
qed

section \<open>A closed socket\<close>

text \<open>
  \<open>poll(2)\<close> reports \<open>POLLNVAL\<close> for a descriptor that is not open, and \<open>accept(2)\<close> on one fails
  with \<open>EBADF\<close>.
\<close>

definition rejects_closed :: "kernel \<Rightarrow> bool" where
  "rejects_closed k = (\<forall>h d. d \<notin> open_fds h \<longrightarrow> k_accept k h d = Inl EBADF \<and>
     (\<forall>ds t rs i. k_poll k h ds t = Inr rs \<longrightarrow> i < length ds \<longrightarrow> ds ! i = d \<longrightarrow> 0 \<le> d \<longrightarrow> rs ! i \<noteq> 0))"

lemma accept_on_closed:
  assumes "rejects_closed k" and "poll_reports k" and "0 \<le> listener_socket_fd x"
    and "listener_socket_fd x \<notin> open_fds (history p)" and "k_poll k (history p) (listener_fds x) t = Inr rs"
  shows "fst (Listener_accept k x t p) = Inl (socket_exception SOCKET_ACCEPT EBADF (-1))"
proof -
  let ?q = "log_event (Ev_Poll (listener_fds x) t (Inr rs)) p"
  have "rs ! 0 \<noteq> 0" using assms(1,3-5) unfolding rejects_closed_def by fastforce
  then have "revents rs 0 \<noteq> 0" using poll_reportsD(1) [OF assms(2,5)] by (simp add: revents_nth)
  moreover have "k_accept k (history ?q) (listener_socket_fd x) = Inl EBADF"
    using assms(1,4) by (simp add: rejects_closed_def)
  ultimately show ?thesis using assms(5)
    by (simp add: Listener_accept_def sys_poll_def sys_accept_def)
qed

text \<open>
  After \<open>stopAccepting\<close>, \<open>accept\<close> does not report the termination request. The request is
  posted and stays so, but the socket is closed, which \<open>poll\<close> reports on its entry; \<open>accept\<close>
  looks at that entry first, calls \<open>::accept\<close> on the closed descriptor, and throws
  \<open>SOCKET_ACCEPT\<close> with \<open>EBADF\<close> instead of \<open>SOCKET_TERMINATION_REQUEST\<close>.
\<close>

theorem accept_after_stop_reports_accept:
  assumes "rejects_closed k" and "poll_reports k" and "poll_eventfd k" and "eventfd_writable k"
    and "close_succeeds k" and "\<not> stopped_accepting x" and "0 \<le> listener_socket_fd x"
    and "0 \<le> listener_end_fd x" and "listening 0 x p"
    and "Listener_stopAccepting k (x, p) = (y, q)" and "k_poll k (history q) (listener_fds y) t = Inr rs"
  shows "fst (Listener_accept k y t q) = Inl (socket_exception SOCKET_ACCEPT EBADF (-1)) \<and>
    revents rs 1 \<noteq> 0"
proof -
  have neq: "listener_end_fd x \<noteq> listener_socket_fd x" using assms(9) by (auto simp: listening_def)
  have y: "listener_fds y = listener_fds x"
    and q: "q = snd (sys_close k (listener_socket_fd x) (post_stop k x p))"
    using assms(6,10) by (auto simp: Listener_stopAccepting_def)
  have post: "history (post_stop k x p) =
      history p @ [Ev_Eventfd_Write (listener_end_fd x) stop_semaphore_value (Inr ())]"
    using post_stop_value [OF assms(4), of "listener_end_fd x" p 0] assms(9)
    by (simp add: post_stop_def listening_def)
  then have "k_close k (history (post_stop k x p)) (listener_socket_fd x) = Inr ()"
    using assms(5,9) by (simp add: close_succeeds_def listening_def)
  then have h: "history q = history (post_stop k x p) @ [Ev_Close (listener_socket_fd x) (Inr ())]"
    unfolding q by (simp add: sys_close_def)
  have "listener_socket_fd y \<notin> open_fds (history q)" using y h by simp
  from accept_on_closed [OF assms(1,2) _ this assms(11)] assms(7) y
  have "fst (Listener_accept k y t q) = Inl (socket_exception SOCKET_ACCEPT EBADF (-1))" by simp
  moreover have "efd_count (listener_fds y ! 1) (history q) = Some 65535"
    using assms(9) post h y neq by (simp add: listening_def stop_semaphore_value_def)
  from poll_eventfd_positive [OF assms(3,11) _ _ this] y assms(8) poll_reportsD(1) [OF assms(2,11)]
  have "revents rs 1 \<noteq> 0" by (simp add: revents_nth)
  ultimately show ?thesis by blast
qed

text \<open>The reference kernel with closed descriptors rejected.\<close>

definition strict_kernel :: "script \<Rightarrow> kernel" where
  "strict_kernel sc = (reference_kernel sc)\<lparr>
     k_poll := (\<lambda>h ds t. let rs = map (\<lambda>d. if 0 \<le> d \<and> d \<notin> open_fds h then 32 else entry_revents sc h d) ds
        in if t < 0 \<and> list_all (\<lambda>r. r = 0) rs then Inl EINTR else Inr rs),
     k_accept := (\<lambda>h d. if d \<notin> open_fds h then Inl EBADF else k_accept (reference_kernel sc) h d)\<rparr>"

lemma strict_kernel_rejects: "rejects_closed (strict_kernel sc)"
  by (auto simp: rejects_closed_def strict_kernel_def Let_def split: if_splits)

lemma strict_kernel_ok:
  "poll_reports (strict_kernel sc)" "poll_eventfd (strict_kernel sc)"
  "eventfd_writable (strict_kernel sc)" "close_succeeds (strict_kernel sc)"
proof -
  show "poll_reports (strict_kernel sc)"
    by (auto simp: poll_reports_def strict_kernel_def Let_def entry_revents_def list_all_length split: if_splits)
  have "efd_count d h = None" if "d \<notin> open_fds h" for d h
    using efd_count_open [of d h] that by (cases "efd_count d h") auto
  then show "poll_eventfd (strict_kernel sc)"
    by (auto simp: poll_eventfd_def strict_kernel_def Let_def entry_revents_def POLLIN_def split: if_splits)
  show "eventfd_writable (strict_kernel sc)" "close_succeeds (strict_kernel sc)"
    using reference_eventfd_writable [of sc] reference_close_succeeds [of sc]
    by (simp_all add: eventfd_writable_def close_succeeds_def strict_kernel_def)
qed

theorem accept_after_stop_reports_accept_witness:
  "\<exists>y q. Listener_stopAccepting (strict_kernel demo_server) (demo_listener, demo_listening) = (y, q) \<and>
     fst (Listener_accept (strict_kernel demo_server) y (-1) q) = Inl (socket_exception SOCKET_ACCEPT 9 (-1))"
proof -
  let ?k = "strict_kernel demo_server"
  let ?yq = "Listener_stopAccepting ?k (demo_listener, demo_listening)"
  have "k_poll ?k (history (snd ?yq)) (listener_fds (fst ?yq)) (-1) = Inr [32, 1]" by code_simp
  moreover have "listening 0 demo_listener demo_listening" "\<not> stopped_accepting demo_listener"
    "0 \<le> listener_socket_fd demo_listener" "0 \<le> listener_end_fd demo_listener"
    by (simp_all add: listening_def demo_listener_def demo_listening_def)
  ultimately show ?thesis
    using accept_after_stop_reports_accept [OF strict_kernel_rejects strict_kernel_ok, of demo_listener
        demo_listening demo_server "fst ?yq" "snd ?yq" "-1" "[32, 1]"]
    by (intro exI [of _ "fst ?yq"] exI [of _ "snd ?yq"]) (simp add: EBADF_def)
qed

section \<open>A descriptor that is used again\<close>

text \<open>A new socket gets the lowest descriptor that is free, as POSIX has it.\<close>

definition lowest_free :: "history \<Rightarrow> fd" where
  "lowest_free h = hd (filter (\<lambda>d. d \<notin> open_fds h) [3..fresh_fd h])"

definition reusing_kernel :: "script \<Rightarrow> kernel" where
  "reusing_kernel sc = (reference_kernel sc)\<lparr>k_socket := (\<lambda>h f ty pr. Inr (lowest_free h))\<rparr>"

lemma reusing_kernel_fresh: "fresh_fds (reusing_kernel sc)"
proof -
  have "0 \<le> lowest_free h \<and> lowest_free h \<notin> open_fds h" for h
  proof -
    have "fresh_fd h \<in> set (filter (\<lambda>d. d \<notin> open_fds h) [3..fresh_fd h])"
      using fresh_fd_new(1) [of h] fresh_fd_new(2) [of "fresh_fd h" h] by auto
    then have "filter (\<lambda>d. d \<notin> open_fds h) [3..fresh_fd h] \<noteq> []" by (metis empty_iff list.set(1))
    from hd_in_set [OF this] show ?thesis by (auto simp: lowest_free_def)
  qed
  with reference_fresh [of sc] show ?thesis by (simp add: fresh_fds_def reusing_kernel_def)
qed

lemma other_calls:
  assumes "runs (system_call k) (common s) evs q" and "list_all (spares (shared s)) evs"
  shows "runs (accept_step k) s (replicate (length evs) Quiet) (s\<lparr>common := q\<rparr>)"
  using assms
proof (induction "common s" evs q rule: runs.induct)
  case runs_Nil
  then show ?case by simp
next
  case (runs_snoc evs q ev u)
  then have "runs (accept_step k) s (replicate (length evs) Quiet) (s\<lparr>common := q\<rparr>)" by simp
  from runs.runs_snoc [OF this, of Quiet "s\<lparr>common := u\<rparr>"] accept_step.other_call [of k "s\<lparr>common := q\<rparr>" ev u]
    runs_snoc show ?case by (simp add: replicate_append_same)
qed

text \<open>What another thread does to listen on a socket of its own.\<close>

definition other_listener :: "kernel \<Rightarrow> process \<Rightarrow> process" where
  "other_listener k p = (let q = snd (sys_socket k AF_INET SOCK_STREAM IPPROTO_TCP p)
     in snd (sys_listen k 4 5 (snd (sys_bind k 4 (Sockaddr_In 0 81) q))))"

lemma demo_listener_listens: "listening 0 demo_listener demo_listening"
  by (simp add: listening_def demo_listener_def demo_listening_def)

lemma other_listener_runs:
  "runs (accept_step k) s (replicate 3 Quiet) (s\<lparr>common := other_listener k (common s)\<rparr>)"
proof -
  let ?p = "common s"
  let ?q = "snd (sys_socket k AF_INET SOCK_STREAM IPPROTO_TCP ?p)"
  let ?u = "snd (sys_bind k 4 (Sockaddr_In 0 81) ?q)"
  let ?v = "snd (sys_listen k 4 5 ?u)"
  let ?e1 = "Ev_Socket AF_INET SOCK_STREAM IPPROTO_TCP (k_socket k (history ?p) AF_INET SOCK_STREAM IPPROTO_TCP)"
  let ?e2 = "Ev_Bind 4 (Sockaddr_In 0 81) (k_bind k (history ?q) 4 (Sockaddr_In 0 81))"
  let ?e3 = "Ev_Listen 4 5 (k_listen k (history ?u) 4 5)"
  have "system_call k ?p ?e1 ?q" "system_call k ?q ?e2 ?u" "system_call k ?u ?e3 ?v"
    unfolding system_call_def sys_socket_def sys_bind_def sys_listen_def by (simp_all add: syscall_history)
  then have "runs (system_call k) ?p [?e1, ?e2, ?e3] ?v"
    by (intro runs_Cons [where step = "system_call k"] runs_single)
  from other_calls [OF this] show ?thesis by (simp add: other_listener_def Let_def eval_nat_numeral)
qed

text \<open>
  C38: \<open>accept\<close> can return a stranger's client. \<open>stopAccepting\<close> closes the socket while a call of
  \<open>accept\<close> is between its \<open>poll\<close> and its \<open>::accept\<close>. If a socket of another object gets the
  descriptor number meanwhile, the call accepts a client of that one and returns it as its own,
  after its listener was stopped.
\<close>

theorem accept_takes_foreign_client:
  "\<exists>k x p ls s h d stream a n e. fresh_fds k \<and> listening 0 x p \<and> \<not> stopped_accepting x \<and>
     runs (accept_step k) (accept_start x p) ls s \<and> stopped_accepting (shared s) \<and>
     Gave 0 (Some d) (Inr stream) \<in> set ls \<and>
     history (common s) = history p @ h @ [Ev_Close (listener_socket_fd x) (Inr ()),
       Ev_Socket AF_INET SOCK_STREAM IPPROTO_TCP (Inr (listener_socket_fd x)),
       Ev_Bind (listener_socket_fd x) a (Inr ()), Ev_Listen (listener_socket_fd x) n (Inr ()),
       Ev_Accept (listener_socket_fd x) (Inr d), Ev_Eventfd (Inr e)]"
proof -
  let ?k = "reusing_kernel demo_server"
  let ?q1 = "snd (sys_poll ?k (listener_fds demo_listener) (-1) demo_listening)"
  let ?yq = "Listener_stopAccepting ?k (demo_listener, ?q1)"
  let ?q4 = "other_listener ?k (snd ?yq)"
  let ?q5 = "snd (sys_accept ?k 4 ?q4)"
  let ?q6 = "snd (Stream_construct ?k 5 ?q5)"
  let ?st = "\<lparr>stream_file_descriptor = 5, stop_all_operations_event_fd = 6\<rparr>"
  have out: "fst (sys_poll ?k (listener_fds demo_listener) (-1) demo_listening) = Some [1, 0]"
    "fst (sys_accept ?k 4 ?q4) = Some 5" "fst (Stream_construct ?k 5 ?q5) = Inr ?st" by code_simp+
  have y: "fst ?yq = demo_listener\<lparr>stopped_accepting := True\<rparr>"
    and x: "listener_socket_fd demo_listener = 4" "\<not> stopped_accepting demo_listener"
    by (simp_all add: Listener_stopAccepting_def demo_listener_def)
  let ?s0 = "accept_start demo_listener demo_listening"
  let ?s1 = "moves 0 (Polling (-1)) (common ?s0) ?s0"
  let ?s2 = "moves 0 Choosing ?q1 ?s1"
  let ?s6 = "?s2\<lparr>shared := fst ?yq, common := snd ?yq\<rparr>"
  let ?s7 = "?s6\<lparr>common := other_listener ?k (common ?s6)\<rparr>"
  let ?s8 = "moves 0 (Holding 5) ?q5 ?s7"
  have called: "accept_step ?k ?s0 Quiet ?s1" by (rule accept_called) (simp add: accept_start_def)
  have waits: "accept_step ?k ?s1 Quiet ?s2"
    using pair_of_fst [OF out(1)]
    by (intro accept_client_waits [where t = "-1" and rs = "[1, 0]"]) (simp_all add: accept_start_def)
  have "runs (accept_step ?k) ?s2 [Quiet, Quiet, Quiet, Quiet] ?s6"
    using x by (intro stop_runs [where i = 1]) (simp_all add: accept_start_def)
  note before = runs_append [OF accept_Cons [OF called accept_Cons [OF waits this]] other_listener_runs]
  have "accept_step ?k ?s7 (Took 0 5) ?s8"
    using pair_of_fst [OF out(2)] x y by (intro accept_took) (simp_all add: accept_start_def)
  moreover have "accept_step ?k ?s8 (Gave 0 (Some 5) (Inr ?st)) (moves 0 Outside ?q6 ?s8)"
    using pair_of_fst [OF out(3)] by (intro accept_gave) simp_all
  ultimately have "runs (accept_step ?k) ?s7 [Took 0 5, Gave 0 (Some 5) (Inr ?st)] (moves 0 Outside ?q6 ?s8)"
    by (intro accept_Cons accept_single)
  then obtain ls where "runs (accept_step ?k) ?s0 ls (moves 0 Outside ?q6 ?s8)" "Gave 0 (Some 5) (Inr ?st) \<in> set ls"
    using that [OF runs_append [OF before]] by simp
  moreover have "history ?q6 = history demo_listening @ [Ev_Poll [4, 3] (-1) (Inr [1, 0]),
      Ev_Eventfd_Write 3 65535 (Inr ())] @ [Ev_Close 4 (Inr ()), Ev_Socket AF_INET SOCK_STREAM IPPROTO_TCP (Inr 4),
      Ev_Bind 4 (Sockaddr_In 0 81) (Inr ()), Ev_Listen 4 5 (Inr ()), Ev_Accept 4 (Inr 5), Ev_Eventfd (Inr 6)]"
    by code_simp
  ultimately show ?thesis
    using reusing_kernel_fresh [of demo_server] x y demo_listener_listens
    by (intro exI [of _ ?k] exI [of _ demo_listener] exI [of _ demo_listening]
        exI [of _ "moves 0 Outside ?q6 ?s8"] exI conjI) (assumption | simp)+
qed

text \<open>
  Two threads that stop the same \<open>Listener\<close>. The test of \<open>stopped_accepting\<close> and its store
  are atomic each, but not together, so both threads close the descriptor; the second \<open>close\<close>
  hits a socket that the rest of the process has opened in between.
\<close>

theorem racing_stops_close_foreign_socket:
  "\<exists>k x p ls s h a n. fresh_fds k \<and> listening 0 x p \<and> \<not> stopped_accepting x \<and>
     runs (accept_step k) (accept_start x p) ls s \<and>
     history (common s) = history p @ h @ [Ev_Close (listener_socket_fd x) (Inr ()),
       Ev_Socket AF_INET SOCK_STREAM IPPROTO_TCP (Inr (listener_socket_fd x)),
       Ev_Bind (listener_socket_fd x) a (Inr ()), Ev_Listen (listener_socket_fd x) n (Inr ()),
       Ev_Close (listener_socket_fd x) (Inr ())] \<and>
     listener_socket_fd x \<notin> open_fds (history (common s))"
proof -
  let ?k = "reusing_kernel demo_server"
  let ?s0 = "accept_start demo_listener demo_listening"
  let ?posted = "\<lambda>i s. s\<lparr>common := post_stop ?k (shared s) (common s), stoppers := (stoppers s)(i := Closing)\<rparr>"
  let ?closed = "\<lambda>i s. s\<lparr>common := snd (sys_close ?k (listener_socket_fd (shared s)) (common s)),
    stoppers := (stoppers s)(i := Storing)\<rparr>"
  let ?s1 = "?s0\<lparr>stoppers := (stoppers ?s0)(0 := Posting_Stop)\<rparr>"
  let ?s2 = "?s1\<lparr>stoppers := (stoppers ?s1)(1 := Posting_Stop)\<rparr>"
  let ?s5 = "?closed 0 (?posted 1 (?posted 0 ?s2))"
  let ?s6 = "?s5\<lparr>common := other_listener ?k (common ?s5)\<rparr>"
  have x: "listener_socket_fd demo_listener = 4" "\<not> stopped_accepting demo_listener"
    by (simp_all add: demo_listener_def)
  have "accept_step ?k ?s0 Quiet ?s1" "accept_step ?k ?s1 Quiet ?s2"
    using x by (intro stop_called; simp add: accept_start_def)+
  moreover have "accept_step ?k ?s2 Quiet (?posted 0 ?s2)"
    "accept_step ?k (?posted 0 ?s2) Quiet (?posted 1 (?posted 0 ?s2))"
    by (rule stop_posts; simp)+
  moreover have "accept_step ?k (?posted 1 (?posted 0 ?s2)) Quiet ?s5" by (rule stop_closes) simp
  ultimately have before: "runs (accept_step ?k) ?s0 [Quiet, Quiet, Quiet, Quiet, Quiet] ?s5"
    by (intro accept_Cons accept_single)
  have "accept_step ?k ?s6 Quiet (?closed 1 ?s6)" by (rule stop_closes) simp
  from accept_snoc [OF runs_append [OF before other_listener_runs] this]
  have "runs (accept_step ?k) ?s0 (([Quiet, Quiet, Quiet, Quiet, Quiet] @ replicate 3 Quiet) @ [Quiet]) (?closed 1 ?s6)" .
  moreover have h: "history (common (?closed 1 ?s6)) = history demo_listening @
      [Ev_Eventfd_Write 3 65535 (Inr ()), Ev_Eventfd_Write 3 65535 (Inr ())] @ [Ev_Close 4 (Inr ()),
      Ev_Socket AF_INET SOCK_STREAM IPPROTO_TCP (Inr 4), Ev_Bind 4 (Sockaddr_In 0 81) (Inr ()),
      Ev_Listen 4 5 (Inr ()), Ev_Close 4 (Inr ())]" by code_simp
  moreover have "4 \<notin> open_fds (history (common (?closed 1 ?s6)))" unfolding h by (simp add: demo_listening_def)
  ultimately show ?thesis
    using reusing_kernel_fresh [of demo_server] x demo_listener_listens
    by (intro exI [of _ ?k] exI [of _ demo_listener] exI [of _ demo_listening]
        exI [of _ "?closed 1 ?s6"] exI conjI) (assumption | simp)+
qed

theorem concurrent_accepts_share_clients_witness:
  "\<exists>ls s. runs (accept_step (reference_kernel demo_server)) (accept_start demo_listener demo_listening) ls s \<and>
     clients_of 4 (history (common s)) = map snd (took ls) \<and> by_thread 0 (took ls) = by_thread 0 (gave ls)"
proof -
  let ?k = "reference_kernel demo_server"
  let ?s0 = "accept_start demo_listener demo_listening"
  let ?rq = "Listener_accept ?k (shared ?s0) (-1) (common ?s0)"
  obtain ls d where run: "runs (accept_step ?k) ?s0 (ls @ [Gave 0 d (fst ?rq)]) (?s0\<lparr>common := snd ?rq\<rparr>)"
    using accept_runs [of ?s0 0 ?k "-1" "fst ?rq" "snd ?rq"] by (auto simp: accept_start_def)
  have "clients_of 4 (history demo_listening) = []" "listener_socket_fd demo_listener = 4"
    by (simp_all add: demo_listening_def demo_listener_def)
  with concurrent_accepts_share_clients [OF run] run show ?thesis
    by (intro exI [of _ "ls @ [Gave 0 d (fst ?rq)]"] exI [of _ "?s0\<lparr>common := snd ?rq\<rparr>"])
      (simp add: accept_start_def)
qed

end
