(* ===== verification/Listener_Destruction.thy ===== *)
theory Listener_Destruction
  imports Listener_Serving
begin

text \<open>
  The end of an object of a class derived from \<open>ListenerBase\<close>. The destructor of the derived class
  runs first, with its members, and only then \<open>~ListenerBase\<close>, which stops the serving thread. From
  then on the dynamic type of the object is \<open>ListenerBase\<close>, whose \<open>onIncomingStream\<close> is pure virtual:
  calling it is undefined behaviour (the usual library ends the program).
\<close>

definition pure_virtual_onIncomingStream :: "'u callback" where
  "pure_virtual_onIncomingStream s up = (Inl Undefined_Behaviour, up)"

definition derived_destroy ::
    "kernel \<Rightarrow> (ListenerBase \<times> 'u \<times> process \<Rightarrow> ((error + unit) \<times> ListenerBase \<times> 'u \<times> process) option) \<Rightarrow>
       ListenerBase \<times> 'u \<times> process \<Rightarrow> ((error + unit) \<times> ListenerBase \<times> 'u \<times> process) option" where
  "derived_destroy k derived_destructor xup =
     (case derived_destructor xup of
        None \<Rightarrow> None
      | Some (Inl e, yvq) \<Rightarrow> Some (Inl e, yvq)
      | Some (Inr _, yvq) \<Rightarrow> ListenerBase_destroy k pure_virtual_onIncomingStream yvq)"

text \<open>A derived class that does not declare a destructor.\<close>

definition default_destructor ::
    "ListenerBase \<times> 'u \<times> process \<Rightarrow> ((error + unit) \<times> ListenerBase \<times> 'u \<times> process) option" where
  "default_destructor xup = Some (Inr (), xup)"

lemma destroy_stopped: "stopped_accepting x \<Longrightarrow> ListenerBase_destroy k cb (x, u, p) = Some (Inr (), (x, u, p))"
  by (simp add: ListenerBase_destroy_def ListenerBase_stopAccepting_def)

lemma stopAccepting_stops:
  "ListenerBase_stopAccepting k cb xup = Some (Inr r, (y, vq)) \<Longrightarrow> stopped_accepting y"
  by (auto simp: ListenerBase_stopAccepting_def Let_def split: prod.splits if_splits option.splits sum.splits)

text \<open>
  C33: The destructor of ListenerBase comes too late. (1) If a client waits when an object that is
  accepting is destroyed and its derived class does not stop it, the thread takes the client and
  calls the pure virtual \<open>onIncomingStream\<close>. (2) If the destructor of the derived class calls
  \<open>stopAccepting\<close> and that returns, the destructor of the base class does nothing more, and the
  outcome is that of \<open>stopAccepting\<close>.
\<close>

theorem base_destructor_comes_too_late:
  assumes "task_joinable x" and "\<not> stopped_accepting x"
    and "k_poll k (history (post_stop k x p)) (listener_fds x) (-1) = Inr rs" and "revents rs 0 \<noteq> 0"
    and "k_accept k (history (post_stop k x p) @ [Ev_Poll (listener_fds x) (-1) (Inr rs)]) (listener_socket_fd x) = Inr d"
    and "\<forall>h. \<exists>e. k_eventfd k h = Inr e"
  shows "(\<exists>q. derived_destroy k default_destructor (x, u, p) = Some (Inl Undefined_Behaviour, (x, u, q)) \<and>
      Ev_Accept (listener_socket_fd x) (Inr d) \<in> set (history q)) \<and>
    (\<forall>cb y v q. ListenerBase_stopAccepting k cb (x, u, p) = Some (Inr (), (y, v, q)) \<longrightarrow>
      derived_destroy k (ListenerBase_stopAccepting k cb) (x, u, p) = Some (Inr (), (y, v, q)))"
proof
  let ?p = "post_stop k x p"
  let ?q = "log_event (Ev_Accept (listener_socket_fd x) (Inr d)) (log_event (Ev_Poll (listener_fds x) (-1) (Inr rs)) ?p)"
  obtain e where e: "k_eventfd k (history ?q) = Inr e" using assms(6) by blast
  have "incoming_round k pure_virtual_onIncomingStream x (u, ?p) =
      (Inl Undefined_Behaviour, (u, log_event (Ev_Eventfd (Inr e)) ?q))"
    using assms(3-5) e
    by (simp add: incoming_round_def sys_poll_def sys_accept_def Stream_construct_def sys_eventfd_def
        pure_virtual_onIncomingStream_def swallow_def)
  then have "handleIncomingStreams k pure_virtual_onIncomingStream x (u, ?p) =
      Some (Inl Undefined_Behaviour, (u, log_event (Ev_Eventfd (Inr e)) ?q))"
    by (simp add: handleIncomingStreams.simps)
  with assms(1,2) have "derived_destroy k default_destructor (x, u, p) =
      Some (Inl Undefined_Behaviour, (x, u, log_event (Ev_Eventfd (Inr e)) ?q))"
    by (simp add: derived_destroy_def default_destructor_def ListenerBase_destroy_def ListenerBase_stopAccepting_def)
  then show "\<exists>q. derived_destroy k default_destructor (x, u, p) = Some (Inl Undefined_Behaviour, (x, u, q)) \<and>
      Ev_Accept (listener_socket_fd x) (Inr d) \<in> set (history q)" by simp
  show "\<forall>cb y v q. ListenerBase_stopAccepting k cb (x, u, p) = Some (Inr (), (y, v, q)) \<longrightarrow>
      derived_destroy k (ListenerBase_stopAccepting k cb) (x, u, p) = Some (Inr (), (y, v, q))"
    using stopAccepting_stops by (fastforce simp: derived_destroy_def destroy_stopped)
qed

theorem base_destructor_comes_too_late_witness:
  "\<exists>q. derived_destroy (reference_kernel demo_server) default_destructor (demo_base, (), demo_listening) =
     Some (Inl Undefined_Behaviour, (demo_base, (), q))"
proof -
  let ?k = "reference_kernel demo_server"
  have "k_poll ?k (history (post_stop ?k demo_base demo_listening)) (listener_fds demo_base) (-1) = Inr [1, 1]"
    "k_accept ?k (history (post_stop ?k demo_base demo_listening) @ [Ev_Poll (listener_fds demo_base) (-1) (Inr [1, 1])])
      (listener_socket_fd demo_base) = Inr 5" by code_simp+
  moreover have "\<forall>h. \<exists>e. k_eventfd ?k h = Inr e" by (simp add: reference_kernel_def)
  ultimately show ?thesis
    using base_destructor_comes_too_late [of demo_base ?k demo_listening "[1, 1]" _ "()"]
    by (auto simp: demo_base_def)
qed

end
