(* ===== verification/Udp_Datagram.thy ===== *)
theory Udp_Datagram
  imports Descriptor_Use
begin

text \<open>
  \<open>class UdpDatagram\<close> (\<open>include/socket_wrapper/UdpDatagram.h\<close>, \<open>src/UdpDatagram.cpp\<close>): a bound
  datagram socket with its receive buffer and its stop descriptor.
\<close>

section \<open>The object\<close>

text \<open>
  The move constructor leaves \<open>ip_version\<close> of the new object without a value: \<open>None\<close>. The
  contents of \<open>buffer\<close> are kept, although only its size decides anything.
\<close>

record UdpDatagram =
  buffer :: "char list"
  socket_fd :: fd
  ip_version :: "IP_VERSION option"
  udp_stop_fd :: fd

text \<open>
  \<open>SOCK_DGRAM | SO_REUSEADDR\<close> is the type argument of \<open>socket\<close>.
\<close>

definition udp_socket_type :: "32 word" where
  "udp_socket_type = SOCK_DGRAM OR SO_REUSEADDR_value"

definition UdpDatagram_address :: "libc \<Rightarrow> string \<Rightarrow> 16 word \<Rightarrow> IP_VERSION \<Rightarrow> sockaddr" where
  "UdpDatagram_address l listener_ip_addr listener_port version =
     (if version = IPv6 then Sockaddr_In6 0 (htons l listener_port)
      else Sockaddr_In (inet_addr l listener_ip_addr) (htons l listener_port))"

text \<open>
  The constructor. A negative \<open>buffer_size\<close> is converted to a \<open>size_t\<close> beyond
  \<open>vector::max_size()\<close>, which is a \<open>std::length_error\<close>.
\<close>

definition UdpDatagram_construct ::
    "libc \<Rightarrow> kernel \<Rightarrow> string \<Rightarrow> 16 word \<Rightarrow> IP_VERSION \<Rightarrow> int \<Rightarrow> (process, error, UdpDatagram) action" where
  "UdpDatagram_construct l k listener_ip_addr listener_port version buffer_size =
     bindA (throw_errno SOCKET_SOCKET (sys_socket k (if version = IPv6 then AF_INET6 else AF_INET)
              udp_socket_type IPPROTO_UDP))
       (\<lambda>s. bindA (ignore_result (sys_setsockopt k s (SO_REUSEADDR 1)))
       (\<lambda>_. bindA (if SO_REUSEPORT_defined l then ignore_result (sys_setsockopt k s (SO_REUSEPORT 1)) else ret ())
       (\<lambda>_. bindA (throw_errno SOCKET_BIND
               (sys_bind k s (UdpDatagram_address l listener_ip_addr listener_port version)))
       (\<lambda>_. bindA (if buffer_size < 0 then throw Length_Error else ret ())
       (\<lambda>_ p. case sys_eventfd k p of
          (None, q) \<Rightarrow> (Inl (Runtime_Error ''Failed to create event_fd''), q)
        | (Some e, q) \<Rightarrow>
            (Inr \<lparr>buffer = replicate (nat buffer_size) (CHR 0x00), socket_fd = s,
               ip_version = Some version, udp_stop_fd = e\<rparr>, q))))))"

text \<open>Move assignment (target and source afterwards) and move construction.\<close>

definition UdpDatagram_assign :: "UdpDatagram \<Rightarrow> UdpDatagram \<Rightarrow> UdpDatagram \<times> UdpDatagram" where
  "UdpDatagram_assign target src =
     (target\<lparr>socket_fd := socket_fd src, udp_stop_fd := udp_stop_fd src\<rparr>,
      src\<lparr>socket_fd := kInvalidSocketFdMarker\<rparr>)"

definition UdpDatagram_move :: "UdpDatagram \<Rightarrow> UdpDatagram \<times> UdpDatagram" where
  "UdpDatagram_move src =
     (\<lparr>buffer = [], socket_fd = socket_fd src, ip_version = None, udp_stop_fd = udp_stop_fd src\<rparr>,
      src\<lparr>socket_fd := kInvalidSocketFdMarker\<rparr>)"

definition UdpDatagram_stopReads :: "kernel \<Rightarrow> UdpDatagram \<Rightarrow> (process, error, unit) action" where
  "UdpDatagram_stopReads k x = ignore_result (sys_eventfd_write k (udp_stop_fd x) stop_semaphore_value)"

definition UdpDatagram_destroy :: "kernel \<Rightarrow> UdpDatagram \<Rightarrow> (process, error, unit) action" where
  "UdpDatagram_destroy k x p =
     (if socket_fd x < 0 then (Inr (), p)
      else bindA (ignore_result (sys_eventfd_write k (udp_stop_fd x) stop_semaphore_value))
        (\<lambda>_ q. case sys_close k (socket_fd x) q of
           (None, r) \<Rightarrow> (Inl Terminate, r)
         | (Some _, r) \<Rightarrow> (Inr (), r)) p)"

section \<open>Reading, writing, multicast\<close>

abbreviation udp_fds :: "UdpDatagram \<Rightarrow> fd list" where
  "udp_fds x \<equiv> [socket_fd x, udp_stop_fd x]"

text \<open>
  \<open>assertRecvmsgSucceded\<close> with the result of \<open>recvmsg\<close>: the bytes and the \<open>MSG_TRUNC\<close> flag.
\<close>

definition assertRecvmsgSucceded :: "(char list \<times> bool) option \<Rightarrow> process \<Rightarrow> error + char list" where
  "assertRecvmsgSucceded res p =
     (case res of
        None \<Rightarrow> Inl (socket_exception SOCKET_READ (errno p) (-1))
      | Some (bs, truncated) \<Rightarrow>
          if truncated then Inl (socket_exception SOCKET_RECEIVE_BUFFER_TOO_SMALL (errno p) (-1))
          else Inr bs)"

text \<open>
  \<open>read(timeout_ms)\<close> compares the number that \<open>poll\<close> returned (\<open>-1\<close> for an error) with the
  timeout.
\<close>

definition UdpDatagram_read ::
    "kernel \<Rightarrow> int \<Rightarrow> (UdpDatagram \<times> process, error, char list) action" where
  "UdpDatagram_read k timeout_ms xp =
     (let x = fst xp; (res, q) = sys_poll k (udp_fds x) timeout_ms (snd xp);
          rs = (case res of None \<Rightarrow> [] | Some rs \<Rightarrow> rs);
          poll_result = (case res of None \<Rightarrow> -1 | Some rs \<Rightarrow> poll_count rs)
      in if poll_result = timeout_ms then (Inl (socket_exception SOCKET_POLL (errno q) (-1)), (x, q))
         else if revents rs 0 \<noteq> 0 then
           (let (msg, r) = sys_recvmsg k (socket_fd x) (length (buffer x)) q;
                stored = (case msg of None \<Rightarrow> [] | Some (bs, _) \<Rightarrow> bs)
            in (assertRecvmsgSucceded msg r, (x\<lparr>buffer := block_write (buffer x) 0 stored\<rparr>, r)))
         else if revents rs 1 \<noteq> 0 then
           (Inl (socket_exception SOCKET_TERMINATION_REQUEST (errno q) (-1)), (x, q))
         else (Inl (socket_exception SOCKET_READ_TIMEOUT (errno q) (-1)), (x, q)))"

text \<open>Reading the \<open>ip_version\<close> of a moved-to object is undefined behaviour.\<close>

definition UdpDatagram_write ::
    "libc \<Rightarrow> kernel \<Rightarrow> UdpDatagram \<Rightarrow> char list \<Rightarrow> string \<Rightarrow> int \<Rightarrow> (process, error, unit) action" where
  "UdpDatagram_write l k x msg_data destination_ip port p =
     (case ip_version x of
        None \<Rightarrow> (Inl Undefined_Behaviour, p)
      | Some IPv6 \<Rightarrow> (Inl (Logic_Error ''IPv6 is not supported as of now''), p)
      | Some IPv4 \<Rightarrow>
          bindA (throw_errno SOCKET_WRITE (sys_sendto k (socket_fd x) msg_data
              (Sockaddr_In (inet_addr l destination_ip) (htons l (word_of_int port)))))
            (\<lambda>_. ret ()) p)"

definition subscribeToMulticast ::
    "libc \<Rightarrow> kernel \<Rightarrow> UdpDatagram \<Rightarrow> string \<Rightarrow> (process, error, unit) action" where
  "subscribeToMulticast l k x group_addr p =
     (let addr_prefix = ntohl l (inet_addr l group_addr) in
      if ntohl l (inet_addr l ''224.0.0.0'') \<le> addr_prefix \<and> addr_prefix < ntohl l (inet_addr l ''240.0.0.0'')
      then bindA (ignore_result (sys_setsockopt k (socket_fd x) (SO_REUSEADDR 1)))
        (\<lambda>_. throw_errno SOCKET_BIND (sys_setsockopt k (socket_fd x)
           (IP_ADD_MEMBERSHIP (inet_addr l group_addr) (htonl l 0)))) p
      else (Inl (socket_exception SOCKET_JOIN_MULTICAST (errno p) (-1)), p))"

section \<open>Properties\<close>

interpretation udp_stop: stop_signal k udp_stop_fd "\<lambda>x p. snd (UdpDatagram_stopReads k x p)"
  for k
  by unfold_locales (simp add: UdpDatagram_stopReads_def ignore_result_def post_stop_count)

text \<open>
  \<open>UdpDatagram::read\<close>, when the number that \<open>poll\<close> returns is not the timeout: a waiting
  datagram that fits the buffer is returned whole, one that does not is
  \<open>SOCKET_RECEIVE_BUFFER_TOO_SMALL\<close>; a stop request is \<open>SOCKET_TERMINATION_REQUEST\<close>, no event at
  all \<open>SOCKET_READ_TIMEOUT\<close>.
\<close>

theorem UdpDatagram_read_outcome:
  assumes "poll_reports k" and "k_poll k (history p) (udp_fds x) t = Inr rs" and "poll_count rs \<noteq> t"
  shows "fst (UdpDatagram_read k t (x, p)) =
    (if rs ! 0 \<noteq> 0 then
       (case k_recvmsg k (history p @ [Ev_Poll (udp_fds x) t (Inr rs)]) (socket_fd x) (length (buffer x)) of
          Inl e \<Rightarrow> Inl (socket_exception SOCKET_READ e (-1))
        | Inr (bs, truncated) \<Rightarrow>
            if truncated then Inl (socket_exception SOCKET_RECEIVE_BUFFER_TOO_SMALL (errno p) (-1))
            else Inr bs)
     else Inl (socket_exception (if rs ! 1 \<noteq> 0 then SOCKET_TERMINATION_REQUEST else SOCKET_READ_TIMEOUT)
       (errno p) (-1)))"
proof -
  have "length rs = 2" using poll_reportsD(1) [OF assms(1,2)] by simp
  then have "revents rs 0 = rs ! 0" "revents rs 1 = rs ! 1" by (simp_all add: revents_def)
  with assms(2,3) show ?thesis
    by (auto simp: UdpDatagram_read_def sys_poll_def sys_recvmsg_def syscall_def Let_def
        assertRecvmsgSucceded_def split: sum.splits)
qed

text \<open>
  The comparison with the timeout is a mistake. If \<open>poll\<close> returns exactly as many ready
  descriptors as the timeout has milliseconds, \<open>read\<close> throws \<open>SOCKET_POLL\<close> and leaves the
  datagram where it is: with a timeout of 1 no datagram is ever delivered, and a timeout of 0
  reports an empty socket as a \<open>poll\<close> error. A \<open>poll\<close> that really fails, on the other hand, is
  only noticed with the timeout \<open>-1\<close>, and is \<open>SOCKET_READ_TIMEOUT\<close> with any other.
\<close>

theorem UdpDatagram_read_confuses_timeout:
  "case k_poll k (history p) (udp_fds x) t of
      Inr rs \<Rightarrow> poll_count rs = t \<longrightarrow>
        UdpDatagram_read k t (x, p) = (Inl (socket_exception SOCKET_POLL (errno p) (-1)),
          (x, log_event (Ev_Poll (udp_fds x) t (Inr rs)) p))
    | Inl e \<Rightarrow> fst (UdpDatagram_read k t (x, p)) =
        Inl (socket_exception (if t = -1 then SOCKET_POLL else SOCKET_READ_TIMEOUT) e (-1))"
  by (auto simp: UdpDatagram_read_def sys_poll_def Let_def split: sum.split)

text \<open>
  \<open>recvmsg(2)\<close> stores at most as many bytes as the buffer has.
\<close>

definition recvmsg_bounded :: "kernel \<Rightarrow> bool" where
  "recvmsg_bounded k = (\<forall>h d n bs tr. k_recvmsg k h d n = Inr (bs, tr) \<longrightarrow> length bs \<le> n)"

lemma reference_recvmsg_bounded [simp]: "recvmsg_bounded (reference_kernel sc)"
  by (auto simp: recvmsg_bounded_def reference_kernel_def reference_recvmsg_def split: list.splits)

text \<open>
  Moving a \<open>UdpDatagram\<close> breaks it, by construction and by assignment alike. The object
  constructed from another one has a receive buffer of size 0 and no \<open>ip_version\<close>: a \<open>read\<close> that
  returns returns no bytes, and \<open>write\<close> depends on a value that was never set. The target of an
  assignment keeps the buffer and the \<open>ip_version\<close> it had, and its own socket stays open.
\<close>

theorem UdpDatagram_move_breaks:
  assumes "recvmsg_bounded k" and "UdpDatagram_move src = (x, rest)"
  shows "(\<forall>bs. fst (UdpDatagram_read k t (x, p)) = Inr bs \<longrightarrow> bs = []) \<and>
    UdpDatagram_write l k x msg ip port p = (Inl Undefined_Behaviour, p) \<and>
    (\<forall>target. let y = fst (UdpDatagram_assign target src) in
       socket_fd y = socket_fd src \<and> ip_version y = ip_version target \<and> buffer y = buffer target)"
proof -
  have x: "buffer x = []" "ip_version x = None"
    using assms(2) by (auto simp: UdpDatagram_move_def)
  have "bs = []" if "k_recvmsg k h d 0 = Inr (bs, tr)" for h d bs tr
    using assms(1) that unfolding recvmsg_bounded_def by fastforce
  with x have "fst (UdpDatagram_read k t (x, p)) = Inr bs \<Longrightarrow> bs = []" for bs
    by (auto simp: UdpDatagram_read_def sys_recvmsg_def syscall_def Let_def assertRecvmsgSucceded_def
        split: sum.splits prod.splits option.splits if_splits)
  with x show ?thesis by (auto simp: UdpDatagram_write_def UdpDatagram_assign_def Let_def)
qed

definition demo_datagrams :: script where
  "demo_datagrams = demo_script\<lparr>input := (\<lambda>_. []), datagrams := [''ping'', ''pong'']\<rparr>"

definition demo_udp :: UdpDatagram where
  "demo_udp = \<lparr>buffer = ''......'', socket_fd = 5, ip_version = Some IPv4, udp_stop_fd = 6\<rparr>"

theorem UdpDatagram_read_outcome_witness:
  "fst (UdpDatagram_read (reference_kernel demo_datagrams) (-1) (demo_udp, demo_process)) = Inr ''ping''"
proof -
  let ?k = "reference_kernel demo_datagrams"
  have "k_poll ?k (history demo_process) (udp_fds demo_udp) (-1) = Inr [1, 0]"
    and "k_recvmsg ?k (history demo_process @ [Ev_Poll (udp_fds demo_udp) (-1) (Inr [1, 0])])
      (socket_fd demo_udp) (length (buffer demo_udp)) = Inr (''ping'', False)" by code_simp+
  moreover have "poll_count [1, 0] \<noteq> -1" by (simp add: poll_count_def)
  ultimately show ?thesis
    using UdpDatagram_read_outcome [OF reference_poll_reports, of demo_datagrams demo_process demo_udp
        "-1" "[1, 0]"] by simp
qed

theorem UdpDatagram_read_confuses_timeout_witness:
  "fst (UdpDatagram_read (reference_kernel demo_datagrams) 1 (demo_udp, demo_process)) =
     Inl (socket_exception SOCKET_POLL 0 (-1))"
proof -
  let ?k = "reference_kernel demo_datagrams"
  have "k_poll ?k (history demo_process) (udp_fds demo_udp) 1 = Inr [1, 0]"
    and "errno demo_process = 0" by code_simp+
  moreover have "poll_count [1, 0] = 1" by (simp add: poll_count_def)
  ultimately show ?thesis
    using UdpDatagram_read_confuses_timeout [where k = ?k and p = demo_process and
        x = demo_udp and t = 1] by simp
qed

theorem UdpDatagram_move_breaks_witness:
  "let x = fst (UdpDatagram_move demo_udp) in
   \<forall>bs. fst (UdpDatagram_read (reference_kernel demo_datagrams) (-1) (x, demo_process)) = Inr bs \<longrightarrow> bs = []"
  using UdpDatagram_move_breaks [OF reference_recvmsg_bounded [of demo_datagrams], where src = demo_udp
      and x = "fst (UdpDatagram_move demo_udp)" and rest = "snd (UdpDatagram_move demo_udp)"
      and t = "-1" and p = demo_process]
  by (simp add: Let_def)

text \<open>
  \<open>stopReads\<close> aborts the reads of a \<open>UdpDatagram\<close>. After it no \<open>read\<close> ends in a timeout, and
  one that finds no datagram ends at once in \<open>SOCKET_TERMINATION_REQUEST\<close>; except with a timeout
  of one millisecond, where the number of ready descriptors is mistaken for the timeout and the
  request comes out as \<open>SOCKET_POLL\<close>.
\<close>

theorem UdpDatagram_stop_aborts_reads:
  assumes "eventfd_writable k" and "poll_eventfd k" and "poll_reports k"
    and "efd_count (udp_stop_fd x) (history p) = Some n" and "0 \<le> n" and "n < 2 ^ 64 - 2 ^ 16"
    and "0 \<le> udp_stop_fd x" and "UdpDatagram_stopReads k x p = (r, q)"
    and "k_poll k (history q) (udp_fds x) t = Inr rs" and "rs ! 0 = 0"
  shows "fst (UdpDatagram_read k t (x, q)) =
    Inl (socket_exception (if t = 1 then SOCKET_POLL else SOCKET_TERMINATION_REQUEST) (errno q) (-1))"
proof -
  have len: "length rs = 2" using poll_reportsD(1) [OF assms(3,9)] by simp
  have "revents rs 1 \<noteq> 0"
    using udp_stop.stop_seen [OF assms(1-7), of "udp_fds x" 1 t rs] assms(8,9) by simp
  with len have "rs ! 1 \<noteq> 0" by (simp add: revents_nth)
  moreover from len obtain a b where "rs = [a, b]" by (auto simp: length_Suc_conv numeral_2_eq_2)
  ultimately show ?thesis using assms(9,10)
    by (auto simp: UdpDatagram_read_def sys_poll_def poll_count_def Let_def)
qed

definition demo_silent :: script where
  "demo_silent = demo_script\<lparr>input := (\<lambda>_. [])\<rparr>"

theorem UdpDatagram_stop_aborts_reads_witness:
  "fst (UdpDatagram_read (reference_kernel demo_silent) 50
     (demo_udp, snd (UdpDatagram_stopReads (reference_kernel demo_silent) demo_udp demo_process))) =
   Inl (socket_exception SOCKET_TERMINATION_REQUEST 0 (-1))"
proof -
  let ?k = "reference_kernel demo_silent"
  let ?r = "UdpDatagram_stopReads ?k demo_udp demo_process"
  have "k_poll ?k (history (snd ?r)) (udp_fds demo_udp) 50 = Inr [0, 1]" and "errno (snd ?r) = 0"
    and "efd_count (udp_stop_fd demo_udp) (history demo_process) = Some 0" and "udp_stop_fd demo_udp = 6"
    by code_simp+
  with UdpDatagram_stop_aborts_reads [OF reference_eventfd_writable reference_poll_eventfd
      reference_poll_reports, where x = demo_udp and p = demo_process and n = 0 and r = "fst ?r" and
      q = "snd ?r" and t = 50 and rs = "[0, 1]"] show ?thesis by simp
qed

text \<open>
  \<open>inet_addr\<close> and \<open>ntohl\<close> on the two bounds of the multicast range.
\<close>

definition inet_conventions :: "libc \<Rightarrow> bool" where
  "inet_conventions l = (ntohl l (inet_addr l ''224.0.0.0'') = 0xE0000000 \<and>
     ntohl l (inet_addr l ''240.0.0.0'') = 0xF0000000)"

lemma class_d_iff: "0xE0000000 \<le> a \<and> a < 0xF0000000 \<longleftrightarrow> drop_bit 28 a = (14 :: 32 word)"
proof -
  have "uint (drop_bit 28 a) = uint a div 2 ^ 28"
    by (simp add: drop_bit_eq_div uint_div)
  then have "drop_bit 28 a = 14 \<longleftrightarrow> uint a div 2 ^ 28 = 14"
    by (simp add: word_uint_eq_iff)
  also have "\<dots> \<longleftrightarrow> 0xE0000000 \<le> uint a \<and> uint a < 0xF0000000" by auto
  finally show ?thesis by (simp add: word_le_def word_less_def)
qed

text \<open>
  \<open>subscribeToMulticast\<close> joins a group exactly when the address is of class D, that is, its
  top four bits are 1110: it then sets the reuse option and asks for membership on any interface,
  and a failure of the latter is reported as \<open>SOCKET_BIND\<close>. Any other text, one that is no
  address included, is \<open>SOCKET_JOIN_MULTICAST\<close>, and no call is made.
\<close>

theorem subscribeToMulticast_class_d:
  assumes "inet_conventions l"
  shows "if drop_bit 28 (ntohl l (inet_addr l group_addr)) = 14
    then \<exists>a b. history (snd (subscribeToMulticast l k x group_addr p)) = history p @
        [Ev_Setsockopt (socket_fd x) (SO_REUSEADDR 1) a,
         Ev_Setsockopt (socket_fd x) (IP_ADD_MEMBERSHIP (inet_addr l group_addr) (htonl l 0)) b] \<and>
      fst (subscribeToMulticast l k x group_addr p) =
        (case b of Inl e \<Rightarrow> Inl (socket_exception SOCKET_BIND e (-1)) | Inr u \<Rightarrow> Inr u)
    else subscribeToMulticast l k x group_addr p =
      (Inl (socket_exception SOCKET_JOIN_MULTICAST (errno p) (-1)), p)"
proof (cases "drop_bit 28 (ntohl l (inet_addr l group_addr)) = 14")
  case True
  with class_d_iff [of "ntohl l (inet_addr l group_addr)"] assms
  show ?thesis
    by (simp add: subscribeToMulticast_def Let_def inet_conventions_def bindA_def ignore_result_def
        throw_errno_def sys_setsockopt_def syscall_def split: sum.split)
next
  case False
  with class_d_iff [of "ntohl l (inet_addr l group_addr)"] assms
  show ?thesis by (auto simp: subscribeToMulticast_def Let_def inet_conventions_def)
qed

theorem subscribeToMulticast_class_d_witness:
  "fst (subscribeToMulticast reference_libc (reference_kernel demo_datagrams) demo_udp ''10.0.0.1'' demo_process) =
     Inl (socket_exception SOCKET_JOIN_MULTICAST 0 (-1))"
proof -
  have "inet_conventions reference_libc" and "errno demo_process = 0"
    and "(drop_bit 28 (ntohl reference_libc (inet_addr reference_libc ''10.0.0.1'')) = 14) = False"
    by code_simp+
  with subscribeToMulticast_class_d [of reference_libc "''10.0.0.1''" "reference_kernel demo_datagrams"
      demo_udp demo_process] show ?thesis by simp
qed

text \<open>What a constructor that throws opened stays open.\<close>

lemma UdpDatagram_construct_leaks:
  "UdpDatagram_construct l k ip port version buffer_size p = (Inl e, q) \<Longrightarrow> leaks p q"
proof (rule never_closes_leaks)
  show "never_closes (UdpDatagram_construct l k ip port version buffer_size)"
    unfolding UdpDatagram_construct_def by (intro never_closes_intros)
qed

lemma udp_socket_type: "udp_socket_type = SOCK_DGRAM"
  by (simp add: udp_socket_type_def SOCK_DGRAM_def SO_REUSEADDR_value_def)

text \<open>
  \<open>inet_addr\<close> answers \<open>INADDR_NONE\<close> for a text that is no address, and \<open>write\<close> does not look at
  it: the datagram goes to the broadcast address \<open>255.255.255.255\<close>.
\<close>

lemma UdpDatagram_write_bad_address:
  assumes "ip_version x = Some IPv4" and "inet_addr l ip = 0xFFFFFFFF"
  shows "history (snd (UdpDatagram_write l k x msg ip port p)) = history p @
    [Ev_Sendto (socket_fd x) msg (Sockaddr_In 0xFFFFFFFF (htons l (word_of_int port)))
       (k_sendto k (history p) (socket_fd x) msg (Sockaddr_In 0xFFFFFFFF (htons l (word_of_int port))))]"
  using assms by (auto simp: UdpDatagram_write_def throw_errno_def bindA_def sys_sendto_def syscall_def
      split: sum.split)

end
