(* ===== verification/Udp_Concurrency.thy ===== *)
theory Udp_Concurrency
  imports Labelled_Steps Udp_Datagram
begin

text \<open>
  One \<open>UdpDatagram\<close> read by several threads. The class has a \<open>socket_mutex\<close> that no function
  locks, so a call of \<open>read\<close> is interrupted between its \<open>poll\<close>, its \<open>recvmsg\<close> into the member
  \<open>buffer\<close>, and the copy it returns (lines 100, 106 and 108 of \<open>UdpDatagram.cpp\<close>).
\<close>

section \<open>States and steps\<close>

text \<open>
  Where thread \<open>i\<close> is in \<open>read(timeout)\<close>: outside, at the \<open>poll\<close>, at the \<open>recvmsg\<close>, or behind
  it with the number of bytes it stored. A label is the datagram that a \<open>recvmsg\<close> stored, or
  what a call returned or threw.
\<close>

datatype udp_reader = Udp_Outside | Udp_Polling int | Udp_Receiving | Udp_Copying nat

datatype udp_label = Udp_Quiet | Udp_Stored nat "char list" | Udp_Returned nat "error + char list"

record udp_state =
  datagram :: UdpDatagram
  udp_process :: process
  udp_readers :: "nat \<Rightarrow> udp_reader"

abbreviation udp_moves :: "nat \<Rightarrow> udp_reader \<Rightarrow> process \<Rightarrow> udp_state \<Rightarrow> udp_state" where
  "udp_moves i a q s \<equiv> s\<lparr>udp_process := q, udp_readers := (udp_readers s)(i := a)\<rparr>"

inductive udp_step :: "kernel \<Rightarrow> udp_state \<Rightarrow> udp_label \<Rightarrow> udp_state \<Rightarrow> bool"
  for k where
  udp_called: "udp_readers s i = Udp_Outside \<Longrightarrow>
    udp_step k s Udp_Quiet (udp_moves i (Udp_Polling t) (udp_process s) s)"
| udp_polled: "udp_readers s i = Udp_Polling t \<Longrightarrow>
    sys_poll k (udp_fds (datagram s)) t (udp_process s) = (res, q) \<Longrightarrow>
    rs = (case res of None \<Rightarrow> [] | Some rs \<Rightarrow> rs) \<Longrightarrow>
    (case res of None \<Rightarrow> -1 | Some rs \<Rightarrow> poll_count rs) \<noteq> t \<Longrightarrow> revents rs 0 \<noteq> 0 \<Longrightarrow>
    udp_step k s Udp_Quiet (udp_moves i Udp_Receiving q s)"
| udp_not_polled: "udp_readers s i = Udp_Polling t \<Longrightarrow>
    sys_poll k (udp_fds (datagram s)) t (udp_process s) = (res, q) \<Longrightarrow>
    rs = (case res of None \<Rightarrow> [] | Some rs \<Rightarrow> rs) \<Longrightarrow>
    as_timeout = ((case res of None \<Rightarrow> -1 | Some rs \<Rightarrow> poll_count rs) = t) \<Longrightarrow> as_timeout \<or> revents rs 0 = 0 \<Longrightarrow>
    udp_step k s (Udp_Returned i (Inl (socket_exception (if as_timeout then SOCKET_POLL
        else if revents rs 1 \<noteq> 0 then SOCKET_TERMINATION_REQUEST else SOCKET_READ_TIMEOUT) (errno q) (-1))))
      (udp_moves i Udp_Outside q s)"
| udp_failed: "udp_readers s i = Udp_Receiving \<Longrightarrow>
    sys_recvmsg k (socket_fd (datagram s)) (length (buffer (datagram s))) (udp_process s) = (None, q) \<Longrightarrow>
    udp_step k s (Udp_Returned i (assertRecvmsgSucceded None q)) (udp_moves i Udp_Outside q s)"
| udp_truncated: "udp_readers s i = Udp_Receiving \<Longrightarrow>
    sys_recvmsg k (socket_fd (datagram s)) (length (buffer (datagram s))) (udp_process s) = (Some (bs, True), q) \<Longrightarrow>
    udp_step k s (Udp_Returned i (assertRecvmsgSucceded (Some (bs, True)) q))
      ((udp_moves i Udp_Outside q s)\<lparr>datagram := (datagram s)\<lparr>buffer := block_write (buffer (datagram s)) 0 bs\<rparr>\<rparr>)"
| udp_stored: "udp_readers s i = Udp_Receiving \<Longrightarrow>
    sys_recvmsg k (socket_fd (datagram s)) (length (buffer (datagram s))) (udp_process s) = (Some (bs, False), q) \<Longrightarrow>
    udp_step k s (Udp_Stored i bs)
      ((udp_moves i (Udp_Copying (length bs)) q s)\<lparr>datagram := (datagram s)\<lparr>buffer := block_write (buffer (datagram s)) 0 bs\<rparr>\<rparr>)"
| udp_copied: "udp_readers s i = Udp_Copying n \<Longrightarrow>
    udp_step k s (Udp_Returned i (Inr (take n (buffer (datagram s))))) (udp_moves i Udp_Outside (udp_process s) s)"

definition udp_start :: "UdpDatagram \<Rightarrow> process \<Rightarrow> udp_state" where
  "udp_start x p = \<lparr>datagram = x, udp_process = p, udp_readers = (\<lambda>_. Udp_Outside)\<rparr>"

text \<open>A call that is not interrupted is a run in which only its thread takes steps.\<close>

lemmas udp_single = runs_single [where step = "udp_step k" for k]
lemmas udp_Cons = runs_Cons [where step = "udp_step k" for k]

lemma udp_receive_runs:
  assumes "udp_readers w i = Udp_Receiving"
    and "sys_recvmsg k (socket_fd (datagram w)) (length (buffer (datagram w))) (udp_process w) = (msg, q)"
  defines "x \<equiv> (datagram w)\<lparr>buffer := block_write (buffer (datagram w)) 0
      (case msg of None \<Rightarrow> [] | Some (bs, _) \<Rightarrow> bs)\<rparr>"
  shows "\<exists>ls. runs (udp_step k) w (ls @ [Udp_Returned i (assertRecvmsgSucceded msg q)])
    ((udp_moves i Udp_Outside q w)\<lparr>datagram := x\<rparr>)"
proof (cases "\<exists>bs. msg = Some (bs, False)")
  case False
  then have "msg = None \<or> (\<exists>bs. msg = Some (bs, True))" by (cases msg) auto
  then have "udp_step k w (Udp_Returned i (assertRecvmsgSucceded msg q)) ((udp_moves i Udp_Outside q w)\<lparr>datagram := x\<rparr>)"
    using udp_failed [of w i k q] udp_truncated [of w i k _ q] assms by auto
  from udp_single [OF this] show ?thesis by (intro exI [of _ "[]"]) simp
next
  case True
  then obtain bs where bs: "msg = Some (bs, False)" by blast
  let ?f = "(udp_moves i (Udp_Copying (length bs)) q w)\<lparr>datagram := x\<rparr>"
  have stored: "udp_step k w (Udp_Stored i bs) ?f" using udp_stored [of w i k bs q] assms bs by simp
  have "take (length bs) (buffer x) = bs" using bs by (simp add: x_def block_write_def)
  moreover have end_state: "udp_moves i Udp_Outside (udp_process ?f) ?f = (udp_moves i Udp_Outside q w)\<lparr>datagram := x\<rparr>"
    by (cases w) simp
  ultimately have "udp_step k ?f (Udp_Returned i (assertRecvmsgSucceded msg q)) ((udp_moves i Udp_Outside q w)\<lparr>datagram := x\<rparr>)"
    using udp_copied [of ?f i "length bs" k, unfolded end_state] bs by (simp add: assertRecvmsgSucceded_def)
  from udp_Cons [OF stored udp_single [OF this]] show ?thesis by (intro exI [of _ "[Udp_Stored i bs]"]) simp
qed

lemma udp_read_runs:
  assumes "udp_readers s i = Udp_Outside" and "UdpDatagram_read k t (datagram s, udp_process s) = (r, (x, q))"
  shows "\<exists>ls. runs (udp_step k) s (ls @ [Udp_Returned i r]) (s\<lparr>datagram := x, udp_process := q\<rparr>)"
proof -
  let ?c = "udp_moves i (Udp_Polling t) (udp_process s) s"
  let ?e = "(udp_moves i Udp_Outside q ?c)\<lparr>datagram := x\<rparr>"
  have home: "?e = s\<lparr>datagram := x, udp_process := q\<rparr>" using assms(1) by (cases s) auto
  have call: "udp_step k s Udp_Quiet ?c" using assms(1) by (rule udp_called)
  obtain res q1 where poll: "sys_poll k (udp_fds (datagram s)) t (udp_process s) = (res, q1)" by (meson surj_pair)
  define rs where "rs = (case res of None \<Rightarrow> [] | Some rs \<Rightarrow> rs)"
  define n where "n = (case res of None \<Rightarrow> -1 | Some rs \<Rightarrow> poll_count rs)"
  note read = assms(2) [unfolded UdpDatagram_read_def Let_def fst_conv snd_conv poll prod.case,
    folded rs_def n_def]
  show ?thesis
  proof (cases "n = t \<or> revents rs 0 = 0")
    case True
    with read have x: "x = datagram s" "q1 = q" by (auto split: if_splits)
    have "udp_step k ?c (Udp_Returned i r) (udp_moves i Udp_Outside q ?c)"
      using udp_not_polled [of ?c i t k res q rs "n = t"] poll True read x by (auto simp: rs_def n_def split: if_splits)
    then have "udp_step k ?c (Udp_Returned i r) ?e" using x by simp
    from udp_Cons [OF call udp_single [OF this]] show ?thesis
      unfolding home by (intro exI [of _ "[Udp_Quiet]"]) simp
  next
    case False
    let ?w = "udp_moves i Udp_Receiving q1 ?c"
    have "udp_step k ?c Udp_Quiet ?w"
      using udp_polled [of ?c i t k res q1 rs] poll False by (simp add: rs_def n_def)
    note upto = udp_Cons [OF call udp_single [OF this]]
    obtain msg q2 where msg: "sys_recvmsg k (socket_fd (datagram s)) (length (buffer (datagram s))) q1 = (msg, q2)"
      by (meson surj_pair)
    from read False msg have out: "r = assertRecvmsgSucceded msg q" "q2 = q"
      "x = (datagram s)\<lparr>buffer := block_write (buffer (datagram s)) 0
        (case msg of None \<Rightarrow> [] | Some (bs, _) \<Rightarrow> bs)\<rparr>" by auto
    have after: "(udp_moves i Udp_Outside q ?w)\<lparr>datagram := x\<rparr> = ?e" by simp
    from udp_receive_runs [of ?w i k msg q] msg out obtain ls where
      "runs (udp_step k) ?w (ls @ [Udp_Returned i r]) ?e" unfolding after [symmetric] by auto
    from runs_append [OF upto this] show ?thesis
      unfolding home by (intro exI [of _ "Udp_Quiet # Udp_Quiet # ls"]) simp
  qed
qed

section \<open>What concurrent reads return\<close>

fun label_stored :: "nat \<Rightarrow> udp_label \<Rightarrow> char list list" where
  "label_stored i (Udp_Stored j bs) = (if j = i then [bs] else [])"
| "label_stored i _ = []"

fun label_got :: "nat \<Rightarrow> udp_label \<Rightarrow> char list list" where
  "label_got i (Udp_Returned j (Inr bs)) = (if j = i then [bs] else [])"
| "label_got i _ = []"

definition stored_by :: "nat \<Rightarrow> udp_label list \<Rightarrow> char list list" where
  "stored_by i ls = concat (map (label_stored i) ls)"

definition got_by :: "nat \<Rightarrow> udp_label list \<Rightarrow> char list list" where
  "got_by i ls = concat (map (label_got i) ls)"

lemma udp_label_simps [simp]:
  "stored_by i [] = []" "stored_by i (ls @ [l]) = stored_by i ls @ label_stored i l"
  "got_by i [] = []" "got_by i (ls @ [l]) = got_by i ls @ label_got i l"
  by (simp_all add: stored_by_def got_by_def)

text \<open>The copy a thread would make now.\<close>

fun copy_due :: "UdpDatagram \<Rightarrow> udp_reader \<Rightarrow> char list list" where
  "copy_due x (Udp_Copying n) = [take n (buffer x)]"
| "copy_due x _ = []"

definition udp_sized :: "nat \<Rightarrow> udp_state \<Rightarrow> bool" where
  "udp_sized n s = (length (buffer (datagram s)) = n \<and>
     (\<forall>i m. udp_readers s i = Udp_Copying m \<longrightarrow> m \<le> n))"

lemma recvmsg_size:
  assumes "recvmsg_bounded k" and "sys_recvmsg k d n p = (Some (bs, tr), q)"
  shows "length bs \<le> n"
proof -
  from assms(2) have "k_recvmsg k (history p) d n = Inr (bs, tr)"
    by (auto simp: sys_recvmsg_def syscall_def split: sum.splits)
  with assms(1) show ?thesis unfolding recvmsg_bounded_def by blast
qed

lemma udp_step_sized:
  assumes "recvmsg_bounded k" and "udp_sized n s" and "udp_step k s l t"
  shows "udp_sized n t"
  using assms(3)
proof (cases rule: udp_step.cases)
  case (udp_truncated i bs q)
  with assms(2) recvmsg_size [OF assms(1) udp_truncated(4)] show ?thesis by (auto simp: udp_sized_def)
next
  case (udp_stored i bs q)
  with assms(2) recvmsg_size [OF assms(1) udp_stored(4)] show ?thesis by (auto simp: udp_sized_def)
qed (use assms(2) in \<open>auto simp: udp_sized_def\<close>)

lemma udp_step_lengths:
  assumes "recvmsg_bounded k" and "udp_sized n s" and "udp_step k s l t"
  shows "map length (copy_due (datagram s) (udp_readers s i)) @ map length (label_stored i l) =
    map length (label_got i l) @ map length (copy_due (datagram t) (udp_readers t i))"
  using assms(3)
proof (cases rule: udp_step.cases)
  case (udp_truncated j bs q)
  with assms(2) recvmsg_size [OF assms(1) udp_truncated(4)] show ?thesis
    by (cases "udp_readers s i") (auto simp: udp_sized_def assertRecvmsgSucceded_def)
next
  case (udp_stored j bs q)
  with assms(2) recvmsg_size [OF assms(1) udp_stored(4)] show ?thesis
    by (cases "udp_readers s i") (auto simp: udp_sized_def)
qed (auto simp: assertRecvmsgSucceded_def)

lemma udp_step_got_size:
  assumes "udp_sized n s" and "udp_step k s l t" and "bs \<in> set (label_got i l)"
  shows "length bs \<le> n"
  using assms(2)
proof (cases rule: udp_step.cases)
  case (udp_copied j m)
  with assms(1,3) show ?thesis by (auto simp: udp_sized_def split: if_splits)
qed (use assms(3) in \<open>auto simp: assertRecvmsgSucceded_def\<close>)

text \<open>
  Bounds of concurrent reads. However calls of \<open>UdpDatagram::read\<close> interleave, the buffer keeps
  its size, what a call returns is within it, and each call returns exactly as many bytes as the
  datagram it received had.
\<close>

theorem udp_reads_stay_in_bounds:
  assumes "recvmsg_bounded k" and "runs (udp_step k) (udp_start x p) ls s"
  shows "length (buffer (datagram s)) = length (buffer x) \<and>
    (\<forall>i. map length (stored_by i ls) = map length (got_by i ls) @
        map length (copy_due (datagram s) (udp_readers s i)) \<and>
      (\<forall>bs \<in> set (got_by i ls). length bs \<le> length (buffer x)))"
proof -
  have "udp_sized (length (buffer x)) s \<and> (\<forall>i. map length (stored_by i ls) = map length (got_by i ls) @
      map length (copy_due (datagram s) (udp_readers s i)) \<and> (\<forall>bs \<in> set (got_by i ls). length bs \<le> length (buffer x)))"
    using assms(2)
  proof (induction "udp_start x p" ls s rule: runs.induct)
    case runs_Nil
    then show ?case by (simp add: udp_start_def udp_sized_def)
  next
    case (runs_snoc ls s l t)
    then have sized: "udp_sized (length (buffer x)) s" by simp
    have "map length (stored_by i (ls @ [l])) = map length (got_by i (ls @ [l])) @
        map length (copy_due (datagram t) (udp_readers t i))" for i
      using runs_snoc(2) udp_step_lengths [OF assms(1) sized runs_snoc(3), of i] by simp
    with runs_snoc(2) udp_step_sized [OF assms(1) sized runs_snoc(3)]
      udp_step_got_size [OF sized runs_snoc(3)] show ?case by auto
  qed
  then show ?thesis by (simp add: udp_sized_def)
qed

text \<open>
  Runs in which at most one call at a time is between its \<open>poll\<close> and its copy, as locking the
  \<open>socket_mutex\<close> there would have it.
\<close>

fun uses_buffer :: "udp_reader \<Rightarrow> bool" where
  "uses_buffer Udp_Receiving = True"
| "uses_buffer (Udp_Copying n) = True"
| "uses_buffer _ = False"

definition one_user :: "udp_state \<Rightarrow> bool" where
  "one_user s = (\<forall>i j. uses_buffer (udp_readers s i) \<longrightarrow> uses_buffer (udp_readers s j) \<longrightarrow> i = j)"

definition separate_step :: "kernel \<Rightarrow> udp_state \<Rightarrow> udp_label \<Rightarrow> udp_state \<Rightarrow> bool" where
  "separate_step k s l t = (udp_step k s l t \<and> one_user s)"

lemma separate_step_copies:
  assumes "separate_step k s l t"
  shows "copy_due (datagram s) (udp_readers s i) @ label_stored i l =
    label_got i l @ copy_due (datagram t) (udp_readers t i)"
proof -
  from assms have step: "udp_step k s l t" and one: "one_user s" by (simp_all add: separate_step_def)
  have alone: "copy_due x (udp_readers s i) = []" if "udp_readers s j = Udp_Receiving" for j x
  proof (cases "i = j")
    case False
    with that one have "\<not> uses_buffer (udp_readers s i)" by (auto simp: one_user_def)
    then show ?thesis by (cases "udp_readers s i") simp_all
  qed (simp add: that)
  from step show ?thesis
  proof (cases rule: udp_step.cases)
    case (udp_truncated j bs q)
    with alone [of j] show ?thesis by (simp add: assertRecvmsgSucceded_def)
  next
    case (udp_stored j bs q)
    with alone [of j] show ?thesis by (simp add: block_write_def)
  qed (auto simp: assertRecvmsgSucceded_def)
qed

text \<open>
  Reads that keep apart deliver. If at most one call at a time is between its \<open>poll\<close> and its
  copy, every thread returns exactly the datagrams that its own calls received, in order, but
  for one that it has still to copy.
\<close>

theorem separate_udp_reads_deliver:
  assumes "runs (separate_step k) (udp_start x p) ls s"
  shows "stored_by i ls = got_by i ls @ copy_due (datagram s) (udp_readers s i)"
  using assms
proof (induction "udp_start x p" ls s rule: runs.induct)
  case runs_Nil
  then show ?case by (simp add: udp_start_def)
next
  case (runs_snoc ls s l t)
  with separate_step_copies [OF runs_snoc(3), of i] show ?case by simp
qed

lemma udp_stored_sizes:
  assumes "udp_readers s i = Udp_Receiving" and "datagram s = x"
    and "sys_recvmsg k (socket_fd x) n (udp_process s) = (Some (bs, False), q)"
    and "length (buffer x) = n" and "length bs = m" and "block_write (buffer x) 0 bs = b"
  shows "udp_step k s (Udp_Stored i bs) ((udp_moves i (Udp_Copying m) q s)\<lparr>datagram := x\<lparr>buffer := b\<rparr>\<rparr>)"
  using udp_stored [of s i k bs q] assms by simp

text \<open>
  C39: reads that do not keep apart mix up their datagrams. Two threads receive two datagrams, one
  after the other, before either copies the shared buffer: both calls return the second
  datagram, and the first is lost without an error.
\<close>

theorem concurrent_udp_reads_mix:
  "\<exists>k x p ls s. recvmsg_bounded k \<and> runs (udp_step k) (udp_start x p) ls s \<and>
     stored_by 0 ls = [''ping''] \<and> stored_by 1 ls = [''pong''] \<and>
     got_by 0 ls = [''pong''] \<and> got_by 1 ls = [''pong'']"
proof -
  let ?k = "reference_kernel demo_datagrams"
  let ?poll = "\<lambda>p. snd (sys_poll ?k (udp_fds demo_udp) (-1) p)"
  let ?recv = "\<lambda>p. snd (sys_recvmsg ?k 5 6 p)"
  let ?q1 = "?poll demo_process" and ?q2 = "?poll (?poll demo_process)"
  have out: "fst (sys_poll ?k (udp_fds demo_udp) (-1) demo_process) = Some [1, 0]"
    "fst (sys_poll ?k (udp_fds demo_udp) (-1) ?q1) = Some [1, 0]"
    "fst (sys_recvmsg ?k 5 6 ?q2) = Some (''ping'', False)"
    "fst (sys_recvmsg ?k 5 6 (?recv ?q2)) = Some (''pong'', False)" by code_simp+
  let ?s0 = "udp_start demo_udp demo_process"
  let ?s1 = "udp_moves 0 (Udp_Polling (-1)) demo_process ?s0"
  let ?s2 = "udp_moves 1 (Udp_Polling (-1)) demo_process ?s1"
  let ?s3 = "udp_moves 0 Udp_Receiving ?q1 ?s2"
  let ?s4 = "udp_moves 1 Udp_Receiving ?q2 ?s3"
  let ?s5 = "(udp_moves 0 (Udp_Copying 4) (?recv ?q2) ?s4)\<lparr>datagram := demo_udp\<lparr>buffer := ''ping..''\<rparr>\<rparr>"
  let ?s6 = "(udp_moves 1 (Udp_Copying 4) (?recv (?recv ?q2)) ?s5)\<lparr>datagram := demo_udp\<lparr>buffer := ''pong..''\<rparr>\<rparr>"
  let ?s7 = "udp_moves 0 Udp_Outside (udp_process ?s6) ?s6"
  have x: "socket_fd demo_udp = 5" "buffer demo_udp = ''......''" by (simp_all add: demo_udp_def)
  have "udp_step ?k ?s0 Udp_Quiet ?s1" "udp_step ?k ?s1 Udp_Quiet ?s2"
    using udp_called [of ?s0 0 ?k "-1"] udp_called [of ?s1 1 ?k "-1"] by (simp_all add: udp_start_def)
  moreover have "udp_step ?k ?s2 Udp_Quiet ?s3" "udp_step ?k ?s3 Udp_Quiet ?s4"
    using pair_of_fst [OF out(1)] pair_of_fst [OF out(2)]
    by (intro udp_polled [where t = "-1" and rs = "[1, 0]" and res = "Some [1, 0]"];
        simp add: udp_start_def poll_count_def)+
  moreover have "udp_step ?k ?s4 (Udp_Stored 0 ''ping'') ?s5"
    using pair_of_fst [OF out(3)] x
    by (intro udp_stored_sizes [where n = 6]) (simp_all add: udp_start_def block_write_def)
  moreover have "udp_step ?k ?s5 (Udp_Stored 1 ''pong'')
      ((udp_moves 1 (Udp_Copying 4) (?recv (?recv ?q2)) ?s5)\<lparr>datagram := (datagram ?s5)\<lparr>buffer := ''pong..''\<rparr>\<rparr>)"
    using pair_of_fst [OF out(4)] x
    by (intro udp_stored_sizes [where n = 6]) (simp_all add: block_write_def)
  then have "udp_step ?k ?s5 (Udp_Stored 1 ''pong'') ?s6" by simp
  moreover have "udp_step ?k ?s6 (Udp_Returned 0 (Inr ''pong'')) ?s7"
    "udp_step ?k ?s7 (Udp_Returned 1 (Inr ''pong'')) (udp_moves 1 Udp_Outside (udp_process ?s7) ?s7)"
    using udp_copied [of ?s6 0 4 ?k] udp_copied [of ?s7 1 4 ?k] by simp_all
  ultimately have "runs (udp_step ?k) ?s0 [Udp_Quiet, Udp_Quiet, Udp_Quiet, Udp_Quiet, Udp_Stored 0 ''ping'',
      Udp_Stored 1 ''pong'', Udp_Returned 0 (Inr ''pong''), Udp_Returned 1 (Inr ''pong'')]
      (udp_moves 1 Udp_Outside (udp_process ?s7) ?s7)"
    by (intro udp_Cons udp_single)
  then show ?thesis
    by (intro exI [of _ ?k] exI [of _ demo_udp] exI [of _ demo_process] exI conjI)
      (assumption | simp add: stored_by_def got_by_def)+
qed

theorem udp_reads_stay_in_bounds_witness:
  "\<exists>ls s. runs (udp_step (reference_kernel demo_datagrams)) (udp_start demo_udp demo_process) ls s \<and>
     ''ping'' \<in> set (got_by 0 ls) \<and> length (buffer (datagram s)) = length (buffer demo_udp) \<and>
     map length (stored_by 0 ls) = map length (got_by 0 ls)"
proof -
  let ?k = "reference_kernel demo_datagrams"
  let ?first = "udp_start demo_udp demo_process"
  let ?r = "UdpDatagram_read ?k (-1) (demo_udp, demo_process)"
  let ?s = "?first\<lparr>datagram := fst (snd ?r), udp_process := snd (snd ?r)\<rparr>"
  have start: "udp_readers ?first 0 = Udp_Outside" "datagram ?first = demo_udp" "udp_process ?first = demo_process"
    by (simp_all add: udp_start_def)
  have "fst ?r = Inr ''ping''" by code_simp
  then have "UdpDatagram_read ?k (-1) (datagram ?first, udp_process ?first) = (Inr ''ping'', (fst (snd ?r), snd (snd ?r)))"
    unfolding start by (metis prod.collapse)
  from udp_read_runs [OF start(1) this] obtain ls where
    run: "runs (udp_step ?k) ?first (ls @ [Udp_Returned 0 (Inr ''ping'')]) ?s" by blast
  note bounds = udp_reads_stay_in_bounds [OF reference_recvmsg_bounded run]
  have "copy_due (datagram ?s) (udp_readers ?s 0) = []" using start(1) by simp
  moreover have "''ping'' \<in> set (got_by 0 (ls @ [Udp_Returned 0 (Inr ''ping'')]))" by simp
  ultimately show ?thesis using run bounds by (metis append_Nil2 list.simps(8))
qed

theorem separate_udp_reads_deliver_witness:
  "\<exists>ls s. runs (separate_step (reference_kernel demo_datagrams)) (udp_start demo_udp demo_process) ls s \<and>
     stored_by 0 ls = [''ping''] \<and> stored_by 0 ls = got_by 0 ls @ copy_due (datagram s) (udp_readers s 0)"
proof -
  let ?k = "reference_kernel demo_datagrams"
  let ?q1 = "snd (sys_poll ?k (udp_fds demo_udp) (-1) demo_process)"
  let ?q2 = "snd (sys_recvmsg ?k 5 6 ?q1)"
  have out: "fst (sys_poll ?k (udp_fds demo_udp) (-1) demo_process) = Some [1, 0]"
    "fst (sys_recvmsg ?k 5 6 ?q1) = Some (''ping'', False)" by code_simp+
  let ?s0 = "udp_start demo_udp demo_process"
  let ?s1 = "udp_moves 0 (Udp_Polling (-1)) demo_process ?s0"
  let ?s2 = "udp_moves 0 Udp_Receiving ?q1 ?s1"
  let ?s3 = "(udp_moves 0 (Udp_Copying 4) ?q2 ?s2)\<lparr>datagram := demo_udp\<lparr>buffer := ''ping..''\<rparr>\<rparr>"
  have x: "socket_fd demo_udp = 5" "buffer demo_udp = ''......''" by (simp_all add: demo_udp_def)
  have "udp_step ?k ?s0 Udp_Quiet ?s1" using udp_called [of ?s0 0 ?k "-1"] by (simp add: udp_start_def)
  moreover have "udp_step ?k ?s1 Udp_Quiet ?s2"
    using pair_of_fst [OF out(1)] by (intro udp_polled [where t = "-1" and rs = "[1, 0]" and res = "Some [1, 0]"])
      (simp_all add: udp_start_def poll_count_def)
  moreover have "udp_step ?k ?s2 (Udp_Stored 0 ''ping'') ?s3"
    using pair_of_fst [OF out(2)] x
    by (intro udp_stored_sizes [where n = 6]) (simp_all add: udp_start_def block_write_def)
  moreover have "one_user ?s0" "one_user ?s1" "one_user ?s2" by (auto simp: one_user_def udp_start_def)
  ultimately have "separate_step ?k ?s0 Udp_Quiet ?s1" "separate_step ?k ?s1 Udp_Quiet ?s2"
    "separate_step ?k ?s2 (Udp_Stored 0 ''ping'') ?s3" by (simp_all only: separate_step_def simp_thms)
  then have run: "runs (separate_step ?k) ?s0 [Udp_Quiet, Udp_Quiet, Udp_Stored 0 ''ping''] ?s3"
    by (intro runs_Cons [where step = "separate_step ?k"] runs_single [where step = "separate_step ?k"])
  have "stored_by 0 [Udp_Quiet, Udp_Quiet, Udp_Stored 0 ''ping''] = [''ping'']" by (simp add: stored_by_def)
  with separate_udp_reads_deliver [OF run, of 0] run show ?thesis by blast
qed

end
