(* ===== verification/Udp_Link.thy ===== *)
theory Udp_Link
  imports Udp_Datagram
begin

text \<open>
  Two \<open>UdpDatagram\<close> objects: one whose client writes messages, to any addresses, and one that is
  bound to an address and reads. UDP may lose, repeat and reorder datagrams, but keeps their
  boundaries: what a \<open>read\<close> returns is a message that was written, whole.
\<close>

section \<open>The network\<close>

text \<open>The datagrams that were sent to an address, in the order of the calls.\<close>

fun event_datagram :: "sockaddr \<Rightarrow> event \<Rightarrow> char list list" where
  "event_datagram a (Ev_Sendto d m a' (Inr n)) = (if a' = a then [m] else [])"
| "event_datagram a _ = []"

definition datagrams_to :: "sockaddr \<Rightarrow> history \<Rightarrow> char list list" where
  "datagrams_to a h = concat (map (event_datagram a) h)"

lemma datagrams_to_simps [simp]:
  "datagrams_to a [] = []" "datagrams_to a (h @ h') = datagrams_to a h @ datagrams_to a h'"
  "datagrams_to a (e # h) = event_datagram a e @ datagrams_to a h"
  by (simp_all add: datagrams_to_def)

text \<open>
  \<open>recvmsg(2)\<close> on a datagram socket that is bound to the address: one datagram per call, one
  that was sent to it before, cut to the room in the buffer, with \<open>MSG_TRUNC\<close> if it was cut.
\<close>

definition delivers_datagrams :: "kernel \<Rightarrow> fd \<Rightarrow> sockaddr \<Rightarrow> bool" where
  "delivers_datagrams k b a = (\<forall>h n bs truncated. k_recvmsg k h b n = Inr (bs, truncated) \<longrightarrow>
     (\<exists>m \<in> set (datagrams_to a h). bs = take n m \<and> truncated = (n < length m)))"

section \<open>The calls at both ends\<close>

datatype udp_call = Write_To "char list" string int | Read_Within int | Stop_Reads

definition destination :: "libc \<Rightarrow> string \<Rightarrow> int \<Rightarrow> sockaddr" where
  "destination l ip port = Sockaddr_In (inet_addr l ip) (htons l (word_of_int port))"

text \<open>
  The calls in any order, those that throw included; the result is the messages that were written,
  with their addresses, and those that were read.
\<close>

type_synonym udp_log = "(char list \<times> sockaddr) list \<times> char list list"

fun udp_link_run :: "libc \<Rightarrow> kernel \<Rightarrow> UdpDatagram \<Rightarrow> udp_call list \<Rightarrow> udp_log \<Rightarrow>
    UdpDatagram \<times> process \<Rightarrow> udp_log \<times> UdpDatagram \<times> process" where
  "udp_link_run l k x [] out yp = (out, yp)"
| "udp_link_run l k x (Write_To m ip port # cs) out (y, p) =
     (case UdpDatagram_write l k x m ip port p of
        (Inl e, q) \<Rightarrow> udp_link_run l k x cs out (y, q)
      | (Inr u, q) \<Rightarrow> udp_link_run l k x cs (fst out @ [(m, destination l ip port)], snd out) (y, q))"
| "udp_link_run l k x (Read_Within t # cs) out yp =
     (case UdpDatagram_read k t yp of
        (Inl e, yq) \<Rightarrow> udp_link_run l k x cs out yq
      | (Inr bs, yq) \<Rightarrow> udp_link_run l k x cs (fst out, snd out @ [bs]) yq)"
| "udp_link_run l k x (Stop_Reads # cs) out (y, p) =
     udp_link_run l k x cs out (y, snd (UdpDatagram_stopReads k y p))"

definition written_to :: "sockaddr \<Rightarrow> udp_log \<Rightarrow> char list list" where
  "written_to a out = map fst (filter (\<lambda>m. snd m = a) (fst out))"

definition udp_link_inv :: "fd \<Rightarrow> nat \<Rightarrow> sockaddr \<Rightarrow> udp_log \<Rightarrow> UdpDatagram \<times> process \<Rightarrow> bool" where
  "udp_link_inv b n a out yp =
     (socket_fd (fst yp) = b \<and> length (buffer (fst yp)) = n \<and>
      datagrams_to a (history (snd yp)) = written_to a out \<and>
      (\<forall>bs \<in> set (snd out). bs \<in> set (written_to a out) \<and> length bs \<le> n))"

lemma write_datagram:
  assumes "UdpDatagram_write l k x m ip port p = (r, q)"
  shows "datagrams_to a (history q) = datagrams_to a (history p) @
    (case r of Inl e \<Rightarrow> [] | Inr u \<Rightarrow> if destination l ip port = a then [m] else [])"
  using assms
  by (auto simp: UdpDatagram_write_def bindA_def throw_errno_def sys_sendto_def syscall_def destination_def
      split: option.splits IP_VERSION.splits sum.splits)

lemma read_datagram:
  assumes "delivers_datagrams k (socket_fd y) a" and "UdpDatagram_read k t (y, p) = (r, (y', q))"
  shows "socket_fd y' = socket_fd y \<and> length (buffer y') = length (buffer y) \<and>
    datagrams_to a (history q) = datagrams_to a (history p) \<and>
    (\<forall>bs. r = Inr bs \<longrightarrow> bs \<in> set (datagrams_to a (history p)) \<and> length bs \<le> length (buffer y))"
proof -
  obtain res u where poll: "sys_poll k (udp_fds y) t p = (res, u)" by fastforce
  then have u: "datagrams_to a (history u) = datagrams_to a (history p)"
    by (auto simp: sys_poll_def syscall_def split: sum.splits)
  obtain msg v where recv: "sys_recvmsg k (socket_fd y) (length (buffer y)) u = (msg, v)" by fastforce
  then have v: "datagrams_to a (history v) = datagrams_to a (history u)"
    by (auto simp: sys_recvmsg_def syscall_def split: sum.splits)
  have got: "\<exists>m \<in> set (datagrams_to a (history u)). bs = take (length (buffer y)) m \<and> tr = (length (buffer y) < length m)"
    if "msg = Some (bs, tr)" for bs tr
    using assms(1) recv that unfolding delivers_datagrams_def
    by (auto simp: sys_recvmsg_def syscall_def split: sum.splits)
  then have short: "length bs \<le> length (buffer y)" if "msg = Some (bs, tr)" for bs tr
    using that by fastforce
  show ?thesis
    using assms(2) poll recv u v got short
    by (fastforce simp: UdpDatagram_read_def Let_def assertRecvmsgSucceded_def
        split: if_splits option.splits prod.splits)
qed

lemma udp_link_invariant:
  assumes "delivers_datagrams k b a" and "udp_link_inv b n a out yp"
    and "udp_link_run l k x cs out yp = (out', yp')"
  shows "udp_link_inv b n a out' yp'"
  using assms
proof (induction l k x cs out yp rule: udp_link_run.induct)
  case (2 l k x m ip port cs out y p)
  obtain r q where w: "UdpDatagram_write l k x m ip port p = (r, q)" by fastforce
  note sent = write_datagram [OF w, of a]
  show ?case
  proof (cases r)
    case (Inl e)
    with 2 w sent show ?thesis by (auto simp: udp_link_inv_def)
  next
    case (Inr u)
    with 2(4) sent have "udp_link_inv b n a (fst out @ [(m, destination l ip port)], snd out) (y, q)"
      by (auto simp: udp_link_inv_def written_to_def)
    with 2(2,3,5) w Inr show ?thesis by simp
  qed
next
  case (3 l k x t cs out yp)
  obtain y p where yp: "yp = (y, p)" by fastforce
  obtain r y' q where read: "UdpDatagram_read k t (y, p) = (r, (y', q))" by (metis prod_cases3)
  have "delivers_datagrams k (socket_fd y) a" using 3(3,4) yp by (simp add: udp_link_inv_def)
  note got = read_datagram [OF this read]
  show ?case
  proof (cases r)
    case (Inl e)
    with 3 yp read got show ?thesis by (auto simp: udp_link_inv_def)
  next
    case (Inr bs)
    with 3(4) yp got have "udp_link_inv b n a (fst out, snd out @ [bs]) (y', q)"
      by (auto simp: udp_link_inv_def written_to_def)
    with 3(2,3,5) yp read Inr show ?thesis by simp
  qed
next
  case (4 l k x cs out y p)
  then show ?case
    by (simp add: udp_link_inv_def UdpDatagram_stopReads_def ignore_result_def sys_eventfd_write_def syscall_history)
qed simp

text \<open>
  C14: Datagrams arrive whole. Whatever is written to whatever addresses, and however writes, reads
  and \<open>stopReads\<close> follow one another, everything that \<open>UdpDatagram::read\<close> returns is a message that
  was written to the address of the socket, complete and unchanged, and not longer than the buffer;
  a longer one is reported, never returned in part.
\<close>

theorem datagrams_arrive_whole:
  assumes "delivers_datagrams k (socket_fd y) a" and "datagrams_to a (history p) = []"
    and "udp_link_run l k x cs ([], []) (y, p) = ((written, got), yp')"
  shows "\<forall>bs \<in> set got. (bs, a) \<in> set written \<and> length bs \<le> length (buffer y)"
proof -
  have "udp_link_inv (socket_fd y) (length (buffer y)) a ([], []) (y, p)"
    using assms(2) by (simp add: udp_link_inv_def written_to_def)
  from udp_link_invariant [OF assms(1) this assms(3)] show ?thesis
    by (auto simp: udp_link_inv_def written_to_def)
qed

text \<open>A network that delivers every datagram to the address once, in order.\<close>

definition lossless_address :: sockaddr where
  "lossless_address = destination reference_libc ''10.0.0.1'' 5000"

definition lossless_recvmsg :: "sockaddr \<Rightarrow> history \<Rightarrow> fd \<Rightarrow> nat \<Rightarrow> (char list \<times> bool) answer" where
  "lossless_recvmsg a h d n =
     (case drop (datagram_count h) (datagrams_to a h) of
        [] \<Rightarrow> Inl EAGAIN
      | m # ms \<Rightarrow> Inr (take n m, n < length m))"

definition lossless_kernel :: kernel where
  "lossless_kernel = (reference_kernel demo_datagrams)\<lparr>k_recvmsg := lossless_recvmsg lossless_address\<rparr>"

lemma lossless_delivers: "delivers_datagrams lossless_kernel b lossless_address"
proof -
  have "m \<in> set ms" if "drop n ms = m # rest" for n ms and m :: "char list" and rest
    using that by (metis in_set_dropD list.set_intros(1))
  then show ?thesis
    by (fastforce simp: delivers_datagrams_def lossless_kernel_def lossless_recvmsg_def split: list.splits)
qed

theorem datagrams_arrive_whole_witness:
  "let calls = [Write_To ''hello'' ''10.0.0.1'' 5000, Write_To ''elsewhere'' ''10.0.0.1'' 5001,
       Write_To ''too long'' ''10.0.0.1'' 5000, Read_Within (-1), Read_Within (-1)];
     run = udp_link_run reference_libc lossless_kernel demo_udp calls ([], []) (demo_udp, demo_process)
   in snd (fst run) = [''hello''] \<and> (\<forall>bs \<in> set (snd (fst run)). (bs, lossless_address) \<in> set (fst (fst run)))"
proof -
  let ?calls = "[Write_To ''hello'' ''10.0.0.1'' 5000, Write_To ''elsewhere'' ''10.0.0.1'' 5001,
       Write_To ''too long'' ''10.0.0.1'' 5000, Read_Within (-1), Read_Within (-1)]"
  let ?run = "udp_link_run reference_libc lossless_kernel demo_udp ?calls ([], []) (demo_udp, demo_process)"
  have got: "snd (fst ?run) = [''hello'']" by code_simp
  have "datagrams_to lossless_address (history demo_process) = []" by (simp add: demo_process_def)
  moreover have "?run = ((fst (fst ?run), snd (fst ?run)), snd ?run)" by simp
  ultimately have "\<forall>bs \<in> set (snd (fst ?run)). (bs, lossless_address) \<in> set (fst (fst ?run)) \<and>
      length bs \<le> length (buffer demo_udp)"
    using datagrams_arrive_whole [OF lossless_delivers] by blast
  with got show ?thesis by (simp only: Let_def) blast
qed

section \<open>The default buffer\<close>

text \<open>
  The constructor's default argument. A UDP datagram over IPv4 carries at most 65507 bytes; \<open>sendto(2)\<close>
  fails with \<open>EMSGSIZE\<close> for more.
\<close>

definition default_buffer_size :: int where
  "default_buffer_size = 65536"

definition payload_limited :: "kernel \<Rightarrow> bool" where
  "payload_limited k = (\<forall>h d m a n. k_sendto k h d m a = Inr n \<longrightarrow> length m \<le> 65507)"

lemma write_limited:
  assumes "payload_limited k" and "UdpDatagram_write l k x m ip port p = (Inr u, q)"
  shows "length m \<le> 65507"
proof -
  from assms(2) obtain c where "k_sendto k (history p) (socket_fd x) m (destination l ip port) = Inr c"
    by (auto simp: UdpDatagram_write_def bindA_def throw_errno_def sys_sendto_def syscall_def destination_def
        split: option.splits IP_VERSION.splits sum.splits)
  with assms(1) show ?thesis unfolding payload_limited_def by blast
qed

lemma link_run_limited:
  assumes "payload_limited k" and "udp_link_run l k x cs out yp = (out', yp')"
    and "\<forall>w \<in> set (fst out). length (fst w) \<le> 65507"
  shows "\<forall>w \<in> set (fst out'). length (fst w) \<le> 65507"
  using assms
proof (induction l k x cs out yp rule: udp_link_run.induct)
  case (2 l k x m ip port cs out y p)
  obtain r q where w: "UdpDatagram_write l k x m ip port p = (r, q)" by fastforce
  show ?case
  proof (cases r)
    case (Inl e)
    with 2 w show ?thesis by simp
  next
    case (Inr u)
    with write_limited [OF 2(3), of l x m ip port p u q] w have "length m \<le> 65507" by simp
    with 2(2-5) w Inr show ?thesis by simp
  qed
next
  case (3 l k x t cs out yp)
  obtain r yq where "UdpDatagram_read k t yp = (r, yq)" by (meson surj_pair)
  with 3 show ?case by (cases r) simp_all
qed simp_all

text \<open>A \<open>read\<close> that finds its buffer too small met a datagram that is longer than the buffer.\<close>

lemma too_small_means_longer:
  assumes "delivers_datagrams k (socket_fd y) a"
    and "UdpDatagram_read k t (y, p) = (Inl (socket_exception SOCKET_RECEIVE_BUFFER_TOO_SMALL e n), z)"
  shows "\<exists>m \<in> set (datagrams_to a (history p)). length (buffer y) < length m"
proof -
  obtain res u where poll: "sys_poll k (udp_fds y) t p = (res, u)" by fastforce
  then have u: "datagrams_to a (history u) = datagrams_to a (history p)"
    by (auto simp: sys_poll_def syscall_def split: sum.splits)
  obtain msg v where recv: "sys_recvmsg k (socket_fd y) (length (buffer y)) u = (msg, v)" by fastforce
  from assms(2) poll recv have "\<exists>bs. msg = Some (bs, True)"
    by (auto simp: UdpDatagram_read_def Let_def assertRecvmsgSucceded_def socket_exception_def
        split: if_splits option.splits)
  with recv obtain bs where "k_recvmsg k (history u) (socket_fd y) (length (buffer y)) = Inr (bs, True)"
    by (auto simp: sys_recvmsg_def syscall_def split: sum.splits)
  with assms(1) u show ?thesis unfolding delivers_datagrams_def by fastforce
qed

lemma construct_buffer:
  "UdpDatagram_construct l k ip port version n p = (Inr y, q) \<Longrightarrow> length (buffer y) = nat n"
  unfolding UdpDatagram_construct_def
  by (elim bindA_InrE) (auto split: prod.splits option.splits if_splits)

text \<open>
  C32: The default buffer is large enough. An object that was constructed with the default size never
  throws \<open>SOCKET_RECEIVE_BUFFER_TOO_SMALL\<close>, whatever was sent to it and whatever calls came before:
  65536 bytes are more than a datagram can carry.
\<close>

theorem default_buffer_suffices:
  assumes "UdpDatagram_construct l k ip port version default_buffer_size p0 = (Inr y, p)"
    and "delivers_datagrams k (socket_fd y) a" and "payload_limited k" and "datagrams_to a (history p) = []"
    and "udp_link_run l k x cs ([], []) (y, p) = (out, (y', p'))"
    and "UdpDatagram_read k t (y', p') = (Inl e, z)"
  shows "e \<noteq> socket_exception SOCKET_RECEIVE_BUFFER_TOO_SMALL err n"
proof
  assume e: "e = socket_exception SOCKET_RECEIVE_BUFFER_TOO_SMALL err n"
  have "udp_link_inv (socket_fd y) 65536 a ([], []) (y, p)"
    using assms(4) construct_buffer [OF assms(1)]
    by (simp add: udp_link_inv_def written_to_def default_buffer_size_def)
  from udp_link_invariant [OF assms(2) this assms(5)]
  have inv: "socket_fd y' = socket_fd y" "length (buffer y') = 65536" "datagrams_to a (history p') = written_to a out"
    by (simp_all add: udp_link_inv_def)
  have "\<forall>w \<in> set (fst out). length (fst w) \<le> 65507"
    using link_run_limited [OF assms(3,5)] by simp
  then have "\<forall>m \<in> set (datagrams_to a (history p')). length m \<le> 65507"
    unfolding inv(3) by (auto simp: written_to_def)
  moreover have "\<exists>m \<in> set (datagrams_to a (history p')). 65536 < length m"
    using too_small_means_longer [of k y' a t p' err n z] assms(2,6) inv(1,2) e by simp
  ultimately show False by fastforce
qed

text \<open>A network that also keeps to the limit.\<close>

definition limited_network :: kernel where
  "limited_network = lossless_kernel\<lparr>k_sendto := (\<lambda>h d m a. if length m \<le> 65507 then Inr (length m) else Inl 90)\<rparr>"

theorem default_buffer_suffices_witness:
  "\<exists>y p. UdpDatagram_construct reference_libc limited_network ''10.0.0.1'' 5000 IPv4 default_buffer_size
      \<lparr>history = [], errno = 0\<rparr> = (Inr y, p) \<and>
    fst (UdpDatagram_read limited_network 50 (y, p)) \<noteq>
      Inl (socket_exception SOCKET_RECEIVE_BUFFER_TOO_SMALL 0 (-1))"
proof -
  let ?k = "limited_network"
  let ?r = "UdpDatagram_construct reference_libc ?k ''10.0.0.1'' 5000 IPv4 default_buffer_size
      \<lparr>history = [], errno = 0\<rparr>"
  have "\<not> default_buffer_size < 0" by (simp add: default_buffer_size_def)
  then have "\<exists>y p. ?r = (Inr y, p) \<and> datagrams_to lossless_address (history p) = []"
    by (simp add: UdpDatagram_construct_def limited_network_def lossless_kernel_def reference_kernel_def
        throw_errno_def ignore_result_def bindA_def syscall_defs reference_libc_def)
  then obtain y p where run: "?r = (Inr y, p)" "datagrams_to lossless_address (history p) = []" by blast
  have "delivers_datagrams ?k (socket_fd y) lossless_address"
    using lossless_delivers by (simp add: delivers_datagrams_def limited_network_def)
  moreover have "payload_limited ?k"
    by (simp add: payload_limited_def limited_network_def)
  moreover have "udp_link_run reference_libc ?k demo_udp [] ([], []) (y, p) = (([], []), (y, p))" by simp
  moreover note suffices = default_buffer_suffices [OF run(1) _ _ run(2), where x = demo_udp and cs = "[]" and
      out = "([], [])" and y' = y and p' = p and t = 50 and z = "snd (UdpDatagram_read ?k 50 (y, p))" and
      err = 0 and n = "-1" and e = "socket_exception SOCKET_RECEIVE_BUFFER_TOO_SMALL 0 (-1)"]
  ultimately have "UdpDatagram_read ?k 50 (y, p) \<noteq>
      (Inl (socket_exception SOCKET_RECEIVE_BUFFER_TOO_SMALL 0 (-1)), snd (UdpDatagram_read ?k 50 (y, p)))"
    by blast
  then have "fst (UdpDatagram_read ?k 50 (y, p)) \<noteq> Inl (socket_exception SOCKET_RECEIVE_BUFFER_TOO_SMALL 0 (-1))"
    using pair_of_fst by metis
  with run(1) show ?thesis by blast
qed

end
