(* ===== verification/Owning_Class.thy ===== *)
theory Owning_Class
  imports Kernel Labelled_Steps
begin

text \<open>
  Classes whose objects own a descriptor: a constructor or a factory gives it to them, moves pass it
  on, the destructor closes it. What a program that does these things in any order can rely on
  follows from the contract \<open>owning_class\<close>: descriptors have one owner, owners have open
  descriptors, and the account of every descriptor balances.
\<close>

section \<open>Programs that use an owning class\<close>

text \<open>
  The operations of a class: the descriptor an object holds, the ways \<open>'c\<close> to make objects, move
  construction and move assignment (each gives both objects afterwards), the other member
  functions \<open>'u\<close>, and the destructor.
\<close>

record ('c, 'u, 'o) owning =
  held :: "'o \<Rightarrow> fd"
  create :: "kernel \<Rightarrow> 'c \<Rightarrow> (process, error, 'o list) action"
  move_construct :: "'o \<Rightarrow> 'o \<times> 'o"
  move_assign :: "'o \<Rightarrow> 'o \<Rightarrow> 'o \<times> 'o"
  member_call :: "kernel \<Rightarrow> 'u \<Rightarrow> 'o \<Rightarrow> process \<Rightarrow> 'o \<times> process"
  destruct :: "kernel \<Rightarrow> 'o \<Rightarrow> (process, error, unit) action"

text \<open>
  The objects of the class that are alive, by the variable (or member, or element of a container)
  they live in, and what a program does with them. The label says what became of descriptors:
  \<open>Made\<close> those of new objects, \<open>Overwritten\<close> the one the target of an assignment held,
  \<open>Destroyed\<close> the one of a destroyed object, negative where there was none. \<open>Elsewhere\<close> is
  everything else in the process; it does not close a descriptor that an object holds.
\<close>

type_synonym 'o objects = "nat \<rightharpoonup> 'o"

datatype ownership =
    Made "fd list" | Refused | Moved | Overwritten fd | Called | Destroyed fd | Died | Elsewhere

inductive owner_step ::
    "kernel \<Rightarrow> ('c, 'u, 'o) owning \<Rightarrow> 'o objects \<times> process \<Rightarrow> ownership \<Rightarrow> 'o objects \<times> process \<Rightarrow> bool"
  for k C where
  made: "create C k c p = (Inr xs, q) \<Longrightarrow> length is = length xs \<Longrightarrow> distinct is \<Longrightarrow>
      (\<And>i. i \<in> set is \<Longrightarrow> s i = None) \<Longrightarrow>
    owner_step k C (s, p) (Made (map (held C) xs)) (s(is [\<mapsto>] xs), q)"
| refused: "create C k c p = (Inl e, q) \<Longrightarrow> owner_step k C (s, p) Refused (s, q)"
| moved: "s i = Some x \<Longrightarrow> s j = None \<Longrightarrow> move_construct C x = (y, x') \<Longrightarrow>
    owner_step k C (s, p) Moved (s(i \<mapsto> x', j \<mapsto> y), p)"
| assigned: "s i = Some x \<Longrightarrow> s j = Some y \<Longrightarrow> i \<noteq> j \<Longrightarrow> move_assign C x y = (x', y') \<Longrightarrow>
    owner_step k C (s, p) (Overwritten (held C x)) (s(i \<mapsto> x', j \<mapsto> y'), p)"
| called: "s i = Some x \<Longrightarrow> member_call C k u x p = (x', q) \<Longrightarrow>
    owner_step k C (s, p) Called (s(i \<mapsto> x'), q)"
| destroyed: "s i = Some x \<Longrightarrow> destruct C k x p = (Inr v, q) \<Longrightarrow>
    owner_step k C (s, p) (Destroyed (held C x)) (s(i := None), q)"
| died: "s i = Some x \<Longrightarrow> destruct C k x p = (Inl e, q) \<Longrightarrow> owner_step k C (s, p) Died (s, q)"
| elsewhere: "(\<And>i x. s i = Some x \<Longrightarrow> held C x \<in> open_fds (history p) \<Longrightarrow>
      held C x \<in> open_fds (history q)) \<Longrightarrow>
    owner_step k C (s, p) Elsewhere (s, q)"

text \<open>
  What the objects hold. \<open>owned\<close> are the descriptors that some object holds; in an \<open>exclusive\<close>
  state no two objects hold the same.
\<close>

definition holdings :: "('c, 'u, 'o) owning \<Rightarrow> 'o objects \<Rightarrow> nat \<rightharpoonup> fd" where
  "holdings C s = (\<lambda>i. map_option (held C) (s i))"

definition owned :: "(nat \<rightharpoonup> fd) \<Rightarrow> fd set" where
  "owned h = {d. 0 \<le> d \<and> (\<exists>i. h i = Some d)}"

definition exclusive :: "(nat \<rightharpoonup> fd) \<Rightarrow> bool" where
  "exclusive h = (\<forall>i j d. h i = Some d \<longrightarrow> h j = Some d \<longrightarrow> 0 \<le> d \<longrightarrow> i = j)"

text \<open>The account of one descriptor, and the number of objects that were made.\<close>

fun times_made :: "fd \<Rightarrow> ownership \<Rightarrow> nat" where
  "times_made d (Made ds) = count_list ds d"
| "times_made d _ = 0"

fun times_lost :: "fd \<Rightarrow> ownership \<Rightarrow> nat" where
  "times_lost d (Overwritten e) = (if e = d then 1 else 0)"
| "times_lost d _ = 0"

fun times_closed :: "fd \<Rightarrow> ownership \<Rightarrow> nat" where
  "times_closed d (Destroyed e) = (if e = d then 1 else 0)"
| "times_closed d _ = 0"

fun objects_made :: "ownership \<Rightarrow> nat" where
  "objects_made (Made ds) = length ds"
| "objects_made _ = 0"

abbreviation total_of :: "(ownership \<Rightarrow> nat) \<Rightarrow> ownership list \<Rightarrow> nat" where
  "total_of f ls \<equiv> sum_list (map f ls)"

section \<open>What objects hold\<close>

named_theorems holding_simps

lemma holdings_empty [holding_simps]: "holdings C Map.empty = Map.empty"
  by (simp add: holdings_def)

lemma holdings_put [holding_simps]: "holdings C (s(i \<mapsto> x)) = (holdings C s)(i \<mapsto> held C x)"
  by (auto simp: holdings_def)

lemma holdings_drop [holding_simps]: "holdings C (s(i := None)) = (holdings C s)(i := None)"
  by (auto simp: holdings_def)

lemma holdings_at: "s i = Some x \<Longrightarrow> holdings C s i = Some (held C x)"
  by (simp add: holdings_def)

lemma holdings_None: "holdings C s i = None \<longleftrightarrow> s i = None"
  by (simp add: holdings_def)

lemma holdings_puts [holding_simps]:
  "length is = length xs \<Longrightarrow> holdings C (s(is [\<mapsto>] xs)) = (holdings C s)(is [\<mapsto>] map (held C) xs)"
  by (induction "is" xs arbitrary: s rule: list_induct2) (simp_all add: holding_simps)

lemma owned_empty [simp]: "owned Map.empty = {}"
  by (simp add: owned_def)

lemma exclusive_empty [simp]: "exclusive Map.empty"
  by (simp add: exclusive_def)

lemma ownedI: "h i = Some d \<Longrightarrow> 0 \<le> d \<Longrightarrow> d \<in> owned h"
  by (auto simp: owned_def)

lemma exclusive_drop: "exclusive h \<Longrightarrow> exclusive (h(i := None))"
  by (simp add: exclusive_def)

lemma owned_drop:
  assumes "exclusive h" and "h i = Some d"
  shows "owned (h(i := None)) = owned h - {d}"
proof -
  have "e \<in> owned (h(i := None)) \<longleftrightarrow> 0 \<le> e \<and> (\<exists>j. j \<noteq> i \<and> h j = Some e)" for e
    by (auto simp: owned_def)
  moreover have "(\<exists>j. j \<noteq> i \<and> h j = Some e) \<longleftrightarrow> (\<exists>j. h j = Some e) \<and> e \<noteq> d" if "0 \<le> e" for e
    using assms that unfolding exclusive_def by (metis option.inject)
  ultimately show ?thesis by (auto simp: owned_def)
qed

lemma owned_drop_subset: "owned (h(i := None)) \<subseteq> owned h"
  by (auto simp: owned_def split: if_splits)

lemma owned_put: "0 \<le> d \<Longrightarrow> owned (h(i \<mapsto> d)) = insert d (owned (h(i := None)))"
  by (auto simp: owned_def split: if_splits)

lemma owned_hollow: "d < 0 \<Longrightarrow> owned (h(i \<mapsto> d)) = owned (h(i := None))"
  by (auto simp: owned_def split: if_splits)

lemma exclusive_put:
  assumes "exclusive h" and "d \<notin> owned (h(i := None))"
  shows "exclusive (h(i \<mapsto> d))"
  using assms by (auto simp: owned_def exclusive_def split: if_splits)

lemma exclusive_hollow: "exclusive h \<Longrightarrow> d < 0 \<Longrightarrow> exclusive (h(i \<mapsto> d))"
  by (rule exclusive_put) (auto simp: owned_def)

lemma drop_vacant: "h i = None \<Longrightarrow> h(i := None) = h"
  by (simp add: fun_upd_idem)

text \<open>New objects with new descriptors.\<close>

lemma put_new_objects:
  assumes "length is = length ds" and "distinct is" and "\<And>i. i \<in> set is \<Longrightarrow> h i = None"
    and "distinct ds" and "\<And>d. d \<in> set ds \<Longrightarrow> 0 \<le> d \<and> d \<notin> owned h" and "exclusive h"
  shows "exclusive (h(is [\<mapsto>] ds)) \<and> owned (h(is [\<mapsto>] ds)) = owned h \<union> set ds"
  using assms
proof (induction "is" ds arbitrary: h rule: list_induct2)
  case (Cons i "is" d ds)
  have put: "owned (h(i \<mapsto> d)) = insert d (owned h)" "exclusive (h(i \<mapsto> d))"
    using Cons.prems by (simp_all add: owned_put exclusive_put drop_vacant)
  have vacant: "(h(i \<mapsto> d)) j = None" if "j \<in> set is" for j
    using that Cons.prems(1,2) by auto
  have "exclusive ((h(i \<mapsto> d))(is [\<mapsto>] ds)) \<and>
      owned ((h(i \<mapsto> d))(is [\<mapsto>] ds)) = owned (h(i \<mapsto> d)) \<union> set ds"
    by (rule Cons.IH) (use Cons.prems put vacant in \<open>auto simp del: fun_upd_apply\<close>)
  with put show ?case by auto
qed simp

lemma count_list_distinct: "distinct ds \<Longrightarrow> count_list ds d = of_bool (d \<in> set ds)"
  by (induction ds) auto

text \<open>A move of the descriptor \<open>d\<close> from \<open>i\<close>, which is left with \<open>e\<close>, to \<open>j\<close>.\<close>

lemma move_holding:
  assumes "exclusive h" and "h i = Some d" and "i \<noteq> j" and "e < 0"
  shows "exclusive (h(i \<mapsto> e, j \<mapsto> d)) \<and> owned (h(i \<mapsto> e, j \<mapsto> d)) = owned h - set_option (h j)"
proof -
  let ?h = "h(i \<mapsto> e)"
  have h: "exclusive ?h" "owned ?h = owned h - {d}" "?h j = h j"
    using assms by (simp_all add: exclusive_hollow owned_hollow owned_drop)
  then have rest: "owned (?h(j := None)) = owned h - {d} - set_option (h j)"
    by (cases "h j") (simp_all add: owned_drop drop_vacant del: fun_upd_apply)
  have "d \<notin> set_option (h j) \<or> d < 0" using assms(1-3) unfolding exclusive_def by force
  moreover have "d \<in> owned h \<longleftrightarrow> 0 \<le> d" using assms(2) by (auto simp: owned_def)
  ultimately have "owned (?h(j \<mapsto> d)) = owned h - set_option (h j)"
    using rest by (cases "0 \<le> d") (auto simp: owned_put owned_hollow)
  moreover have "exclusive (?h(j \<mapsto> d))" by (rule exclusive_put [OF h(1)]) (simp add: rest)
  ultimately show ?thesis by blast
qed

section \<open>The contract of an owning class\<close>

text \<open>
  \<open>eventfd(2)\<close> fails with \<open>EMFILE\<close> when the process has as many descriptors as it may have.
\<close>

definition descriptor_limit :: "kernel \<Rightarrow> nat \<Rightarrow> bool" where
  "descriptor_limit k n = (\<forall>h d. k_eventfd k h = Inr d \<longrightarrow> card (open_fds h) < n)"

abbreviation opened :: "process \<Rightarrow> fd set" where
  "opened p \<equiv> open_fds (history p)"

lemma finite_open_fds [simp]: "finite (open_fds h)"
proof (induction h rule: rev_induct)
  case (snoc e h)
  then show ?case by (cases "(open_fds h, e)" rule: open_step.cases) simp_all
qed simp

text \<open>
  \<open>acquires ds p q\<close>: the process has opened the descriptors \<open>ds\<close>, which are new, and one more for
  each of them.
\<close>

definition acquires :: "fd list \<Rightarrow> process \<Rightarrow> process \<Rightarrow> bool" where
  "acquires ds p q = (\<exists>es. distinct (ds @ es) \<and> length es = length ds \<and> (\<forall>d \<in> set ds. 0 \<le> d) \<and>
     set (ds @ es) \<inter> opened p = {} \<and> opened q = set (ds @ es) \<union> opened p)"

lemma acquiresI:
  "distinct (ds @ es) \<Longrightarrow> length es = length ds \<Longrightarrow> (\<And>d. d \<in> set ds \<Longrightarrow> 0 \<le> d) \<Longrightarrow>
   set (ds @ es) \<inter> opened p = {} \<Longrightarrow> opened q = set (ds @ es) \<union> opened p \<Longrightarrow> acquires ds p q"
  unfolding acquires_def by blast

lemma acquires_owns: "acquires ds p q \<Longrightarrow> distinct ds \<and> (\<forall>d \<in> set ds. 0 \<le> d \<and> d \<in> opened q - opened p)"
  by (auto simp: acquires_def)

lemma acquires_costs: "acquires ds p q \<Longrightarrow> card (opened p) + 2 * length ds \<le> card (opened q)"
proof -
  assume "acquires ds p q"
  then obtain es where es: "distinct (ds @ es)" "length es = length ds" "set (ds @ es) \<inter> opened p = {}"
    "opened q = set (ds @ es) \<union> opened p" unfolding acquires_def by blast
  then have "card (opened q) = length (ds @ es) + card (opened p)"
    using distinct_card [OF es(1)] by (simp only: card_Un_disjoint [OF finite_set finite_open_fds])
  with es(2) show ?thesis by simp
qed

lemma acquires_keeps: "acquires ds p q \<Longrightarrow> opened p \<subseteq> opened q"
  by (auto simp: acquires_def)

definition owner_inv :: "('c, 'u, 'o) owning \<Rightarrow> 'o objects \<times> process \<Rightarrow> bool" where
  "owner_inv C sp = (exclusive (holdings C (fst sp)) \<and> owned (holdings C (fst sp)) \<subseteq> opened (snd sp))"

locale owning_class =
  fixes C :: "('c, 'u, 'o) owning"
  assumes create_keeps: "fresh_fds k \<Longrightarrow> close_succeeds k \<Longrightarrow> create C k c p = (r, q) \<Longrightarrow> opened p \<subseteq> opened q"
    and create_acquires: "fresh_fds k \<Longrightarrow> create C k c p = (Inr xs, q) \<Longrightarrow> acquires (map (held C) xs) p q"
    and create_within: "descriptor_limit k n \<Longrightarrow> create C k c p = (Inr xs, q) \<Longrightarrow> xs = [] \<or> card (opened q) \<le> n"
    and move_gives: "move_construct C x = (y, x') \<Longrightarrow> held C y = held C x \<and> held C x' < 0"
    and assign_gives: "move_assign C x y = (x', y') \<Longrightarrow> held C x' = held C y \<and> held C y' < 0"
    and call_keeps: "member_call C k u x p = (x', q) \<Longrightarrow> held C x' = held C x \<and> opened q = opened p"
    and destruct_hollow: "held C x < 0 \<Longrightarrow> destruct C k x p = (Inr (), p)"
    and destruct_closes: "close_succeeds k \<Longrightarrow> 0 \<le> held C x \<Longrightarrow> held C x \<in> opened p \<Longrightarrow>
      \<exists>q. destruct C k x p = (Inr (), q) \<and> opened q = opened p - {held C x}"
begin

text \<open>Making objects, and destroying one.\<close>

lemma create_effect:
  assumes "fresh_fds k" and "close_succeeds k" and "exclusive (holdings C s)"
    and "owned (holdings C s) \<subseteq> opened p" and "create C k c p = (Inr xs, q)"
    and "length is = length xs" and "distinct is" and "\<And>i. i \<in> set is \<Longrightarrow> s i = None"
  defines "h' \<equiv> holdings C (s(is [\<mapsto>] xs))" and "ds \<equiv> map (held C) xs"
  shows "exclusive h' \<and> owned h' = owned (holdings C s) \<union> set ds \<and> distinct ds \<and>
    (\<forall>d \<in> set ds. 0 \<le> d \<and> d \<in> opened q - opened p)"
proof -
  have new: "distinct ds" "\<forall>d \<in> set ds. 0 \<le> d \<and> d \<in> opened q - opened p"
    using acquires_owns [OF create_acquires [OF assms(1,5)]] by (simp_all add: ds_def)
  moreover have "h' = (holdings C s)(is [\<mapsto>] ds)"
    by (simp add: h'_def ds_def holdings_puts assms(6))
  moreover have "exclusive ((holdings C s)(is [\<mapsto>] ds)) \<and>
      owned ((holdings C s)(is [\<mapsto>] ds)) = owned (holdings C s) \<union> set ds"
    by (rule put_new_objects) (use assms new in \<open>auto simp: ds_def holdings_None\<close>)
  ultimately show ?thesis by simp
qed

lemma destruct_effect:
  assumes "close_succeeds k" and "owned (holdings C s) \<subseteq> opened p" and "s i = Some x"
  shows "\<exists>q. destruct C k x p = (Inr (), q) \<and> opened q = opened p - (owned (holdings C s) \<inter> {held C x})"
proof (cases "held C x < 0")
  case True
  then show ?thesis using destruct_hollow [OF True, of k p] by (auto simp: owned_def)
next
  case False
  then have "held C x \<in> owned (holdings C s)" using holdings_at [of s i x C] assms(3) by (simp add: ownedI)
  with False assms(2) destruct_closes [OF assms(1), of x p] show ?thesis by auto
qed

lemma move_effect:
  assumes "exclusive (holdings C s)" and "s i = Some x" and "s j = None" and "move_construct C x = (y, x')"
  defines "h' \<equiv> holdings C (s(i \<mapsto> x', j \<mapsto> y))"
  shows "exclusive h' \<and> owned h' = owned (holdings C s)"
proof -
  have gives: "held C y = held C x" "held C x' < 0" using move_gives [OF assms(4)] by simp_all
  have "holdings C s j = None" "i \<noteq> j" using assms(2,3) by (auto simp: holdings_None)
  with move_holding [OF assms(1) holdings_at [of s i x C, OF assms(2)], of j "held C x'"] gives
  show ?thesis by (auto simp: h'_def holding_simps simp del: fun_upd_apply)
qed

lemma assign_effect:
  assumes "exclusive (holdings C s)" and "s i = Some x" and "s j = Some y" and "i \<noteq> j"
    and "move_assign C x y = (x', y')"
  defines "h' \<equiv> holdings C (s(i \<mapsto> x', j \<mapsto> y'))"
  shows "exclusive h' \<and> owned h' = owned (holdings C s) - {held C x} \<and>
    (0 \<le> held C x \<longrightarrow> held C x \<in> owned (holdings C s))"
proof -
  have gives: "held C x' = held C y" "held C y' < 0" using assign_gives [OF assms(5)] by simp_all
  have "h' = (holdings C s)(j \<mapsto> held C y', i \<mapsto> held C y)"
    using assms(4) gives by (simp add: h'_def holding_simps fun_upd_twist)
  with move_holding [OF assms(1) holdings_at [of s j y C, OF assms(3)], of i "held C y'"] gives(2) assms(4)
    holdings_at [of s i x C, OF assms(2)] show ?thesis by (auto intro: ownedI simp del: fun_upd_apply)
qed

text \<open>What one step does to the owned descriptors and to the open ones.\<close>

lemma step_effect:
  assumes "fresh_fds k" and "close_succeeds k" and "owner_inv C (s, p)" and "owner_step k C (s, p) l (t, q)"
  defines "h \<equiv> holdings C s" and "h' \<equiv> holdings C t"
  shows "exclusive h' \<and> (case l of
      Made ds \<Rightarrow> owned h' = owned h \<union> set ds \<and> distinct ds \<and> (\<forall>d \<in> set ds. 0 \<le> d \<and> d \<in> opened q - opened p) \<and>
        opened p \<subseteq> opened q \<and> card (opened p) + 2 * length ds \<le> card (opened q)
    | Refused \<Rightarrow> owned h' = owned h \<and> opened p \<subseteq> opened q
    | Moved \<Rightarrow> owned h' = owned h \<and> opened q = opened p
    | Overwritten d \<Rightarrow> owned h' = owned h - {d} \<and> (0 \<le> d \<longrightarrow> d \<in> owned h) \<and> opened q = opened p
    | Called \<Rightarrow> owned h' = owned h \<and> opened q = opened p
    | Destroyed d \<Rightarrow> owned h' = owned h - {d} \<and> (0 \<le> d \<longrightarrow> d \<in> owned h) \<and> opened q = opened p - (owned h \<inter> {d})
    | Died \<Rightarrow> False
    | Elsewhere \<Rightarrow> owned h' = owned h \<and> owned h \<subseteq> opened q)"
proof -
  have ex: "exclusive h" and own: "owned h \<subseteq> opened p"
    using assms(3) by (simp_all add: owner_inv_def h_def)
  have at: "h i = Some (held C x)" if "s i = Some x" for i x
    using that by (simp add: h_def holdings_at)
  note destructs = destruct_effect [OF assms(2) own [unfolded h_def]]
  from assms(4) show ?thesis
  proof cases
    case (made c xs "is")
    with create_effect [OF assms(1,2) ex [unfolded h_def] own [unfolded h_def] made(3-6)]
      create_keeps [OF assms(1,2) made(3)] acquires_costs [OF create_acquires [OF assms(1) made(3)]]
    show ?thesis by (auto simp: h_def h'_def)
  next
    case (refused c e)
    with create_keeps [OF assms(1,2) refused(3)] ex show ?thesis by (simp add: h_def h'_def)
  next
    case (moved i x j y x')
    with move_effect [OF ex [unfolded h_def] moved(4-6)] show ?thesis by (simp add: h_def h'_def)
  next
    case (assigned i x j y x' y')
    with assign_effect [OF ex [unfolded h_def] assigned(4-7)] show ?thesis by (simp add: h_def h'_def)
  next
    case (called i x u x')
    have keeps: "held C x' = held C x" "opened q = opened p" using call_keeps [OF called(4)] by simp_all
    have "h' = h" using called(2) at [OF called(3)] keeps(1) by (simp add: h_def h'_def holding_simps fun_upd_idem)
    with keeps(2) called(1) ex show ?thesis by simp
  next
    case (destroyed i x v)
    have "h' = h(i := None)" using destroyed(2) by (simp add: h_def h'_def holding_simps)
    with destroyed destructs [OF destroyed(3)] owned_drop [OF ex at [OF destroyed(3)]]
      exclusive_drop [OF ex, of i] ownedI [of h i "held C x"] at [OF destroyed(3)] show ?thesis by (auto simp: h_def)
  next
    case (died i x e)
    with destructs [OF died(3)] show ?thesis by simp
  next
    case elsewhere
    have "d \<in> opened q" if d: "d \<in> owned h" for d
    proof -
      from d obtain i x where "s i = Some x" "held C x = d" by (auto simp: owned_def h_def holdings_def)
      with elsewhere(3) [of i x] d own show ?thesis by auto
    qed
    with ex elsewhere show ?thesis by (auto simp: h_def h'_def)
  qed
qed

lemma owner_inv_step:
  assumes "fresh_fds k" and "close_succeeds k" and "owner_inv C sp" and "owner_step k C sp l tq"
  shows "owner_inv C tq" and "l \<noteq> Died"
proof -
  obtain s p t q where "sp = (s, p)" "tq = (t, q)" by (meson surj_pair)
  with step_effect [of k s p l t q] assms show "owner_inv C tq" and "l \<noteq> Died"
    by (auto simp: owner_inv_def split: ownership.splits)
qed

text \<open>The account of a descriptor, and the descriptors that no object holds.\<close>

lemma account_step:
  assumes "fresh_fds k" and "close_succeeds k" and "owner_inv C (s, p)" and "owner_step k C (s, p) l (t, q)"
    and "0 \<le> d"
  shows "of_bool (d \<in> owned (holdings C s)) + times_made d l =
    of_bool (d \<in> owned (holdings C t)) + times_closed d l + (times_lost d l :: nat)"
proof -
  have "owned (holdings C s) \<subseteq> opened p" using assms(3) by (simp add: owner_inv_def)
  with step_effect [OF assms(1-4)] assms(5) show ?thesis
    by (cases l) (auto simp: count_list_distinct split: if_splits)
qed

lemma unowned_step:
  assumes "fresh_fds k" and "close_succeeds k" and "owner_inv C (s, p)" and "owner_step k C (s, p) l (t, q)"
    and "l \<noteq> Elsewhere"
  shows "card (opened p - owned (holdings C s)) + objects_made l \<le> card (opened q - owned (holdings C t))"
proof -
  let ?h = "owned (holdings C s)"
  have own: "?h \<subseteq> opened p" using assms(3) by (simp add: owner_inv_def)
  note effect = step_effect [OF assms(1-4)]
  show ?thesis
  proof (cases l)
    case (Made ds)
    with effect have ds: "owned (holdings C t) = ?h \<union> set ds" "distinct ds" "set ds \<subseteq> opened q - opened p"
      and costs: "card (opened p) + 2 * length ds \<le> card (opened q)" by auto
    have "card (?h \<union> set ds) = card ?h + length ds"
      using ds own by (subst card_Un_disjoint) (auto simp: distinct_card finite_subset [OF own])
    moreover have "card ?h \<le> card (opened p)" using own by (simp add: card_mono)
    moreover have "?h \<union> set ds \<subseteq> opened q" using effect Made own by auto
    ultimately show ?thesis
      using costs own Made ds(1) by (simp add: card_Diff_subset finite_subset [OF own])
  qed (use effect assms(5) own in \<open>auto intro!: card_mono\<close>)
qed

text \<open>Whole runs.\<close>

lemma runs_owned:
  assumes "fresh_fds k" and "close_succeeds k" and "runs (owner_step k C) (Map.empty, p) ls (s, q)"
  shows "owner_inv C (s, q) \<and> Died \<notin> set ls \<and>
    (\<forall>d \<ge> 0. total_of (times_made d) ls = total_of (times_closed d) ls + total_of (times_lost d) ls + of_bool (d \<in> owned (holdings C s)))"
proof -
  have "owner_inv C tq \<and> Died \<notin> set ls \<and>
    (\<forall>d \<ge> 0. total_of (times_made d) ls = total_of (times_closed d) ls + total_of (times_lost d) ls + of_bool (d \<in> owned (holdings C (fst tq))))"
    if "runs (owner_step k C) (Map.empty, p) ls tq" for ls tq
    using that
  proof (induction "(Map.empty :: nat \<rightharpoonup> 'o, p)" ls tq rule: runs.induct)
    case runs_Nil
    then show ?case by (simp add: owner_inv_def holding_simps)
  next
    case (runs_snoc ls tq l uv)
    obtain t q u v where pairs: "tq = (t, q)" "uv = (u, v)" by (meson surj_pair)
    with runs_snoc have inv: "owner_inv C (t, q)" by simp
    have "of_bool (d \<in> owned (holdings C t)) + times_made d l =
        of_bool (d \<in> owned (holdings C u)) + times_closed d l + (times_lost d l :: nat)" if "0 \<le> d" for d
      using account_step [OF assms(1,2) inv _ that, of l u v] runs_snoc.hyps(3) pairs by simp
    with runs_snoc owner_inv_step [OF assms(1,2) _ runs_snoc.hyps(3)] pairs show ?case by force
  qed
  from this [OF assms(3)] show ?thesis by simp
qed

text \<open>
  Every object that is ever made costs the process one descriptor for good, so the descriptor
  limit is a limit on the number of objects in the whole life of the process.
\<close>

lemma runs_objects_bounded:
  assumes "fresh_fds k" and "close_succeeds k" and "descriptor_limit k n"
    and "runs (owner_step k C) (Map.empty, p) ls (s, q)" and "Elsewhere \<notin> set ls"
  shows "total_of objects_made ls \<le> card (opened q - owned (holdings C s)) \<and>
    total_of objects_made ls \<le> n"
proof -
  have "total_of objects_made ls \<le> card (opened (snd tq) - owned (holdings C (fst tq))) \<and>
      total_of objects_made ls \<le> n"
    if "runs (owner_step k C) (Map.empty, p) ls tq" and "Elsewhere \<notin> set ls" for ls tq
    using that
  proof (induction "(Map.empty :: nat \<rightharpoonup> 'o, p)" ls tq rule: runs.induct)
    case (runs_snoc ls tq l uv)
    obtain t q u v where pairs: "tq = (t, q)" "uv = (u, v)" by (meson surj_pair)
    with runs_snoc runs_owned [OF assms(1,2), of p ls t q] have inv: "owner_inv C (t, q)" by simp
    have step: "owner_step k C (t, q) l (u, v)" using runs_snoc.hyps(3) pairs by simp
    have grown: "card (opened q - owned (holdings C t)) + objects_made l \<le>
        card (opened v - owned (holdings C u))"
      by (rule unowned_step [OF assms(1,2) inv step]) (use runs_snoc.prems in auto)
    have "objects_made l = 0 \<or> card (opened v) \<le> n"
      using step by cases (auto dest: create_within [OF assms(3)])
    moreover have "card (opened v - owned (holdings C u)) \<le> card (opened v)" by (simp add: card_mono)
    ultimately show ?case using runs_snoc pairs grown by auto
  qed simp
  from this [OF assms(4,5)] show ?thesis by simp
qed

end

end
