(* ===== verification/Stream_Factory.thy ===== *)
theory Stream_Factory
  imports Descriptor_Use
begin

text \<open>
  \<open>class StreamFactory\<close> (\<open>include/socket_wrapper/StreamFactory.h\<close>, \<open>src/StreamFactory.cpp\<close>): a
  pair of connected streams, and a TCP stream to a server.
\<close>

section \<open>A pair of streams\<close>

text \<open>
  The two elements of the returned array are constructed in order; if the second constructor
  throws, the first element is destroyed again.
\<close>

definition CreatePipe :: "kernel \<Rightarrow> (process, error, Stream \<times> Stream) action" where
  "CreatePipe k =
     bindA (throw_errno SOCKET_PAIR (sys_socketpair k AF_LOCAL (SOCK_STREAM OR SOCK_NONBLOCK) IPPROTO_IP))
       (\<lambda>(a, b). bindA (Stream_construct k a)
       (\<lambda>s q. case Stream_construct k b q of
          (Inr t, r) \<Rightarrow> (Inr (s, t), r)
        | (Inl e, r) \<Rightarrow>
            (case Stream_destroy k s r of
               (Inl e', u) \<Rightarrow> (Inl e', u)
             | (Inr _, u) \<Rightarrow> (Inl e, u))))"

section \<open>A stream to a server\<close>

text \<open>
  The address is zeroed first and the result of \<open>inet_pton\<close> is not looked at, so a text that
  is no IPv6 address stands for \<open>::\<close>.
\<close>

definition server_address :: "libc \<Rightarrow> string \<Rightarrow> 16 word \<Rightarrow> IP_VERSION \<Rightarrow> sockaddr" where
  "server_address l server_ip port version =
     (if version = IPv6
      then Sockaddr_In6 (case inet_pton6 l server_ip of None \<Rightarrow> 0 | Some a \<Rightarrow> a) (htons l port)
      else Sockaddr_In (inet_addr l server_ip) (htons l port))"

definition CreateTcpStreamToServer ::
    "libc \<Rightarrow> kernel \<Rightarrow> string \<Rightarrow> 16 word \<Rightarrow> IP_VERSION \<Rightarrow> (process, error, Stream) action" where
  "CreateTcpStreamToServer l k server_ip port version =
     bindA (throw_errno SOCKET_SOCKET (sys_socket k (if version = IPv6 then AF_INET6 else AF_INET)
              SOCK_STREAM IPPROTO_TCP))
       (\<lambda>d. bindA (throw_errno SOCKET_CONNECT (sys_connect k d (server_address l server_ip port version)))
       (\<lambda>_. Stream_construct k d))"

section \<open>Properties\<close>

lemmas factory_simps = throw_errno_def syscall_def sys_socketpair_def sys_socket_def sys_connect_def
  sys_eventfd_def Stream_construct_def bindA_def

lemma Stream_destroy_closes:
  assumes "close_succeeds k" and "0 \<le> stream_file_descriptor s"
    and "stream_file_descriptor s \<in> open_fds (history p)"
  shows "\<exists>w. Stream_destroy k s p = (Inr (), w) \<and>
    open_fds (history w) = open_fds (history p) - {stream_file_descriptor s}"
proof -
  let ?w = "snd (sys_eventfd_write k (stop_all_operations_event_fd s) stop_semaphore_value p)"
  have same: "open_fds (history ?w) = open_fds (history p)"
    by (cases "k_eventfd_write k (history p) (stop_all_operations_event_fd s) stop_semaphore_value")
      (auto simp: sys_eventfd_write_def)
  with assms have "k_close k (history ?w) (stream_file_descriptor s) = Inr ()"
    by (simp add: close_succeeds_def)
  with assms(2) same show ?thesis
    by (simp add: Stream_destroy_def bindA_def ignore_result_def sys_close_def)
qed

text \<open>
  \<open>CreatePipe\<close> returns two streams on the two ends of one new socket pair, and the four
  descriptors the two objects hold are open and different from each other. If anything fails
  after the pair was made, its second end is leaked.
\<close>

theorem CreatePipe_outcome:
  assumes "fresh_fds k" and "close_succeeds k" and "CreatePipe k p = (r, q)"
    and "k_socketpair k (history p) AF_LOCAL (SOCK_STREAM OR SOCK_NONBLOCK) IPPROTO_IP = Inr (a, b)"
  shows "b \<in> open_fds (history q) \<and>
    (case r of
       Inr (s, t) \<Rightarrow> stream_file_descriptor s = a \<and> stream_file_descriptor t = b \<and>
         a \<in> open_fds (history q) \<and>
         stop_all_operations_event_fd s \<in> open_fds (history q) \<and>
         stop_all_operations_event_fd t \<in> open_fds (history q) \<and>
         distinct [a, b, stop_all_operations_event_fd s, stop_all_operations_event_fd t] \<and>
         efd_count (stop_all_operations_event_fd s) (history q) = Some 0 \<and>
         efd_count (stop_all_operations_event_fd t) (history q) = Some 0
     | Inl e \<Rightarrow> e = Runtime_Error ''Failed to create event_fd'')"
proof -
  let ?p1 = "log_event (Ev_Socketpair AF_LOCAL (SOCK_STREAM OR SOCK_NONBLOCK) IPPROTO_IP (Inr (a, b))) p"
  have ab: "a \<noteq> b" "0 \<le> a" using assms(1,4) unfolding fresh_fds_def by blast+
  have opened: "a \<in> open_fds (history ?p1)" "b \<in> open_fds (history ?p1)" by simp_all
  have step1: "CreatePipe k p = bindA (Stream_construct k a)
       (\<lambda>s q. case Stream_construct k b q of
          (Inr t, r) \<Rightarrow> (Inr (s, t), r)
        | (Inl e, r) \<Rightarrow>
            (case Stream_destroy k s r of (Inl e', u) \<Rightarrow> (Inl e', u) | (Inr _, u) \<Rightarrow> (Inl e, u))) ?p1"
    using assms(4) by (simp add: CreatePipe_def throw_errno_def sys_socketpair_def bindA_def)
  show ?thesis
  proof (cases "k_eventfd k (history ?p1)")
    case (Inl e)
    with assms(3) step1 opened show ?thesis by (auto simp: Stream_construct_def sys_eventfd_def bindA_def)
  next
    case (Inr e1)
    let ?p2 = "log_event (Ev_Eventfd (Inr e1)) ?p1"
    let ?s = "\<lparr>stream_file_descriptor = a, stop_all_operations_event_fd = e1\<rparr>"
    have e1: "e1 \<noteq> a" "e1 \<noteq> b" using assms(1) Inr opened unfolding fresh_fds_def by blast+
    have step2: "CreatePipe k p = (case Stream_construct k b ?p2 of
          (Inr t, r) \<Rightarrow> (Inr (?s, t), r)
        | (Inl e, r) \<Rightarrow>
            (case Stream_destroy k ?s r of (Inl e', u) \<Rightarrow> (Inl e', u) | (Inr _, u) \<Rightarrow> (Inl e, u)))"
      using Inr unfolding step1 by (simp add: Stream_construct_def sys_eventfd_def bindA_def)
    show ?thesis
    proof (cases "k_eventfd k (history ?p2)")
      case failed: (Inl e)
      let ?p3 = "log_failure (Ev_Eventfd (Inl e)) e ?p2"
      obtain w where "Stream_destroy k ?s ?p3 = (Inr (), w)"
        and w: "open_fds (history w) = open_fds (history ?p3) - {a}"
        using Stream_destroy_closes [OF assms(2), of ?s ?p3] ab opened by auto
      with assms(3) step2 failed have "r = Inl (Runtime_Error ''Failed to create event_fd'')"
        and "q = w"
        by (simp_all add: Stream_construct_def sys_eventfd_def)
      with w ab opened show ?thesis by simp
    next
      case (Inr e2)
      have "e1 \<in> open_fds (history ?p2)" "a \<in> open_fds (history ?p2)" "b \<in> open_fds (history ?p2)"
        using opened by simp_all
      with assms(1) Inr have "e2 \<noteq> a" "e2 \<noteq> b" "e2 \<noteq> e1" unfolding fresh_fds_def by blast+
      with assms(3) step2 Inr ab e1 show ?thesis
        by (auto simp: Stream_construct_def sys_eventfd_def)
    qed
  qed
qed

text \<open>
  \<open>CreateTcpStreamToServer\<close> creates one TCP socket of the requested family and connects it
  once, to the given address and port in network byte order; the stream it returns is on that
  socket. If it throws, whatever it had opened stays open: a refused connection leaks the socket.
\<close>

theorem CreateTcpStreamToServer_outcome:
  assumes "CreateTcpStreamToServer l k server_ip port version p = (r, q)"
  shows "case r of
      Inr s \<Rightarrow> history q = history p @
        [Ev_Socket (if version = IPv6 then AF_INET6 else AF_INET) SOCK_STREAM IPPROTO_TCP
           (Inr (stream_file_descriptor s)),
         Ev_Connect (stream_file_descriptor s) (server_address l server_ip port version) (Inr ()),
         Ev_Eventfd (Inr (stop_all_operations_event_fd s))]
    | Inl e \<Rightarrow> leaks p q"
proof (cases r)
  case (Inr s)
  with assms show ?thesis
    by (auto simp: CreateTcpStreamToServer_def factory_simps split: sum.splits)
next
  case (Inl e)
  have "never_closes (Stream_construct k d)" for d
    unfolding Stream_construct_def by (rule never_closes_eventfd)
  then have "never_closes (CreateTcpStreamToServer l k server_ip port version)"
    unfolding CreateTcpStreamToServer_def by (intro never_closes_intros)
  from never_closes_leaks [OF this assms] Inl show ?thesis by simp
qed

definition no_process :: process where
  "no_process = \<lparr>history = [], errno = 0\<rparr>"

definition refusing :: kernel where
  "refusing = (reference_kernel demo_script)\<lparr>k_connect := (\<lambda>h d a. Inl 111)\<rparr>"

theorem CreatePipe_outcome_witness:
  "let q = snd (CreatePipe (reference_kernel demo_script) no_process) in 4 \<in> open_fds (history q)"
proof -
  let ?k = "reference_kernel demo_script"
  have "k_socketpair ?k (history no_process) AF_LOCAL (SOCK_STREAM OR SOCK_NONBLOCK) IPPROTO_IP = Inr (3, 4)"
    by (simp add: reference_kernel_def no_process_def fresh_fd_def)
  with CreatePipe_outcome [OF reference_fresh reference_close_succeeds prod.collapse [symmetric],
      of demo_script no_process 3 4] show ?thesis by simp
qed

theorem CreateTcpStreamToServer_outcome_witness:
  "leaks no_process (snd (CreateTcpStreamToServer reference_libc refusing ''10.0.0.1'' 80 IPv4 no_process))"
proof -
  let ?r = "CreateTcpStreamToServer reference_libc refusing ''10.0.0.1'' 80 IPv4 no_process"
  have "fst ?r = Inl (socket_exception SOCKET_CONNECT 111 (-1))" by code_simp
  from CreateTcpStreamToServer_outcome [OF pair_of_fst [OF this]] show ?thesis by simp
qed

end
