(* ===== verification/Descriptor_Ownership.thy ===== *)
theory Descriptor_Ownership
  imports Owning_Class Stream_Factory Listener_Model Udp_Datagram System_Calls
begin

text \<open>
  \<open>Stream\<close> and \<open>UdpDatagram\<close> as owners of their sockets: both classes meet the contract
  \<open>owning_class\<close> with everything that makes, moves, uses and destroys their objects.
\<close>

section \<open>Streams\<close>

text \<open>
  The constructor of \<open>Stream\<close> is private; its friends are the factory and the two listeners. So a
  program gets streams from the factory, from \<open>Listener::accept\<close>, and from the serving thread of a
  \<open>ListenerBase\<close>, which accepts a client and hands it to \<open>onIncomingStream\<close>; it uses them by
  \<open>read\<close>, \<open>write\<close> and \<open>stopReads\<close>. The block that \<open>read\<close> fills belongs to the caller. What the
  serving thread cannot accept or wrap it drops; which exception that is does not matter here.
\<close>

datatype stream_source =
    Pipe
  | Tcp_Server string "16 word" IP_VERSION
  | Client_Of Listener int
  | Served_By ListenerBase

definition accepted_stream :: "kernel \<Rightarrow> ListenerBase \<Rightarrow> (process, error, Stream) action" where
  "accepted_stream k x =
     bindA (throw_errno SOCKET_ACCEPT (sys_accept k (listener_socket_fd x))) (Stream_construct k)"

fun Stream_create :: "libc \<Rightarrow> kernel \<Rightarrow> stream_source \<Rightarrow> (process, error, Stream list) action" where
  "Stream_create l k Pipe = bindA (CreatePipe k) (\<lambda>(s, t). ret [s, t])"
| "Stream_create l k (Tcp_Server ip port version) =
     bindA (CreateTcpStreamToServer l k ip port version) (\<lambda>s. ret [s])"
| "Stream_create l k (Client_Of x timeout) = bindA (Listener_accept k x timeout) (\<lambda>s. ret [s])"
| "Stream_create l k (Served_By x) = bindA (accepted_stream k x) (\<lambda>s. ret [s])"

datatype stream_call =
    Read_Into "char list" nat nat nat int
  | Write_From "char list" "32 word"
  | Stop_Reads

fun Stream_call :: "kernel \<Rightarrow> stream_call \<Rightarrow> Stream \<Rightarrow> process \<Rightarrow> Stream \<times> process" where
  "Stream_call k (Read_Into m off max_bytes min_bytes t) s p =
     (s, snd (snd (Stream_read k s off max_bytes min_bytes t (m, p))))"
| "Stream_call k (Write_From bs attempts) s p = (s, snd (Stream_write k s bs attempts p))"
| "Stream_call k Stop_Reads s p = (s, snd (Stream_stopReads k s p))"

definition stream_class :: "libc \<Rightarrow> (stream_source, stream_call, Stream) owning" where
  "stream_class l = \<lparr>held = stream_file_descriptor, create = Stream_create l,
     move_construct = Stream_move, move_assign = Stream_assign, member_call = Stream_call,
     destruct = Stream_destroy\<rparr>"

lemma stream_class_simps [simp]:
  "held (stream_class l) = stream_file_descriptor" "create (stream_class l) = Stream_create l"
  "move_construct (stream_class l) = Stream_move" "move_assign (stream_class l) = Stream_assign"
  "member_call (stream_class l) = Stream_call" "destruct (stream_class l) = Stream_destroy"
  by (simp_all add: stream_class_def)

text \<open>Which descriptors the sources open.\<close>

lemma never_closes_opened: "never_closes m \<Longrightarrow> m p = (r, q) \<Longrightarrow> opened p \<subseteq> opened q"
proof -
  have mono: "list_all (\<lambda>e. \<not> is_close_event e) evs \<Longrightarrow> open_fds h \<subseteq> open_fds (h @ evs)" for h evs
  proof (induction evs rule: rev_induct)
    case (snoc e evs)
    moreover have "D \<subseteq> open_step D e" for D
      using snoc.prems by (cases "(D, e)" rule: open_step.cases) auto
    moreover have "open_fds (h @ evs @ [e]) = open_step (open_fds (h @ evs)) e"
      using open_fds_snoc [of "h @ evs" e] by simp
    ultimately show ?case by (metis list_all_append order_trans)
  qed simp
  assume "never_closes m" and "m p = (r, q)"
  then obtain evs where "history q = history p @ evs" "list_all (\<lambda>e. \<not> is_close_event e) evs"
    unfolding never_closes_def by (metis snd_conv)
  with mono show ?thesis by simp
qed

lemma Stream_construct_opens:
  assumes "Stream_construct k d p = (Inr s, q)"
  shows "stream_file_descriptor s = d" and "fresh_fds k \<Longrightarrow> \<exists>e. e \<notin> opened p \<and> opened q = insert e (opened p)"
    and "descriptor_limit k n \<Longrightarrow> card (opened q) \<le> n"
proof -
  from assms obtain e where e: "k_eventfd k (history p) = Inr e" "opened q = insert e (opened p)"
      "stream_file_descriptor s = d"
    by (auto simp: Stream_construct_def sys_eventfd_def split: prod.splits option.splits elim!: syscall_cases)
  then show "stream_file_descriptor s = d" and "fresh_fds k \<Longrightarrow> \<exists>e. e \<notin> opened p \<and> opened q = insert e (opened p)"
    and "descriptor_limit k n \<Longrightarrow> card (opened q) \<le> n"
    by (auto simp: fresh_fds_def descriptor_limit_def card_insert_if dest!: spec)
qed

lemma never_closes_Stream_construct: "never_closes (Stream_construct k d)"
  unfolding Stream_construct_def by (rule never_closes_eventfd)

lemmas Stream_construct_keeps = never_closes_opened [OF never_closes_Stream_construct]

text \<open>The way every source ends: a stream is constructed on a descriptor that was just obtained.\<close>

definition stream_on_new :: "kernel \<Rightarrow> process \<Rightarrow> Stream \<Rightarrow> process \<Rightarrow> bool" where
  "stream_on_new k p s q = (\<exists>r. Stream_construct k (stream_file_descriptor s) r = (Inr s, q) \<and>
     0 \<le> stream_file_descriptor s \<and> stream_file_descriptor s \<notin> opened p \<and>
     opened r = insert (stream_file_descriptor s) (opened p))"

lemma Tcp_stream_on_new:
  assumes "fresh_fds k" and "CreateTcpStreamToServer l k ip port version p = (Inr s, q)"
  shows "stream_on_new k p s q"
proof -
  let ?f = "if version = IPv6 then AF_INET6 else AF_INET"
  from assms(2) obtain d p1 p2 u where
    sock: "throw_errno SOCKET_SOCKET (sys_socket k ?f SOCK_STREAM IPPROTO_TCP) p = (Inr d, p1)"
    and conn: "throw_errno SOCKET_CONNECT (sys_connect k d (server_address l ip port version)) p1 = (Inr u, p2)"
    and last: "Stream_construct k d p2 = (Inr s, q)"
    unfolding CreateTcpStreamToServer_def by (elim bindA_InrE)
  from sock have "k_socket k (history p) ?f SOCK_STREAM IPPROTO_TCP = Inr d" "opened p1 = insert d (opened p)"
    by (auto simp: throw_errno_def sys_socket_def syscall_def split: sum.splits)
  moreover from this have "0 \<le> d \<and> d \<notin> opened p" using assms(1) unfolding fresh_fds_def by blast
  moreover from conn have "opened p2 = opened p1"
    by (auto simp: throw_errno_def sys_connect_def syscall_def split: sum.splits)
  moreover have "stream_file_descriptor s = d" by (rule Stream_construct_opens(1) [OF last])
  ultimately show ?thesis using last by (auto simp: stream_on_new_def)
qed

lemma Client_stream_on_new:
  assumes "fresh_fds k" and "Listener_accept k x timeout p = (Inr s, q)"
  shows "stream_on_new k p s q"
proof -
  let ?l = "listener_socket_fd x"
  from assms(2) obtain rs d where
    acc: "k_accept k (history p @ [Ev_Poll (listener_fds x) timeout (Inr rs)]) ?l = Inr d"
    and last: "Stream_construct k d (p\<lparr>history := history p @
      [Ev_Poll (listener_fds x) timeout (Inr rs), Ev_Accept ?l (Inr d)]\<rparr>) = (Inr s, q)"
    by (auto simp: Listener_accept_def sys_poll_def sys_accept_def syscall_def
        split: sum.splits prod.splits option.splits if_splits)
  have "0 \<le> d \<and> d \<notin> open_fds (history p @ [Ev_Poll (listener_fds x) timeout (Inr rs)])"
    using assms(1) acc unfolding fresh_fds_def by blast
  moreover have "stream_file_descriptor s = d" by (rule Stream_construct_opens(1) [OF last])
  ultimately show ?thesis using last by (auto simp: stream_on_new_def)
qed

lemma Served_stream_on_new:
  assumes "fresh_fds k" and "accepted_stream k x p = (Inr s, q)"
  shows "stream_on_new k p s q"
proof -
  from assms(2) obtain d p1 where
    acc: "throw_errno SOCKET_ACCEPT (sys_accept k (listener_socket_fd x)) p = (Inr d, p1)"
    and last: "Stream_construct k d p1 = (Inr s, q)"
    unfolding accepted_stream_def by (elim bindA_InrE)
  from acc have "k_accept k (history p) (listener_socket_fd x) = Inr d" "opened p1 = insert d (opened p)"
    by (auto simp: throw_errno_def sys_accept_def syscall_def split: sum.splits)
  moreover from this have "0 \<le> d \<and> d \<notin> opened p" using assms(1) unfolding fresh_fds_def by blast
  moreover have "stream_file_descriptor s = d" by (rule Stream_construct_opens(1) [OF last])
  ultimately show ?thesis using last by (auto simp: stream_on_new_def)
qed

text \<open>A round of the serving loop calls \<open>onIncomingStream\<close> with such a stream, or not at all.\<close>

lemma incoming_round_hands_over:
  assumes "k_poll k (history p) (listener_fds x) (-1) = Inr rs" and "revents rs 0 \<noteq> 0"
  shows "incoming_round k cb x (u, p) =
    (case accepted_stream k x (log_event (Ev_Poll (listener_fds x) (-1) (Inr rs)) p) of
       (Inl e, q) \<Rightarrow> (Inr False, (u, q))
     | (Inr s, q) \<Rightarrow> swallow (cb s (u, q)))"
  using assms by (simp add: incoming_round_def accepted_stream_def sys_poll_def bindA_def throw_errno_def
      sys_accept_def syscall_def swallow_def Stream_construct_def sys_eventfd_def split: sum.split)

text \<open>A pair: two descriptors at once, then a stream on each.\<close>

lemma Pipe_success:
  assumes "CreatePipe k p = (Inr (s, t), q)"
  obtains a b p1 p2 where "k_socketpair k (history p) AF_LOCAL (SOCK_STREAM OR SOCK_NONBLOCK) IPPROTO_IP = Inr (a, b)"
    and "opened p1 = insert a (insert b (opened p))" and "Stream_construct k a p1 = (Inr s, p2)"
    and "Stream_construct k b p2 = (Inr t, q)"
proof -
  from assms obtain a b p1 p2 where
    pair: "throw_errno SOCKET_PAIR (sys_socketpair k AF_LOCAL (SOCK_STREAM OR SOCK_NONBLOCK) IPPROTO_IP) p
      = (Inr (a, b), p1)"
    and fst: "Stream_construct k a p1 = (Inr s, p2)" and snd: "Stream_construct k b p2 = (Inr t, q)"
    unfolding CreatePipe_def
    by (elim bindA_InrE) (auto elim!: bindA_InrE split: prod.splits sum.splits)
  from pair have "k_socketpair k (history p) AF_LOCAL (SOCK_STREAM OR SOCK_NONBLOCK) IPPROTO_IP = Inr (a, b)"
    "opened p1 = insert a (insert b (opened p))"
    by (auto simp: throw_errno_def sys_socketpair_def syscall_def split: sum.splits)
  with fst snd show thesis using that by blast
qed

lemma Pipe_acquires:
  assumes "fresh_fds k" and "CreatePipe k p = (Inr (s, t), q)"
  shows "acquires [stream_file_descriptor s, stream_file_descriptor t] p q"
proof -
  from assms(2) obtain a b p1 p2 where
    pair: "k_socketpair k (history p) AF_LOCAL (SOCK_STREAM OR SOCK_NONBLOCK) IPPROTO_IP = Inr (a, b)"
    and p1: "opened p1 = insert a (insert b (opened p))"
    and s: "Stream_construct k a p1 = (Inr s, p2)" and t: "Stream_construct k b p2 = (Inr t, q)"
    by (rule Pipe_success)
  from Stream_construct_opens(1,2) [OF s] assms(1) obtain e where
    e: "stream_file_descriptor s = a" "e \<notin> opened p1" "opened p2 = insert e (opened p1)" by blast
  from Stream_construct_opens(1,2) [OF t] assms(1) obtain f where
    f: "stream_file_descriptor t = b" "f \<notin> opened p2" "opened q = insert f (opened p2)" by blast
  have "0 \<le> a \<and> 0 \<le> b \<and> a \<noteq> b \<and> a \<notin> opened p \<and> b \<notin> opened p"
    using assms(1) pair unfolding fresh_fds_def by blast
  with e f p1 show ?thesis by (intro acquiresI [of _ "[e, f]"]) auto
qed

text \<open>
  A pair that is not completed: the first stream is destroyed, which closes a new descriptor.
\<close>

lemma second_stream_failed:
  assumes "close_succeeds k" and "Stream_construct k a p1 = (Inr s, p2)" and "Stream_construct k b p2 = (Inl e, p3)"
    and "opened p1 = insert a (insert b D)" and "0 \<le> a" and "a \<notin> D"
  shows "\<exists>u. Stream_destroy k s p3 = (Inr (), u) \<and> D \<subseteq> opened u"
proof -
  have "opened p1 \<subseteq> opened p3"
    using Stream_construct_keeps [OF assms(2)] Stream_construct_keeps [OF assms(3)] by simp
  with Stream_construct_opens(1) [OF assms(2)] Stream_destroy_closes [OF assms(1), of s p3] assms(4-6)
  show ?thesis by auto
qed

lemma Pipe_keeps:
  assumes "fresh_fds k" and "close_succeeds k" and "CreatePipe k p = (r, q)"
  shows "opened p \<subseteq> opened q"
proof (cases r)
  case (Inr st)
  obtain s t where "st = (s, t)" by (rule prod.exhaust)
  with assms(3) Inr Pipe_acquires [OF assms(1), of p s t q] show ?thesis by (simp add: acquires_keeps)
next
  case (Inl e)
  let ?pair = "throw_errno SOCKET_PAIR (sys_socketpair k AF_LOCAL (SOCK_STREAM OR SOCK_NONBLOCK) IPPROTO_IP)"
  obtain v p1 where pair: "?pair p = (v, p1)" by (meson surj_pair)
  show ?thesis
  proof (cases v)
    case (Inr ab)
    obtain a b where ab: "ab = (a, b)" by (rule prod.exhaust)
    have ends: "k_socketpair k (history p) AF_LOCAL (SOCK_STREAM OR SOCK_NONBLOCK) IPPROTO_IP = Inr (a, b)"
      and p1: "opened p1 = insert a (insert b (opened p))"
      using pair Inr ab by (auto simp: throw_errno_def sys_socketpair_def syscall_def split: sum.splits)
    then have new: "0 \<le> a" "a \<notin> opened p" using assms(1) unfolding fresh_fds_def by blast+
    obtain w p2 where first: "Stream_construct k a p1 = (w, p2)" by (meson surj_pair)
    obtain w' p3 where second: "Stream_construct k b p2 = (w', p3)" by (meson surj_pair)
    note run = assms(3) [unfolded CreatePipe_def] pair Inr ab Inl first second
    show ?thesis
    proof (cases w)
      case (Inl e')
      with run Stream_construct_keeps [OF first] p1 show ?thesis by (auto simp: bindA_def)
    next
      case (Inr s)
      with run obtain e' where w': "w' = Inl e'" by (cases w') (auto simp: bindA_def)
      with Inr run second_stream_failed [OF assms(2) _ _ p1 new, of s p2 e' p3] show ?thesis
        by (auto simp: bindA_def)
    qed
  qed (use assms(3) pair in \<open>auto simp: CreatePipe_def bindA_def throw_errno_def sys_socketpair_def syscall_def split: sum.splits\<close>)
qed

lemma stream_on_new_acquires:
  assumes "fresh_fds k" and "stream_on_new k p s q"
  shows "acquires [stream_file_descriptor s] p q"
proof -
  let ?d = "stream_file_descriptor s"
  from assms(2) obtain r where r: "Stream_construct k ?d r = (Inr s, q)" "0 \<le> ?d" "?d \<notin> opened p"
    "opened r = insert ?d (opened p)" unfolding stream_on_new_def by blast
  from Stream_construct_opens(2) [OF r(1) assms(1)] obtain e where
    "e \<notin> opened r" "opened q = insert e (opened r)" by blast
  with r show ?thesis by (intro acquiresI [of _ "[e]"]) auto
qed

lemma Stream_create_acquires:
  assumes "fresh_fds k" and "Stream_create l k c p = (Inr xs, q)"
  shows "acquires (map stream_file_descriptor xs) p q"
proof (cases c)
  case Pipe
  with assms(2) obtain s t where "CreatePipe k p = (Inr (s, t), q)" "xs = [s, t]"
    by (auto elim!: bindA_InrE)
  with Pipe_acquires [OF assms(1), of p s t q] show ?thesis by simp
next
  case (Tcp_Server ip port version)
  with assms(2) obtain s where "CreateTcpStreamToServer l k ip port version p = (Inr s, q)" "xs = [s]"
    by (auto elim!: bindA_InrE)
  with stream_on_new_acquires [OF assms(1) Tcp_stream_on_new [OF assms(1)]] show ?thesis by simp
next
  case (Client_Of x timeout)
  with assms(2) obtain s where "Listener_accept k x timeout p = (Inr s, q)" "xs = [s]"
    by (auto elim!: bindA_InrE)
  with stream_on_new_acquires [OF assms(1) Client_stream_on_new [OF assms(1)]] show ?thesis by simp
next
  case (Served_By x)
  with assms(2) obtain s where "accepted_stream k x p = (Inr s, q)" "xs = [s]"
    by (auto elim!: bindA_InrE)
  with stream_on_new_acquires [OF assms(1) Served_stream_on_new [OF assms(1)]] show ?thesis by simp
qed

text \<open>A source that fails closes nothing that was open.\<close>

lemma never_closes_poll_accept: "never_closes (Listener_accept k x timeout)"
proof -
  have "\<exists>evs. history q = history p @ evs \<and> list_all (\<lambda>e. \<not> is_close_event e) evs"
    if "Listener_accept k x timeout p = (r, q)" for p r q
  proof -
    let ?l = "listener_socket_fd x"
    have wrap: "\<exists>evs. history q = history v @ evs \<and> list_all (\<lambda>e. \<not> is_close_event e) evs"
      if "Stream_construct k d v = (r, q)" for d v
      using never_closes_Stream_construct [of k d] that unfolding never_closes_def by (metis snd_conv)
    show ?thesis
      using that wrap by (fastforce simp: Listener_accept_def sys_poll_def sys_accept_def syscall_def
          split: sum.splits prod.splits option.splits if_splits)
  qed
  then show ?thesis unfolding never_closes_def by (metis prod.collapse)
qed

lemma never_closes_Tcp: "never_closes (CreateTcpStreamToServer l k ip port version)"
  unfolding CreateTcpStreamToServer_def by (intro never_closes_intros never_closes_Stream_construct)

lemma never_closes_accepted_stream: "never_closes (accepted_stream k x)"
proof -
  have "never_closes (throw_errno SOCKET_ACCEPT (sys_accept k (listener_socket_fd x)))"
    by (rule never_closes_call) (unfold syscall_defs, fastforce)
  then show ?thesis unfolding accepted_stream_def by (intro never_closes_bind never_closes_Stream_construct)
qed

lemma Stream_create_keeps:
  assumes "fresh_fds k" and "close_succeeds k" and "Stream_create l k c p = (r, q)"
  shows "opened p \<subseteq> opened q"
proof (cases c)
  case Pipe
  with assms(3) obtain r' where "CreatePipe k p = (r', q)"
    by (auto simp: bindA_def split: prod.splits sum.splits)
  then show ?thesis by (rule Pipe_keeps [OF assms(1,2)])
next
  case (Tcp_Server ip port version)
  then have "never_closes (Stream_create l k c)" by (auto intro!: never_closes_bind never_closes_Tcp)
  from never_closes_opened [of "Stream_create l k c" p r q, OF this assms(3)] show ?thesis .
next
  case (Client_Of x timeout)
  then have "never_closes (Stream_create l k c)" by (auto intro!: never_closes_bind never_closes_poll_accept)
  from never_closes_opened [of "Stream_create l k c" p r q, OF this assms(3)] show ?thesis .
next
  case (Served_By x)
  then have "never_closes (Stream_create l k c)" by (auto intro!: never_closes_bind never_closes_accepted_stream)
  from never_closes_opened [of "Stream_create l k c" p r q, OF this assms(3)] show ?thesis .
qed

text \<open>The last thing every source does is to make the stop descriptor.\<close>

lemma Stream_create_within:
  assumes "descriptor_limit k n" and "Stream_create l k c p = (Inr xs, q)"
  shows "card (opened q) \<le> n"
proof -
  have "\<exists>d v s. Stream_construct k d v = (Inr s, q)"
  proof (cases c)
    case Pipe
    with assms(2) obtain s t where "CreatePipe k p = (Inr (s, t), q)" by (auto elim!: bindA_InrE)
    then show ?thesis by (rule Pipe_success) blast
  next
    case (Tcp_Server ip port version)
    with assms(2) obtain s where "CreateTcpStreamToServer l k ip port version p = (Inr s, q)"
      by (auto elim!: bindA_InrE)
    then show ?thesis unfolding CreateTcpStreamToServer_def by (elim bindA_InrE) blast
  next
    case (Client_Of x timeout)
    with assms(2) obtain s where "Listener_accept k x timeout p = (Inr s, q)" by (auto elim!: bindA_InrE)
    then show ?thesis
      by (auto simp: Listener_accept_def split: prod.splits option.splits if_splits)
  next
    case (Served_By x)
    with assms(2) obtain s where "accepted_stream k x p = (Inr s, q)" by (auto elim!: bindA_InrE)
    then show ?thesis unfolding accepted_stream_def by (elim bindA_InrE) blast
  qed
  with Stream_construct_opens(3) assms(1) show ?thesis by blast
qed

text \<open>Reading, writing and stopping neither open nor close anything.\<close>

lemma Stream_read_loop_opened:
  "Stream_read_loop k s off max_bytes min_bytes t n (m, p) = (r, mq) \<Longrightarrow> opened (snd mq) = opened p"
proof (induction "min_bytes - n" arbitrary: n m p rule: less_induct)
  case less
  from less.prems show ?case
  proof (cases rule: Stream_read_loop_cases)
    case (more rs bs)
    have "min_bytes - (n + length bs) < min_bytes - n" using more(1,4) by (simp add: diff_less_mono2)
    from less.hyps [OF this more(6)] show ?thesis by simp
  qed simp_all
qed

lemma Stream_write_loop_opened:
  "Stream_write_loop k s bs attempts written p = (r, q) \<Longrightarrow> opened q = opened p"
proof (induction k s bs attempts written p rule: Stream_write_loop.induct)
  case (1 k s bs attempts written p)
  from 1(2) show ?case
    using 1(1) by (subst (asm) Stream_write_loop.simps)
      (fastforce simp: sys_write_def sys_sleep_def syscall_def split: sum.splits prod.splits option.splits if_splits)
qed

lemma Stream_call_opened: "Stream_call k u s p = (s', q) \<Longrightarrow> s' = s \<and> opened q = opened p"
proof (cases u)
  case (Read_Into m off max_bytes min_bytes t)
  assume "Stream_call k u s p = (s', q)"
  moreover obtain r m' v where "Stream_read_loop k s off max_bytes min_bytes t 0 (m, p) = (r, (m', v))"
    by (rule prod_cases3)
  ultimately show ?thesis
    using Read_Into Stream_read_loop_opened [of k s off max_bytes min_bytes t 0 m p r "(m', v)"]
    by (simp add: Stream_read_def)
next
  case (Write_From bs attempts)
  assume "Stream_call k u s p = (s', q)"
  with Write_From show ?thesis
    using Stream_write_loop_opened [of k s bs attempts 0 p]
    by (cases "Stream_write_loop k s bs attempts 0 p") (auto simp: Stream_write_def bindA_def split: sum.splits if_splits)
next
  case Stop_Reads
  assume "Stream_call k u s p = (s', q)"
  with Stop_Reads show ?thesis
    by (cases "k_eventfd_write k (history p) (stop_all_operations_event_fd s) stop_semaphore_value")
      (auto simp: Stream_stopReads_def ignore_result_def sys_eventfd_write_def)
qed

interpretation stream_owner: owning_class "stream_class l" for l
proof unfold_locales
  fix k x p
  assume "held (stream_class l) x < 0"
  then show "destruct (stream_class l) k x p = (Inr (), p)" by (simp add: Stream_destroy_def)
next
  fix k x p
  assume "close_succeeds k" "0 \<le> held (stream_class l) x" "held (stream_class l) x \<in> opened p"
  then show "\<exists>q. destruct (stream_class l) k x p = (Inr (), q) \<and> opened q = opened p - {held (stream_class l) x}"
    by (simp add: Stream_destroy_closes)
qed (auto simp: Stream_move_def Stream_assign_def kInvalidSocketFdMarker_def Stream_create_acquires
    dest: Stream_create_keeps Stream_create_within Stream_call_opened)

section \<open>Datagram sockets\<close>

datatype udp_source = Bound string "16 word" IP_VERSION int

datatype udp_call =
    Udp_Read int
  | Udp_Write "char list" string int
  | Udp_Subscribe string
  | Udp_Stop

fun Udp_create :: "libc \<Rightarrow> kernel \<Rightarrow> udp_source \<Rightarrow> (process, error, UdpDatagram list) action" where
  "Udp_create l k (Bound ip port version buffer_size) =
     bindA (UdpDatagram_construct l k ip port version buffer_size) (\<lambda>x. ret [x])"

fun Udp_call :: "libc \<Rightarrow> kernel \<Rightarrow> udp_call \<Rightarrow> UdpDatagram \<Rightarrow> process \<Rightarrow> UdpDatagram \<times> process" where
  "Udp_call l k (Udp_Read t) x p = snd (UdpDatagram_read k t (x, p))"
| "Udp_call l k (Udp_Write msg ip port) x p = (x, snd (UdpDatagram_write l k x msg ip port p))"
| "Udp_call l k (Udp_Subscribe ip) x p = (x, snd (subscribeToMulticast l k x ip p))"
| "Udp_call l k Udp_Stop x p = (x, snd (UdpDatagram_stopReads k x p))"

definition udp_class :: "libc \<Rightarrow> (udp_source, udp_call, UdpDatagram) owning" where
  "udp_class l = \<lparr>held = socket_fd, create = Udp_create l, move_construct = UdpDatagram_move,
     move_assign = UdpDatagram_assign, member_call = Udp_call l, destruct = UdpDatagram_destroy\<rparr>"

lemma udp_class_simps [simp]:
  "held (udp_class l) = socket_fd" "create (udp_class l) = Udp_create l"
  "move_construct (udp_class l) = UdpDatagram_move" "move_assign (udp_class l) = UdpDatagram_assign"
  "member_call (udp_class l) = Udp_call l" "destruct (udp_class l) = UdpDatagram_destroy"
  by (simp_all add: udp_class_def)

lemma Udp_create_keeps:
  assumes "Udp_create l k c p = (r, q)"
  shows "opened p \<subseteq> opened q"
proof -
  have "never_closes (Udp_create l k c)"
    by (cases c) (auto simp: UdpDatagram_construct_def intro!: never_closes_intros)
  from never_closes_opened [of "Udp_create l k c" p r q, OF this assms] show ?thesis .
qed

lemma ignored_option_opened:
  "ignore_result (sys_setsockopt k d opt) p = (r, q) \<Longrightarrow> r = Inr () \<and> opened q = opened p"
  by (auto simp: ignore_result_def sys_setsockopt_def syscall_def split: sum.splits)

lemma Udp_construct_success:
  assumes "UdpDatagram_construct l k ip port version buffer_size p = (Inr x, q)"
  obtains h f e where "k_socket k (history p) f udp_socket_type IPPROTO_UDP = Inr (socket_fd x)"
    and "open_fds h = insert (socket_fd x) (opened p)" and "k_eventfd k h = Inr e"
    and "opened q = insert e (open_fds h)"
proof -
  let ?f = "if version = IPv6 then AF_INET6 else AF_INET"
  from assms obtain d p1 p2 p3 p4 p5 u2 u3 u4 u5 where
    sock: "throw_errno SOCKET_SOCKET (sys_socket k ?f udp_socket_type IPPROTO_UDP) p = (Inr d, p1)"
    and o1: "ignore_result (sys_setsockopt k d (SO_REUSEADDR 1)) p1 = (Inr u2, p2)"
    and o2: "(if SO_REUSEPORT_defined l then ignore_result (sys_setsockopt k d (SO_REUSEPORT 1)) else ret ()) p2 = (Inr u3, p3)"
    and bnd: "throw_errno SOCKET_BIND (sys_bind k d (UdpDatagram_address l ip port version)) p3 = (Inr u4, p4)"
    and siz: "(if buffer_size < 0 then throw Length_Error else ret ()) p4 = (Inr u5, p5)"
    and last: "(case sys_eventfd k p5 of
          (None, q) \<Rightarrow> (Inl (Runtime_Error ''Failed to create event_fd''), q)
        | (Some e, q) \<Rightarrow>
            (Inr \<lparr>buffer = replicate (nat buffer_size) (CHR 0x00), socket_fd = d,
               ip_version = Some version, udp_stop_fd = e\<rparr>, q)) = (Inr x, q)"
    unfolding UdpDatagram_construct_def by (elim bindA_InrE)
  from sock have d: "k_socket k (history p) ?f udp_socket_type IPPROTO_UDP = Inr d" "opened p1 = insert d (opened p)"
    by (auto simp: throw_errno_def sys_socket_def syscall_def split: sum.splits)
  have "opened p3 = opened p1"
    using ignored_option_opened [OF o1] o2 ignored_option_opened [of k d "SO_REUSEPORT 1" p2 "Inr u3" p3]
    by (auto split: if_splits)
  moreover from bnd have "opened p4 = opened p3"
    by (auto simp: throw_errno_def sys_bind_def syscall_def split: sum.splits)
  moreover from siz have "p5 = p4" by (auto split: if_splits)
  moreover from last obtain e where "k_eventfd k (history p5) = Inr e" "opened q = insert e (opened p5)" "socket_fd x = d"
    by (auto simp: sys_eventfd_def split: prod.splits option.splits elim!: syscall_cases)
  ultimately show thesis using d that by simp
qed

lemma Udp_create_success:
  assumes "Udp_create l k c p = (Inr xs, q)"
  obtains x ip port version buffer_size where "xs = [x]"
    and "UdpDatagram_construct l k ip port version buffer_size p = (Inr x, q)"
  using assms by (cases c) (auto elim!: bindA_InrE)

lemma Udp_create_acquires:
  assumes "fresh_fds k" and "Udp_create l k c p = (Inr xs, q)"
  shows "acquires (map socket_fd xs) p q"
proof -
  from Udp_create_success [OF assms(2)] obtain x ip port version n where
    x: "xs = [x]" "UdpDatagram_construct l k ip port version n p = (Inr x, q)" .
  from Udp_construct_success [OF x(2)] obtain h f e where
    made: "k_socket k (history p) f udp_socket_type IPPROTO_UDP = Inr (socket_fd x)"
    "open_fds h = insert (socket_fd x) (opened p)" "k_eventfd k h = Inr e" "opened q = insert e (open_fds h)" .
  then have "0 \<le> socket_fd x \<and> socket_fd x \<notin> opened p" "e \<notin> open_fds h"
    using assms(1) unfolding fresh_fds_def by blast+
  with made x(1) show ?thesis by (intro acquiresI [of _ "[e]"]) auto
qed

lemma Udp_create_within:
  assumes "descriptor_limit k n" and "Udp_create l k c p = (Inr xs, q)"
  shows "card (opened q) \<le> n"
proof -
  from Udp_create_success [OF assms(2)] obtain x ip port version m where
    x: "xs = [x]" "UdpDatagram_construct l k ip port version m p = (Inr x, q)" .
  from Udp_construct_success [OF x(2)] obtain h f e where
    made: "k_socket k (history p) f udp_socket_type IPPROTO_UDP = Inr (socket_fd x)"
    "open_fds h = insert (socket_fd x) (opened p)" "k_eventfd k h = Inr e" "opened q = insert e (open_fds h)" .
  from made(3) assms(1) have "card (open_fds h) < n" unfolding descriptor_limit_def by blast
  with made(4) show ?thesis by (simp add: card_insert_if)
qed

lemma Udp_call_opened: "Udp_call l k u x p = (x', q) \<Longrightarrow> socket_fd x' = socket_fd x \<and> opened q = opened p"
  by (cases u)
    (auto simp: UdpDatagram_read_def UdpDatagram_write_def subscribeToMulticast_def UdpDatagram_stopReads_def
      Let_def bindA_def throw_errno_def ignore_result_def syscall_defs syscall_def
      split: sum.splits prod.splits option.splits if_splits IP_VERSION.splits)

lemma Udp_destroy_closes:
  assumes "close_succeeds k" and "0 \<le> socket_fd x" and "socket_fd x \<in> opened p"
  shows "\<exists>w. UdpDatagram_destroy k x p = (Inr (), w) \<and> opened w = opened p - {socket_fd x}"
proof -
  let ?w = "snd (sys_eventfd_write k (udp_stop_fd x) stop_semaphore_value p)"
  have same: "opened ?w = opened p"
    by (cases "k_eventfd_write k (history p) (udp_stop_fd x) stop_semaphore_value")
      (auto simp: sys_eventfd_write_def)
  with assms have "k_close k (history ?w) (socket_fd x) = Inr ()" by (simp add: close_succeeds_def)
  with assms(2) same show ?thesis
    by (simp add: UdpDatagram_destroy_def bindA_def ignore_result_def sys_close_def)
qed

interpretation udp_owner: owning_class "udp_class l" for l
proof unfold_locales
  fix k x p
  assume "held (udp_class l) x < 0"
  then show "destruct (udp_class l) k x p = (Inr (), p)" by (simp add: UdpDatagram_destroy_def)
qed (auto simp: UdpDatagram_move_def UdpDatagram_assign_def kInvalidSocketFdMarker_def Udp_create_acquires
    Udp_destroy_closes dest: Udp_create_keeps Udp_create_within Udp_call_opened)

section \<open>Properties\<close>

text \<open>
  C8: Streams own their sockets. Take any program that gets streams from the factory and from
  listeners, moves them by construction and assignment, reads, writes and stops them, moved-from
  ones included, and destroys them, in any order, while the rest of the process does not close
  their descriptors. No destructor ends the program; at every moment the socket of every live
  stream is open and no other stream has it; and the account of every descriptor balances: as
  often as a new stream was given it, it was closed by a destructor, or lost under an assignment to the
  stream that had it, or some stream has it now.
\<close>

theorem streams_own_their_sockets:
  assumes "fresh_fds k" and "close_succeeds k"
    and "runs (owner_step k (stream_class l)) (Map.empty, p) ls (s, q)"
  shows "Died \<notin> set ls \<and>
    (\<forall>i x. s i = Some x \<longrightarrow> 0 \<le> stream_file_descriptor x \<longrightarrow>
       stream_file_descriptor x \<in> open_fds (history q) \<and>
       (\<forall>j y. s j = Some y \<longrightarrow> stream_file_descriptor y = stream_file_descriptor x \<longrightarrow> j = i)) \<and>
    (\<forall>d \<ge> 0. total_of (times_made d) ls = total_of (times_closed d) ls + total_of (times_lost d) ls +
       (if \<exists>i x. s i = Some x \<and> stream_file_descriptor x = d then 1 else 0))"
proof -
  let ?h = "holdings (stream_class l) s"
  note owned = stream_owner.runs_owned [OF assms]
  have at: "?h i = Some (stream_file_descriptor x)" if "s i = Some x" for i x
    using holdings_at [of s i x "stream_class l"] that by simp
  have "d \<in> owned ?h \<longleftrightarrow> (\<exists>i x. s i = Some x \<and> stream_file_descriptor x = d)" if "0 \<le> d" for d
    using that by (auto simp: owned_def holdings_def)
  moreover have "stream_file_descriptor x \<in> open_fds (history q)"
    if "s i = Some x" and "0 \<le> stream_file_descriptor x" for i x
    using ownedI [of ?h i] at [OF that(1)] that(2) owned by (auto simp: owner_inv_def)
  moreover have "j = i" if "s i = Some x" and "0 \<le> stream_file_descriptor x" and "s j = Some y"
    and "stream_file_descriptor y = stream_file_descriptor x" for i j x y
    using at [OF that(1)] at [OF that(3)] that(2,4) owned by (simp add: owner_inv_def exclusive_def)
  ultimately show ?thesis using owned by (simp add: of_bool_def)
qed

text \<open>
  C31: Streams use up the process. Each one takes a socket and an \<open>eventfd\<close>, and its destructor closes
  the socket only. However carefully the streams are destroyed, after any number of them that many
  descriptors are open that no stream holds, so the limit on open descriptors is a limit on how many
  streams the process can make, connections it accepted included, in its whole life.
\<close>

theorem streams_use_up_descriptors:
  assumes "fresh_fds k" and "close_succeeds k" and "descriptor_limit k n"
    and "runs (owner_step k (stream_class l)) (Map.empty, p) ls (s, q)" and "Elsewhere \<notin> set ls"
  shows "total_of objects_made ls \<le>
      card (open_fds (history q) - {d. 0 \<le> d \<and> (\<exists>i x. s i = Some x \<and> stream_file_descriptor x = d)}) \<and>
    total_of objects_made ls \<le> n"
proof -
  have "owned (holdings (stream_class l) s) = {d. 0 \<le> d \<and> (\<exists>i x. s i = Some x \<and> stream_file_descriptor x = d)}"
    by (auto simp: owned_def holdings_def)
  with stream_owner.runs_objects_bounded [OF assms] show ?thesis by simp
qed

text \<open>A pair of streams; the first is moved to another variable, and destroyed there.\<close>

definition limited_kernel :: kernel where
  "limited_kernel = (reference_kernel demo_script)
     \<lparr>k_eventfd := (\<lambda>h. if card (open_fds h) < 8 then Inr (fresh_fd h) else Inl 24)\<rparr>"

lemma limited_kernel_documented:
  "fresh_fds limited_kernel" "close_succeeds limited_kernel" "descriptor_limit limited_kernel 8"
  using reference_fresh [of demo_script] reference_close_succeeds [of demo_script]
  unfolding limited_kernel_def fresh_fds_def close_succeeds_def descriptor_limit_def
  by (auto simp: reference_kernel_def)

definition demo_pair :: "Stream list" where
  "demo_pair = [\<lparr>stream_file_descriptor = 3, stop_all_operations_event_fd = 5\<rparr>,
     \<lparr>stream_file_descriptor = 4, stop_all_operations_event_fd = 6\<rparr>]"

lemma demo_pair_run:
  obtains q where "runs (owner_step limited_kernel (stream_class reference_libc)) (Map.empty, no_process)
    [Made [3, 4], Moved, Destroyed 3]
    ([0 \<mapsto> \<lparr>stream_file_descriptor = -1, stop_all_operations_event_fd = 5\<rparr>, 1 \<mapsto> demo_pair ! 1], q)"
proof -
  let ?C = "stream_class reference_libc"
  let ?step = "owner_step limited_kernel ?C"
  let ?x = "demo_pair ! 0" and ?hollow = "\<lparr>stream_file_descriptor = -1, stop_all_operations_event_fd = 5\<rparr>"
  let ?r = "Stream_create reference_libc limited_kernel Pipe no_process"
  let ?v = "Stream_destroy limited_kernel ?x (snd ?r)"
  have "fst ?r = Inr demo_pair" by code_simp
  then have made: "create ?C limited_kernel Pipe no_process = (Inr demo_pair, snd ?r)"
    using pair_of_fst by fastforce
  have one: "?step (Map.empty, no_process) (Made [3, 4]) (Map.empty([0, 1] [\<mapsto>] demo_pair), snd ?r)"
    using owner_step.made [OF made, of "[0, 1]" Map.empty] by (simp add: demo_pair_def)
  let ?s = "Map.empty([0 :: nat, 1] [\<mapsto>] demo_pair)"
  have "move_construct ?C ?x = (?x, ?hollow)"
    by (simp add: demo_pair_def Stream_move_def kInvalidSocketFdMarker_def)
  then have two: "?step (?s, snd ?r) Moved (?s(0 \<mapsto> ?hollow, 2 \<mapsto> ?x), snd ?r)"
    by (intro owner_step.moved) (simp_all add: demo_pair_def)
  have "fst ?v = Inr ()" by code_simp
  then have "destruct ?C limited_kernel ?x (snd ?r) = (Inr (), snd ?v)"
    using pair_of_fst by fastforce
  from owner_step.destroyed [OF _ this, of "?s(0 \<mapsto> ?hollow, 2 \<mapsto> ?x)" 2]
  have three: "?step (?s(0 \<mapsto> ?hollow, 2 \<mapsto> ?x), snd ?r) (Destroyed 3) (?s(0 \<mapsto> ?hollow), snd ?v)"
    by (simp add: demo_pair_def fun_upd_twist)
  from runs_Cons [where step = ?step, OF one runs_Cons [where step = ?step, OF two runs_single [where step = ?step, OF three]]]
  have "runs ?step (Map.empty, no_process) [Made [3, 4], Moved, Destroyed 3] (?s(0 \<mapsto> ?hollow), snd ?v)" .
  moreover have "?s(0 \<mapsto> ?hollow) = [0 \<mapsto> ?hollow, 1 \<mapsto> demo_pair ! 1]"
    by (simp add: demo_pair_def fun_upd_twist)
  ultimately show thesis using that by simp
qed

theorem streams_own_their_sockets_witness:
  "\<exists>s q. runs (owner_step limited_kernel (stream_class reference_libc)) (Map.empty, no_process)
      [Made [3, 4], Moved, Destroyed 3] (s, q) \<and> 4 \<in> open_fds (history q)"
proof -
  obtain q where run: "runs (owner_step limited_kernel (stream_class reference_libc)) (Map.empty, no_process)
    [Made [3, 4], Moved, Destroyed 3]
    ([0 \<mapsto> \<lparr>stream_file_descriptor = -1, stop_all_operations_event_fd = 5\<rparr>, 1 \<mapsto> demo_pair ! 1], q)"
    by (rule demo_pair_run)
  from streams_own_their_sockets [OF limited_kernel_documented(1,2) run, THEN conjunct2, THEN conjunct1,
      rule_format, of 1 "demo_pair ! 1"] have "4 \<in> open_fds (history q)"
    by (simp add: demo_pair_def)
  with run show ?thesis by blast
qed

theorem streams_use_up_descriptors_witness:
  "\<exists>s q. runs (owner_step limited_kernel (stream_class reference_libc)) (Map.empty, no_process)
      [Made [3, 4], Moved, Destroyed 3] (s, q) \<and> 2 \<le> card (open_fds (history q) - {4})"
proof -
  obtain q where run: "runs (owner_step limited_kernel (stream_class reference_libc)) (Map.empty, no_process)
    [Made [3, 4], Moved, Destroyed 3]
    ([0 \<mapsto> \<lparr>stream_file_descriptor = -1, stop_all_operations_event_fd = 5\<rparr>, 1 \<mapsto> demo_pair ! 1], q)"
    (is "runs _ _ _ (?s, q)")
    by (rule demo_pair_run)
  have "{d. 0 \<le> d \<and> (\<exists>i x. ?s i = Some x \<and> stream_file_descriptor x = d)} = {4}"
    by (auto simp: demo_pair_def split: if_splits)
  with streams_use_up_descriptors [OF limited_kernel_documented run] have "2 \<le> card (open_fds (history q) - {4})"
    by simp
  with run show ?thesis by blast
qed

text \<open>
  The destructor leaves a moved-from object alone, but a moved-from stream still has the stop
  descriptor of its successor: \<open>stopReads\<close> on either of them is the same call.
\<close>

lemma moved_from_stops_successor:
  "Stream_move src = (x, rest) \<Longrightarrow> Stream_stopReads k rest p = Stream_stopReads k x p"
  by (auto simp: Stream_move_def Stream_stopReads_def)

text \<open>The same account for datagram sockets.\<close>

lemma datagram_sockets_owned:
  assumes "fresh_fds k" and "close_succeeds k"
    and "runs (owner_step k (udp_class l)) (Map.empty, p) ls (s, q)"
  shows "Died \<notin> set ls \<and> owned (holdings (udp_class l) s) \<subseteq> open_fds (history q) \<and>
    (\<forall>d \<ge> 0. total_of (times_made d) ls = total_of (times_closed d) ls + total_of (times_lost d) ls +
       of_bool (d \<in> owned (holdings (udp_class l) s)))"
  using udp_owner.runs_owned [OF assms] by (simp add: owner_inv_def)

lemma datagram_sockets_bounded:
  assumes "fresh_fds k" and "close_succeeds k" and "descriptor_limit k n"
    and "runs (owner_step k (udp_class l)) (Map.empty, p) ls (s, q)" and "Elsewhere \<notin> set ls"
  shows "total_of objects_made ls \<le> n"
  using udp_owner.runs_objects_bounded [OF assms] by simp

end
