(* ===== verification/Repository_Tests.thy ===== *)
theory Repository_Tests
  imports Conditional_Runs Stream_Factory
begin

text \<open>
  The tests of \<open>ConditionalBufferedStream\<close> in \<open>test/test.cpp\<close>, run on the model: the client's calls of a
  test in their order, and, where the test relies on the worker to keep up, a round of it. The
  kernel is one whose socket pairs deliver what was written at the other end.
\<close>

section \<open>A kernel with socket pairs\<close>

fun event_peer :: "fd \<Rightarrow> event \<Rightarrow> fd option" where
  "event_peer d (Ev_Socketpair f t pr (Inr ab)) =
     (if fst ab = d then Some (snd ab) else if snd ab = d then Some (fst ab) else None)"
| "event_peer d _ = None"

definition peer_of :: "fd \<Rightarrow> history \<Rightarrow> fd option" where
  "peer_of d h = foldl (\<lambda>e ev. case event_peer d ev of None \<Rightarrow> e | Some e' \<Rightarrow> Some e') None h"

definition undelivered :: "history \<Rightarrow> fd \<Rightarrow> char list" where
  "undelivered h d = (case peer_of d h of None \<Rightarrow> [] | Some e \<Rightarrow> drop (length (received d h)) (sent e h))"

definition peer_closed :: "history \<Rightarrow> fd \<Rightarrow> bool" where
  "peer_closed h d = (case peer_of d h of None \<Rightarrow> False | Some e \<Rightarrow> e \<notin> open_fds h)"

definition pair_revents :: "history \<Rightarrow> fd \<Rightarrow> 16 word" where
  "pair_revents h d = (case efd_count d h of
      Some c \<Rightarrow> if 0 < c then 1 else 0
    | None \<Rightarrow> if undelivered h d \<noteq> [] \<or> peer_closed h d then 1 else 0)"

definition pair_kernel :: kernel where
  "pair_kernel = (reference_kernel demo_script)\<lparr>
     k_read := (\<lambda>h d n. if undelivered h d = [] \<and> \<not> peer_closed h d then Inl EAGAIN else Inr (take n (undelivered h d))),
     k_write := (\<lambda>h d bs. Inr (length bs)),
     k_poll := (\<lambda>h ds t. let rs = map (pair_revents h) ds
       in if t < 0 \<and> list_all (\<lambda>r. r = 0) rs then Inl EINTR else Inr rs)\<rparr>"

section \<open>Test programs\<close>

text \<open>
  The assertions are those of \<open>test/test.h\<close>; \<open>Throws\<close> is a \<open>readBlocking\<close> with a timeout that has to
  throw, with the type it throws here.
\<close>

datatype test_op = Writes string | Worker_Runs | Poll_Timed_Out | Poll_Got_Event | Read_Eq string
  | Read_Blocking_Eq string | Throws int socket_exception_type | Writer_Gone | Stops

fun test_passes :: "kernel \<Rightarrow> Stream \<Rightarrow> fd \<Rightarrow> test_op list \<Rightarrow> cbs_state \<Rightarrow> bool" where
  "test_passes k s e [] cp = True"
| "test_passes k s e (Writes bs # ops) cp =
     (case Stream_write k s bs 1 (snd cp) of (Inl x, q) \<Rightarrow> False | (Inr u, q) \<Rightarrow> test_passes k s e ops (fst cp, q))"
| "test_passes k s e (Worker_Runs # ops) cp =
     (case worker_round k cp of (Inl x, cq) \<Rightarrow> test_passes k s e ops (snd (worker_catch k x cq))
      | (Inr u, cq) \<Rightarrow> test_passes k s e ops cq)"
| "test_passes k s e (Poll_Timed_Out # ops) cp =
     (case sys_poll k [e] 20 (snd cp) of (res, q) \<Rightarrow> res = Some [0] \<and> test_passes k s e ops (fst cp, q))"
| "test_passes k s e (Poll_Got_Event # ops) cp =
     (case sys_poll k [e] 20 (snd cp) of (res, q) \<Rightarrow> res = Some [1] \<and>
        test_passes k s e ops (fst cp, snd (sys_eventfd_read k e q)))"
| "test_passes k s e (Read_Eq x # ops) cp =
     (case ConditionalBufferedStream_read e (fst cp) of (r, c) \<Rightarrow> r = Inr x \<and> test_passes k s e ops (c, snd cp))"
| "test_passes k s e (Read_Blocking_Eq x # ops) cp =
     (case readBlocking k e (-1) cp of (r, cq) \<Rightarrow> r = Inr x \<and> test_passes k s e ops cq)"
| "test_passes k s e (Throws ms t # ops) cp =
     (case readBlocking k e ms cp of (Inl (Socket_Exception ex), cq) \<Rightarrow> exception_type ex = t \<and> test_passes k s e ops cq
      | _ \<Rightarrow> False)"
| "test_passes k s e (Writer_Gone # ops) cp =
     (case Stream_destroy k s (snd cp) of (Inl x, q) \<Rightarrow> False | (Inr u, q) \<Rightarrow> test_passes k s e ops (fst cp, q))"
| "test_passes k s e (Stops # ops) cp = test_passes k s e ops (snd (ConditionalBufferedStream_stopReads k cp))"

definition run_test :: "buffer_event_condition \<Rightarrow> test_op list \<Rightarrow> bool" where
  "run_test cond ops =
     (case CreatePipe pair_kernel \<lparr>history = [], errno = 0\<rparr> of
        (Inl x, p) \<Rightarrow> False
      | (Inr (s0, s1), p) \<Rightarrow>
          let c = fst (ConditionalBufferedStream_construct (fst (BufferedStream_construct s1 512)))
          in case createEventfdOnCondition reference_libc pair_kernel cond (c, p) of
               (Inl x, cq) \<Rightarrow> False
             | (Inr e, cq) \<Rightarrow>
                 (case ConditionalBufferedStream_start cq of
                    (Inl x, cr) \<Rightarrow> False
                  | (Inr u, cr) \<Rightarrow> test_passes pair_kernel s0 e ops cr))"

abbreviation newline_condition :: buffer_event_condition where
  "newline_condition \<equiv> getDelimiterCondition (CHR 0x0A)"

text \<open>The condition of the test \<open>DiscardData\<close>.\<close>

definition fancy_condition :: buffer_event_condition where
  "fancy_condition data =
     (let end_marker = find_index (CHR ''Z'') data in
      if end_marker = length data then 0
      else if data ! 0 = CHR ''A'' then word_of_nat end_marker
      else let next_start_marker = find_index (CHR ''A'') data in
        if next_start_marker = length data then - word_of_nat (length data)
        else - word_of_nat next_start_marker)"

section \<open>They pass\<close>

theorem test_ReadBlocking:
  "run_test newline_condition [Writes (''abc'' @ [CHR 0x0A] @ ''xyz'' @ [CHR 0x0A]), Worker_Runs,
     Read_Blocking_Eq (''abc'' @ [CHR 0x0A]), Read_Blocking_Eq (''xyz'' @ [CHR 0x0A]), Poll_Timed_Out]"
  by code_simp

theorem test_ReadUntilDelimiter:
  "run_test newline_condition [Writes ''xyz'', Worker_Runs, Poll_Timed_Out, Writes ''def'', Worker_Runs, Poll_Timed_Out,
     Writes ([CHR 0x0A] @ ''a'' @ [CHR 0x0A]), Worker_Runs,
     Poll_Got_Event, Read_Eq (''xyzdef'' @ [CHR 0x0A]), Poll_Got_Event, Read_Eq (''a'' @ [CHR 0x0A]), Poll_Timed_Out,
     Writes ''123'', Worker_Runs, Poll_Timed_Out, Writes (''a'' @ [CHR 0x0A] @ ''c''), Worker_Runs,
     Poll_Got_Event, Read_Eq (''123a'' @ [CHR 0x0A])]"
  by code_simp

theorem test_DiscardData:
  "run_test fancy_condition [Writes (''abc'' @ [CHR 0x0A] @ ''AyzxZbdfAAZ'' @ [CHR 0x0A]), Worker_Runs,
     Read_Blocking_Eq ''Ayzx'', Poll_Got_Event, Read_Eq ''AA'', Poll_Timed_Out]"
  by code_simp

theorem test_ReadNonBlocking:
  "run_test newline_condition [Writes (''abc'' @ [CHR 0x0A] @ ''xyz'' @ [CHR 0x0A]), Worker_Runs,
     Poll_Got_Event, Read_Eq (''abc'' @ [CHR 0x0A]), Poll_Got_Event, Read_Eq (''xyz'' @ [CHR 0x0A]), Poll_Timed_Out]"
  by code_simp

theorem test_ReadMixtureOfTypes:
  "run_test newline_condition [Writes (''abc'' @ [CHR 0x0A] @ ''xyz'' @ [CHR 0x0A]),
     Writes (''abc'' @ [CHR 0x0A] @ ''xyz'' @ [CHR 0x0A]), Worker_Runs,
     Read_Blocking_Eq (''abc'' @ [CHR 0x0A]), Poll_Got_Event, Read_Eq (''xyz'' @ [CHR 0x0A]),
     Read_Blocking_Eq (''abc'' @ [CHR 0x0A]), Poll_Got_Event, Read_Eq (''xyz'' @ [CHR 0x0A]), Poll_Timed_Out]"
  by code_simp

theorem test_ReadNonBlockingTimeout:
  "run_test newline_condition [Throws 1 SOCKET_POLL]"
  by code_simp

text \<open>
  The test writes eight bytes of a literal that has five; here it writes the four in front of the
  terminating zero.
\<close>

theorem test_ThrowExceptionIfClosed:
  "run_test newline_condition [Writes (''abc'' @ [CHR 0x0A]), Worker_Runs, Read_Blocking_Eq (''abc'' @ [CHR 0x0A]),
     Writer_Gone, Worker_Runs, Throws 1 SOCKET_CLOSED]"
  by code_simp

text \<open>The reader's timeout of a second is over after the stop.\<close>

theorem test_AbortReads:
  "run_test newline_condition [Stops, Worker_Runs, Throws 1000 SOCKET_TERMINATION_REQUEST]"
  by code_simp

end
