(* ===== verification/Net_Utils.thy ===== *)
theory Net_Utils
  imports Reference_Kernel "HOL-Library.Multiset"
begin

text \<open>
  \<open>src/Utils.cpp\<close>: the list of the local network interfaces, and the choice of the one with the
  most specific netmask.
\<close>

section \<open>Listing the interfaces\<close>

text \<open>
  One node of the list that \<open>getifaddrs(3)\<close> builds; the null pointers in it are \<open>None\<close>. The
  list itself is the system's, so it is an argument.
\<close>

record ifaddr =
  ifa_name :: string
  ifa_addr :: "sockaddr option"
  ifa_netmask :: "sockaddr option"
  ifa_broadaddr :: "sockaddr option"

fun sa_family :: "sockaddr \<Rightarrow> address_family" where
  "sa_family (Sockaddr_In a p) = AF_INET"
| "sa_family (Sockaddr_In6 a p) = AF_INET6"
| "sa_family (Sockaddr_Other n) = AF_other n"

definition getIpV6AddressOf :: "libc \<Rightarrow> 128 word \<Rightarrow> string" where
  "getIpV6AddressOf l a = inet_ntop6 l a"

definition getIpV4AddressOf :: "libc \<Rightarrow> 32 word \<Rightarrow> string" where
  "getIpV4AddressOf l a = inet_ntop4 l a"

fun getIpAddressOf :: "libc \<Rightarrow> sockaddr option \<Rightarrow> error + string" where
  "getIpAddressOf l None = Inr []"
| "getIpAddressOf l (Some (Sockaddr_In6 a p)) = Inr (getIpV6AddressOf l a)"
| "getIpAddressOf l (Some (Sockaddr_In a p)) = Inr (getIpV4AddressOf l a)"
| "getIpAddressOf l (Some (Sockaddr_Other n)) = Inl (Runtime_Error (''Unknown address family:'' @ to_string n))"

text \<open>
  The loop over the list, with the vector of interfaces found so far. The members of the new
  element are initialised in the order of their declaration, and the first exception ends the
  function.
\<close>

fun collect_interfaces ::
    "libc \<Rightarrow> IP_VERSION \<Rightarrow> ifaddr list \<Rightarrow> NetworkInterface list \<Rightarrow> error + NetworkInterface list" where
  "collect_interfaces l version [] found = Inr found"
| "collect_interfaces l version (i # rest) found =
     (if (case ifa_addr i of None \<Rightarrow> False
          | Some a \<Rightarrow> sa_family a = (if version = IPv4 then AF_INET else AF_INET6)) then
        (case getIpAddressOf l (ifa_addr i) of
           Inl e \<Rightarrow> Inl e
         | Inr ip \<Rightarrow>
             (case getIpAddressOf l (ifa_netmask i) of
                Inl e \<Rightarrow> Inl e
              | Inr nm \<Rightarrow>
                  (case getIpAddressOf l (ifa_broadaddr i) of
                     Inl e \<Rightarrow> Inl e
                   | Inr broadcast \<Rightarrow>
                       collect_interfaces l version rest
                         (found @ [\<lparr>name = ifa_name i, ip_address = ip, netmask = nm,
                            broadcast_address = broadcast\<rparr>]))))
      else collect_interfaces l version rest found)"

definition getLocalNetworkInterfaces :: "libc \<Rightarrow> ifaddr list \<Rightarrow> IP_VERSION \<Rightarrow> error + NetworkInterface list" where
  "getLocalNetworkInterfaces l ifs version = collect_interfaces l version ifs []"

section \<open>The choice\<close>

text \<open>
  \<open>std::regex_replace(s, ":|.|0", "x")\<close>: the dot of the pattern matches every character except
  the line terminators.
\<close>

definition mask_text :: "string \<Rightarrow> string" where
  "mask_text s = map (\<lambda>c. if c = CHR 0x0A \<or> c = CHR 0x0D then c else CHR ''x'') s"

definition more_specific :: "NetworkInterface \<Rightarrow> NetworkInterface \<Rightarrow> bool" where
  "more_specific a b =
     (ip_address b = ''::1'' \<or> ip_address b = ''127.0.0.1'' \<or>
      length (mask_text (netmask b)) < length (mask_text (netmask a)))"

text \<open>
  \<open>std::sort\<close> is defined only if the comparison is a strict weak order on the elements; then it
  returns some sorted permutation. Which one is up to the library, so the sorting function is a
  parameter. \<open>front()\<close> of an empty vector is undefined.
\<close>

definition strict_weak_order :: "'a list \<Rightarrow> ('a \<Rightarrow> 'a \<Rightarrow> bool) \<Rightarrow> bool" where
  "strict_weak_order xs lt =
     (list_all (\<lambda>a. \<not> lt a a) xs \<and>
      list_all (\<lambda>a. list_all (\<lambda>b. list_all (\<lambda>c.
        (lt a b \<and> lt b c \<longrightarrow> lt a c) \<and>
        (\<not> lt a b \<and> \<not> lt b a \<and> \<not> lt b c \<and> \<not> lt c b \<longrightarrow> \<not> lt a c \<and> \<not> lt c a)) xs) xs) xs)"

type_synonym sorter =
  "(NetworkInterface \<Rightarrow> NetworkInterface \<Rightarrow> bool) \<Rightarrow> NetworkInterface list \<Rightarrow> NetworkInterface list"

definition getInterfaceWithMostSpecificNetmask ::
    "sorter \<Rightarrow> libc \<Rightarrow> ifaddr list \<Rightarrow> IP_VERSION \<Rightarrow> error + NetworkInterface" where
  "getInterfaceWithMostSpecificNetmask srt l ifs required_ip_version =
     (case getLocalNetworkInterfaces l ifs required_ip_version of
        Inl e \<Rightarrow> Inl e
      | Inr interfaces \<Rightarrow>
          if \<not> strict_weak_order interfaces more_specific then Inl Undefined_Behaviour
          else (case srt more_specific interfaces of
              [] \<Rightarrow> Inl Undefined_Behaviour
            | x # _ \<Rightarrow> Inr x))"

text \<open>What the standard promises of \<open>std::sort\<close>.\<close>

definition std_sort :: "sorter \<Rightarrow> bool" where
  "std_sort srt = (\<forall>lt xs. strict_weak_order xs lt \<longrightarrow>
     mset (srt lt xs) = mset xs \<and> sorted_wrt (\<lambda>a b. \<not> lt b a) (srt lt xs))"

section \<open>Properties\<close>

definition wanted :: "IP_VERSION \<Rightarrow> ifaddr \<Rightarrow> bool" where
  "wanted version i = (\<exists>a. ifa_addr i = Some a \<and> sa_family a = (if version = IPv4 then AF_INET else AF_INET6))"

definition text_of :: "libc \<Rightarrow> sockaddr option \<Rightarrow> string" where
  "text_of l a = (case a of Some (Sockaddr_In6 b p) \<Rightarrow> inet_ntop6 l b
     | Some (Sockaddr_In b p) \<Rightarrow> inet_ntop4 l b | _ \<Rightarrow> [])"

definition known :: "sockaddr option \<Rightarrow> bool" where
  "known a = (case a of Some (Sockaddr_Other n) \<Rightarrow> False | _ \<Rightarrow> True)"

lemma getIpAddressOf_known: "known a \<Longrightarrow> getIpAddressOf l a = Inr (text_of l a)"
  by (cases "(l, a)" rule: getIpAddressOf.cases)
    (auto simp: known_def text_of_def getIpV6AddressOf_def getIpV4AddressOf_def)

lemma getIpAddressOf_unknown: "\<not> known a \<Longrightarrow> \<exists>n. getIpAddressOf l a =
    Inl (Runtime_Error (''Unknown address family:'' @ to_string n))"
  by (cases "(l, a)" rule: getIpAddressOf.cases) (auto simp: known_def)

abbreviation describe :: "libc \<Rightarrow> ifaddr \<Rightarrow> NetworkInterface" where
  "describe l i \<equiv> \<lparr>name = ifa_name i, ip_address = text_of l (ifa_addr i),
     netmask = text_of l (ifa_netmask i), broadcast_address = text_of l (ifa_broadaddr i)\<rparr>"

definition all_known :: "IP_VERSION \<Rightarrow> ifaddr list \<Rightarrow> bool" where
  "all_known version ifs =
     (\<forall>i \<in> set ifs. wanted version i \<longrightarrow> known (ifa_netmask i) \<and> known (ifa_broadaddr i))"

lemma wanted_known: "wanted version i \<Longrightarrow> known (ifa_addr i)"
  by (auto simp: wanted_def known_def split: option.splits sockaddr.splits if_splits)

lemma wanted_test:
  "(case ifa_addr i of None \<Rightarrow> False
    | Some a \<Rightarrow> sa_family a = (if version = IPv4 then AF_INET else AF_INET6)) = wanted version i"
  by (auto simp: wanted_def split: option.splits)

lemma collect_interfaces_known:
  "all_known version ifs \<Longrightarrow>
     collect_interfaces l version ifs found = Inr (found @ map (describe l) (filter (wanted version) ifs))"
proof (induction ifs arbitrary: found)
  case (Cons i ifs)
  then have "all_known version ifs" by (simp add: all_known_def)
  with Cons show ?case
    by (auto simp: wanted_test getIpAddressOf_known wanted_known all_known_def)
qed simp

lemma collect_interfaces_unknown:
  "\<not> all_known version ifs \<Longrightarrow>
     \<exists>n. collect_interfaces l version ifs found =
       Inl (Runtime_Error (''Unknown address family:'' @ to_string n))"
proof (induction ifs arbitrary: found)
  case (Cons i ifs)
  show ?case
  proof (cases "wanted version i \<and> \<not> (known (ifa_netmask i) \<and> known (ifa_broadaddr i))")
    case True
    then obtain n where "\<not> known (ifa_netmask i) \<Longrightarrow> getIpAddressOf l (ifa_netmask i) =
        Inl (Runtime_Error (''Unknown address family:'' @ to_string n))"
      using getIpAddressOf_unknown by blast
    moreover obtain m where "\<not> known (ifa_broadaddr i) \<Longrightarrow> getIpAddressOf l (ifa_broadaddr i) =
        Inl (Runtime_Error (''Unknown address family:'' @ to_string m))"
      using getIpAddressOf_unknown by blast
    ultimately show ?thesis using True
      by (cases "known (ifa_netmask i)") (auto simp: wanted_test getIpAddressOf_known wanted_known)
  next
    case False
    with Cons.prems have "\<not> all_known version ifs" by (auto simp: all_known_def)
    with Cons.IH False show ?thesis
      by (cases "wanted version i") (simp_all add: wanted_test getIpAddressOf_known wanted_known)
  qed
qed (simp add: all_known_def)

text \<open>
  \<open>getLocalNetworkInterfaces\<close> returns one entry for every interface that has an address of
  the requested version, in the order of the system's list, with the texts of its three
  addresses (empty for a missing one), and leaves out every other interface. The only exception
  is a netmask or a broadcast address of some other family on such an interface.
\<close>

theorem getLocalNetworkInterfaces_outcome:
  "if all_known version ifs
   then getLocalNetworkInterfaces l ifs version = Inr (map (describe l) (filter (wanted version) ifs))
   else \<exists>n. getLocalNetworkInterfaces l ifs version =
     Inl (Runtime_Error (''Unknown address family:'' @ to_string n))"
  using collect_interfaces_known [of version ifs l "[]"] collect_interfaces_unknown [of version ifs l "[]"]
  by (simp add: getLocalNetworkInterfaces_def)

lemma length_mask_text [simp]: "length (mask_text s) = length s"
  by (simp add: mask_text_def)

text \<open>
  The comparison that \<open>getInterfaceWithMostSpecificNetmask\<close> passes to \<open>std::sort\<close> is not an
  order when an interface has a loopback address: that interface comes before itself. On every
  machine that has a loopback interface up, the call is undefined behaviour, whatever the
  sorting function does; it is with no interface at all, too.
\<close>

theorem loopback_makes_sort_undefined:
  assumes "getLocalNetworkInterfaces l ifs version = Inr interfaces"
    and "interfaces = [] \<or>
      (\<exists>i \<in> set interfaces. ip_address i = ''127.0.0.1'' \<or> ip_address i = ''::1'')"
    and "std_sort srt"
  shows "getInterfaceWithMostSpecificNetmask srt l ifs version = Inl Undefined_Behaviour"
proof (cases "interfaces = []")
  case True
  have "strict_weak_order [] more_specific" by (simp add: strict_weak_order_def)
  with assms(3) have "mset (srt more_specific []) = mset []" unfolding std_sort_def by blast
  then have "srt more_specific [] = []" by simp
  with assms(1) True show ?thesis
    by (auto simp: getInterfaceWithMostSpecificNetmask_def)
next
  case False
  with assms(2) have "\<not> strict_weak_order interfaces more_specific"
    by (auto simp: strict_weak_order_def more_specific_def list_all_iff)
  with assms(1) show ?thesis by (simp add: getInterfaceWithMostSpecificNetmask_def)
qed

lemma no_loopback_order:
  assumes "\<forall>i \<in> set xs. ip_address i \<noteq> ''127.0.0.1'' \<and> ip_address i \<noteq> ''::1''"
  shows "strict_weak_order xs more_specific"
  using assms by (auto simp: strict_weak_order_def more_specific_def list_all_iff)

text \<open>
  C40: without loopback addresses the call is defined and returns one of the interfaces; but what
  it maximises is the number of characters of the netmask's text. Since the dot in the pattern
  stands for any character, no character is left out of the count, and "255.255.240.0" and
  "255.255.255.0" are equally specific.
\<close>

theorem longest_netmask_text_wins:
  assumes "std_sort srt" and "getLocalNetworkInterfaces l ifs version = Inr interfaces"
    and "interfaces \<noteq> []"
    and "\<forall>i \<in> set interfaces. ip_address i \<noteq> ''127.0.0.1'' \<and> ip_address i \<noteq> ''::1''"
  shows "\<exists>x \<in> set interfaces. getInterfaceWithMostSpecificNetmask srt l ifs version = Inr x \<and>
    (\<forall>y \<in> set interfaces. length (netmask y) \<le> length (netmask x))"
proof -
  note order = no_loopback_order [OF assms(4)]
  with assms(1) have perm: "mset (srt more_specific interfaces) = mset interfaces"
    and sorted: "sorted_wrt (\<lambda>a b. \<not> more_specific b a) (srt more_specific interfaces)"
    unfolding std_sort_def by blast+
  from perm have elements: "set (srt more_specific interfaces) = set interfaces"
    by (metis set_mset_mset)
  with assms(3) obtain x xs where x: "srt more_specific interfaces = x # xs"
    by (cases "srt more_specific interfaces") auto
  have "length (netmask y) \<le> length (netmask x)" if "y \<in> set interfaces" for y
  proof (cases "y = x")
    case False
    with that elements x have "y \<in> set xs" by auto
    with sorted x show ?thesis by (auto simp: more_specific_def)
  qed simp
  with assms(2) order x elements show ?thesis
    by (intro bexI [of _ x]) (auto simp: getInterfaceWithMostSpecificNetmask_def)
qed

section \<open>A sorting function for the witnesses\<close>

fun insert_by :: "('a \<Rightarrow> 'a \<Rightarrow> bool) \<Rightarrow> 'a \<Rightarrow> 'a list \<Rightarrow> 'a list" where
  "insert_by lt x [] = [x]"
| "insert_by lt x (y # ys) = (if lt y x then y # insert_by lt x ys else x # y # ys)"

definition insertion_sort :: "('a \<Rightarrow> 'a \<Rightarrow> bool) \<Rightarrow> 'a list \<Rightarrow> 'a list" where
  "insertion_sort lt xs = foldr (insert_by lt) xs []"

lemma mset_insert_by: "mset (insert_by lt x ys) = add_mset x (mset ys)"
  by (induction ys) auto

lemma set_insert_by [simp]: "set (insert_by lt x ys) = insert x (set ys)"
  by (induction ys) auto

lemma mset_insertion_sort: "mset (insertion_sort lt xs) = mset xs"
  by (induction xs) (simp_all add: insertion_sort_def mset_insert_by)

lemma strict_weak_orderD:
  assumes "strict_weak_order xs lt" and "a \<in> set xs" "b \<in> set xs" "c \<in> set xs"
  shows "\<not> lt a a" and "\<not> lt b a \<Longrightarrow> \<not> lt c b \<Longrightarrow> \<not> lt c a" and "lt b a \<Longrightarrow> \<not> lt a b"
  using assms unfolding strict_weak_order_def list_all_iff by blast+

lemma sorted_insert_by:
  assumes "strict_weak_order zs lt" and "set (x # ys) \<subseteq> set zs"
    and "sorted_wrt (\<lambda>a b. \<not> lt b a) ys"
  shows "sorted_wrt (\<lambda>a b. \<not> lt b a) (insert_by lt x ys)"
  using assms(2,3)
proof (induction ys)
  case (Cons y ys)
  then have mem: "x \<in> set zs" "y \<in> set zs" "set ys \<subseteq> set zs" by auto
  show ?case
  proof (cases "lt y x")
    case True
    with strict_weak_orderD(3) [OF assms(1) mem(1,2,1)] Cons show ?thesis by auto
  next
    case False
    with strict_weak_orderD(2) [OF assms(1) mem(1,2)] mem(3) Cons.prems show ?thesis by auto
  qed
qed simp

lemma std_sort_insertion_sort: "std_sort insertion_sort"
proof -
  have "sorted_wrt (\<lambda>a b. \<not> lt b a) (insertion_sort lt xs)"
    if "strict_weak_order zs lt" "set xs \<subseteq> set zs" for lt :: "NetworkInterface \<Rightarrow> NetworkInterface \<Rightarrow> bool" and xs zs
    using that
  proof (induction xs)
    case (Cons x xs)
    have "set (insertion_sort lt xs) = set xs"
      using mset_insertion_sort [of lt xs] by (metis set_mset_mset)
    with Cons sorted_insert_by [OF Cons.prems(1), of x "insertion_sort lt xs"] show ?case
      by (simp add: insertion_sort_def)
  qed (simp add: insertion_sort_def)
  then show ?thesis by (auto simp: std_sort_def mset_insertion_sort)
qed

definition demo_interfaces :: "ifaddr list" where
  "demo_interfaces = [\<lparr>ifa_name = ''eth0'', ifa_addr = Some (Sockaddr_In 16777226 0),
     ifa_netmask = None, ifa_broadaddr = None\<rparr>]"

definition loopback_libc :: libc where
  "loopback_libc = reference_libc\<lparr>inet_ntop4 := (\<lambda>_. ''127.0.0.1'')\<rparr>"

theorem longest_netmask_text_wins_witness:
  "\<exists>x. getInterfaceWithMostSpecificNetmask insertion_sort reference_libc demo_interfaces IPv4 = Inr x"
proof -
  have "getLocalNetworkInterfaces reference_libc demo_interfaces IPv4 =
      Inr [\<lparr>name = ''eth0'', ip_address = ''10.0.0.1'', netmask = [], broadcast_address = []\<rparr>]"
    by code_simp
  from longest_netmask_text_wins [OF std_sort_insertion_sort this] show ?thesis by auto
qed

theorem loopback_makes_sort_undefined_witness:
  "getInterfaceWithMostSpecificNetmask insertion_sort loopback_libc demo_interfaces IPv4 = Inl Undefined_Behaviour"
proof -
  have "getLocalNetworkInterfaces loopback_libc demo_interfaces IPv4 =
      Inr [\<lparr>name = ''eth0'', ip_address = ''127.0.0.1'', netmask = [], broadcast_address = []\<rparr>]"
    by code_simp
  from loopback_makes_sort_undefined [OF this _ std_sort_insertion_sort] show ?thesis by auto
qed

end
