(* ===== verification/Spec2Isabelle.thy ===== *)
theory Spec2Isabelle
  imports Conditional_Effects Message_Link Buffered_Concurrency Library_Locks Listener_Accepting Listener_Destruction
    Udp_Concurrency Udp_Link Descriptor_Ownership Repository_Tests Net_Utils
begin

text \<open>
  A verification library for \<open>socket_wrapper\<close>, a C++ library of RAII wrappers around POSIX
  sockets. Paths below are relative to the repository.

  \<^bold>\<open>The program.\<close> \<open>Stream\<close> (\<open>src/Stream.cpp\<close>) owns a connected socket and an \<open>eventfd\<close> that
  aborts its reads. \<open>BufferedStream\<close> (\<open>src/BufferedStream.cpp\<close>) owns a \<open>Stream\<close> and a buffer of
  fixed size, from which it serves reads by count and up to a delimiter.
  \<open>ConditionalBufferedStream\<close> (\<open>src/ConditionalBufferedStream.cpp\<close>) owns a \<open>BufferedStream\<close> and a
  worker thread that cuts frames off the buffer wherever a condition of the client asks for it,
  puts them into one queue per condition, and announces each on the condition's \<open>eventfd\<close>.
  \<open>ListenerBase\<close> and \<open>Listener\<close> (\<open>src/Listener.cpp\<close>) accept TCP connections as streams,
  \<open>UdpDatagram\<close> (\<open>src/UdpDatagram.cpp\<close>) sends and receives datagrams, \<open>StreamFactory\<close>
  (\<open>src/StreamFactory.cpp\<close>) makes connected streams, and \<open>src/Utils.cpp\<close> lists the network
  interfaces. All errors are exceptions, most of them \<open>SocketException\<close>
  (\<open>src/SocketException.cpp\<close>).

  \<^bold>\<open>How it is modelled.\<close> A member function is an action: a function from the state it may change
  to a result and the new state. The result is \<open>Inl\<close> an exception or \<open>Inr\<close> a value, and the state
  that was changed before a \<open>throw\<close> stays changed. \<open>std::terminate\<close> and undefined behaviour are two
  further values of the exception type, which nothing catches. The state is the object's record,
  with the fields of the class, paired with the process: the history of all system calls made so
  far with their answers, and \<open>errno\<close>. Moved-from objects, unset values and \<open>-1\<close> descriptors are
  values of the records. Bytes are \<open>char\<close>; \<open>size_t\<close> is \<open>nat\<close> with the one subtraction that can wrap
  written out (\<open>size_minus\<close>); the \<open>int\<close> that a condition returns, the attempts of \<open>write\<close>, ports,
  addresses and \<open>eventfd\<close> values are words of their widths.

  \<^bold>\<open>The operating system\<close> is a parameter. A \<open>kernel\<close> answers every call from the history, a
  \<open>libc\<close> converts addresses, a list stands for the result of \<open>getifaddrs\<close>, and a function for
  \<open>std::sort\<close>. What a property needs of them is a named predicate that states documented
  behaviour (\<open>read_bounded\<close>, \<open>poll_reports\<close>, \<open>poll_eventfd\<close>, \<open>eventfd_writable\<close>,
  \<open>eventfd_semaphore\<close>, \<open>fresh_fds\<close>, \<open>close_succeeds\<close>, \<open>recvmsg_bounded\<close>, \<open>std_sort\<close>, and so on). The
  executable \<open>reference_kernel\<close> satisfies all of those about the kernel at once, and the witnesses
  run the code on it.

  \<^bold>\<open>The theories.\<close>
  \<^item> \<open>SW_Prelude\<close>: actions and their sequencing, memory blocks, the first occurrence in a list.
  \<^item> \<open>Base_Types\<close>: IP versions, exceptions, their names and texts (\<open>BaseTypes.cpp\<close>,
    \<open>SocketException.cpp\<close>).
  \<^item> \<open>Kernel\<close>, \<open>Reference_Kernel\<close>: system calls, histories and what can be read off them (bytes
    received and sent on a descriptor, open descriptors, the counter of an \<open>eventfd\<close>), documented
    behaviour, and the executable instance.
  \<^item> \<open>Stream_Model\<close>: \<open>Stream\<close>. Facts about whole reads go by \<open>Stream_read_loop_run\<close>, an induction over
    the rounds of the loop.
  \<^item> \<open>Byte_Fifo\<close>, \<open>Buffered_Stream\<close>: \<open>BufferedStream\<close> and the contract that its buffer is a
    first-in-first-out queue of bytes with a source (locales \<open>byte_fifo\<close> and \<open>byte_fifo_source\<close>,
    interpreted on the class's own operations). The ledger: bytes taken out, followed by the
    contents of the buffer, are what the socket delivered.
  \<^item> \<open>Conditional_Stream\<close>: \<open>ConditionalBufferedStream\<close> with its worker.
  \<^item> \<open>Conditional_Frames\<close>: framing at a delimiter, the ledger of frames over any order of worker
    rounds and client calls, termination of the worker.
  \<^item> \<open>Conditional_Errors\<close>: several conditions, errors and termination requests on their way to the
    readers, the outcomes of \<open>readBlocking\<close>, the range of the delimiter condition, destruction.
  \<^item> \<open>Labelled_Steps\<close>: runs of a labelled step relation, and forward simulation (locale \<open>simulation\<close>).
  \<^item> \<open>Frame_Mailbox\<close>: the abstract specification of \<open>ConditionalBufferedStream\<close>: received bytes are
    cut at the front, each piece goes to the box of one condition or is discarded, readers take
    from the front of a box or are refused. What a run of it keeps: no byte lost, boxes in order.
  \<^item> \<open>Conditional_Turns\<close>: \<open>processDataSendSignals\<close> with any number of conditions that are arbitrary
    functions. A property of a handler's turn that stays, follows and composes holds of the whole
    recursion (locale \<open>handler_turns\<close>, interpreted on the code's own turns); equality with a pure
    splitting function for one condition; the round trip of delimited messages.
  \<^item> \<open>Conditional_Concurrency\<close>: the worker, readers, writers and callers of \<open>stopReads\<close> as a step
    relation, one step per critical section or system call; frames and posts match.
  \<^item> \<open>Conditional_Runs\<close>: that relation refines the mailbox (interpretation of \<open>simulation\<close>), and the
    sequential worker of \<open>Conditional_Stream\<close> refines it in turn; the well-formedness that all
    operations keep; reading after polling.
  \<^item> \<open>Conditional_Effects\<close>: conditions that keep a state, use the system, and throw. Conditions that
    only compute make the worker the one of the other theories; no condition can lose a byte; what
    the worker makes of an exception that a condition throws.
  \<^item> \<open>System_Calls\<close>, \<open>Message_Link\<close>: member functions as runs of answered system calls; two ends of a
    connection, whose only assumption \<open>connected\<close> is that a read delivers the next of the bytes
    that were written; messages sent at one end are the frames handed out at the other.
  \<^item> \<open>Stream_Concurrency\<close>: concurrent calls of \<open>Stream::write\<close> and of \<open>Stream::read\<close> on one stream,
    one step per critical section, with the sequential loops as special runs.
  \<^item> \<open>Buffered_Concurrency\<close>: concurrent calls of \<open>read(n)\<close> and of \<open>read(buffer, max, min)\<close> on one
    \<open>BufferedStream\<close>; a refill is a run of \<open>Stream::read\<close> in company. The bytes come out in order
    and once, but \<open>read(n)\<close> throws where it should wait.
  \<^item> \<open>Lock_Order\<close>: threads that take mutexes, recursive ones and others; threads that respect an
    order never deadlock and can always finish (locale \<open>lock_discipline\<close>).
  \<^item> \<open>Library_Locks\<close>: the mutexes of the library and the sequence in which each of its functions
    takes them. The locale is interpreted twice: for everything but \<open>Stream::operator=\<close>, and with
    assignments in one direction. Moves that cross do deadlock.
  \<^item> \<open>Descriptor_Use\<close>: what throwing constructors leave open, and the contract of a stop
    descriptor (locale \<open>stop_signal\<close>, interpreted on \<open>Stream\<close>, \<open>Listener\<close> and \<open>UdpDatagram\<close>).
  \<^item> \<open>Listener_Model\<close>, \<open>Listener_Serving\<close>: both listeners; their constructors; the serving loop,
    what it hands to the callback and when it ends, also when the callback itself stops the listener.
  \<^item> \<open>Listener_Threads\<close>: the serving thread of \<open>ListenerBase\<close> and a thread that stops it, with an
    invariant over all interleavings; \<open>handleIncomingStreams\<close> refines the steps.
  \<^item> \<open>Listener_Accepting\<close>: threads that share a \<open>Listener\<close>, calling \<open>accept\<close> and \<open>stopAccepting\<close>; how
    clients are divided; what goes wrong when the socket is closed under a call.
  \<^item> \<open>Listener_Destruction\<close>: an object of a class derived from \<open>ListenerBase\<close> at the end of its life.
  \<^item> \<open>Udp_Datagram\<close>, \<open>Udp_Concurrency\<close>: \<open>UdpDatagram\<close>, and its \<open>read\<close> called by several threads,
    which share the receive buffer without a lock.
  \<^item> \<open>Udp_Link\<close>: two of them over a network that may lose, repeat and reorder datagrams; the size of
    the default buffer.
  \<^item> \<open>Stream_Factory\<close>, \<open>Net_Utils\<close>: the remaining functions.
  \<^item> \<open>Owning_Class\<close>, \<open>Descriptor_Ownership\<close>: programs that make, move, use and destroy objects that
    own a descriptor, as a step relation, and what follows from the contract of their class (locale
    \<open>owning_class\<close>, interpreted on \<open>Stream\<close>, with every way to get one, and on \<open>UdpDatagram\<close>): one
    owner for each descriptor, a balanced account, and what the objects cost the process.
  \<^item> \<open>Repository_Tests\<close>: the tests of \<open>ConditionalBufferedStream\<close> in \<open>test/test.cpp\<close>, which the
    model passes.

  \<^bold>\<open>Loops.\<close> The loops of \<open>Stream::read\<close>, \<open>Stream::write\<close>, \<open>BufferedStream\<close> and the recursion of
  \<open>processDataSendSignals\<close> end on every input and are total functions with a measure. The two
  \<open>while (true)\<close> loops, of the worker and of the listener's thread, are partial functions into
  \<open>option\<close>, where \<open>None\<close> is a loop that never ends; that they end is proved for finite input and
  finitely many clients, and that the second does not is proved for a client that cannot be
  accepted. No fuel is used.

  \<^bold>\<open>Bounds.\<close> Frames are proved for buffers below \<open>2 ^ 31 - 1\<close> bytes, since the delimiter condition
  returns an \<open>int\<close>; beyond that the behaviour is the subject of \<open>getDelimiterCondition_bounds\<close>.
  Counters of \<open>eventfd\<close>s are taken to stay below the \<open>2 ^ 64 - 2\<close> at which a write blocks.

  \<^bold>\<open>Concurrency.\<close> The step relations interleave at the points where the code releases a mutex, makes
  a system call or touches an atomic member; a mutex shows as the size of a step. The
  mutexes themselves, and that waiting for them ends, are the subject of \<open>Library_Locks\<close>, where of a
  thread only its lock operations are kept and what it does between them is taken to end (a \<open>poll\<close>
  without a timeout need not: the thread then keeps its mutexes). Where the code
  is not protected (\<open>last_ex\<close>, the list of handlers, the buffer of a \<open>BufferedStream\<close>) an access is
  taken to be atomic, and \<open>createEventfdOnCondition\<close> to be called before \<open>start\<close>, as its comment
  demands.

  \<^bold>\<open>Not modelled.\<close> Data races in the sense of the C++ memory model; failing memory
  allocation; conditions that change the list of handlers or the object they belong to; a failing
  \<open>getifaddrs\<close>; output to \<open>std::cout\<close>; the cached text inside \<open>SocketException\<close>; the unused field
  \<open>destination_addr\<close>; the tests of the other classes, which depend on the network of the machine, and
  the build files. Every executable line of the library's sources is the subject of a definition;
  what is left of the headers are declarations and comments.
\<close>

end
